(* ===== verification/Prelude.thy ===== *)
theory Prelude
  imports Main "HOL-Library.Word" "HOL-Library.Monad_Syntax"
begin

text \<open>
  Prelude of the development: names for the C integer types, the error numbers the sources
  return, a byte-addressed memory with reads and writes, the little-endian codecs of the wire
  formats, C strings, and the linear probe that both hash tables of the sources
  (\<^verbatim>\<open>qrtr/src/map.c\<close> and \<^verbatim>\<open>pd-mapper/assoc.c\<close>) run.

  A memory is a function from offsets to bytes. A C buffer of \<open>n\<close> bytes is such a memory
  with \<open>n\<close> beside it: what lies at and beyond \<open>n\<close> is whatever the surrounding stack frame
  or heap holds, so a read past the end of a buffer has a value that the model does not choose.
\<close>

unbundle bit_operations_syntax

section \<open>Types, error numbers, theorem collections\<close>

type_synonym u8 = "8 word"
type_synonym u16 = "16 word"
type_synonym u32 = "32 word"
type_synonym u64 = "64 word"
type_synonym mem = "nat \<Rightarrow> u8"

abbreviation (input) ENOENT :: int where "ENOENT \<equiv> 2"
abbreviation (input) EINTR :: int where "EINTR \<equiv> 4"
abbreviation (input) ENOMEM :: int where "ENOMEM \<equiv> 12"
abbreviation (input) EFAULT :: int where "EFAULT \<equiv> 14"
abbreviation (input) EINVAL :: int where "EINVAL \<equiv> 22"
abbreviation (input) EMSGSIZE :: int where "EMSGSIZE \<equiv> 90"
abbreviation (input) ENETRESET :: int where "ENETRESET \<equiv> 102"

named_theorems codec_simps "width and round trip of the byte codecs"
named_theorems frame_simps "fields an operation does not write"

section \<open>Lists\<close>

lemma distinct_concat_map:
  assumes "distinct ps" "\<And>p. p \<in> set ps \<Longrightarrow> distinct (g p)"
    "\<And>p q. p \<in> set ps \<Longrightarrow> q \<in> set ps \<Longrightarrow> p \<noteq> q \<Longrightarrow> set (g p) \<inter> set (g q) = {}"
  shows "distinct (concat (map g ps))"
  using assms
proof (induction ps)
  case (Cons p ps)
  have "set (g p) \<inter> set (g q) = {}" if "q \<in> set ps" for q
    using Cons.prems(1,3) that by auto
  with Cons show ?case by auto
qed simp

section \<open>Memory\<close>

definition holds :: "mem \<Rightarrow> nat \<Rightarrow> u8 list \<Rightarrow> bool" where
  "holds m p xs \<longleftrightarrow> (\<forall>i<length xs. m (p + i) = xs ! i)"

definition wr :: "mem \<Rightarrow> nat \<Rightarrow> u8 list \<Rightarrow> mem" where
  "wr m p xs = (\<lambda>a. if p \<le> a \<and> a < p + length xs then xs ! (a - p) else m a)"

definition rd :: "mem \<Rightarrow> nat \<Rightarrow> nat \<Rightarrow> u8 list" where
  "rd m p n = map (\<lambda>i. m (p + i)) [0..<n]"

lemma holds_Nil [simp]: "holds m p []"
  by (simp add: holds_def)

lemma holds_Cons [simp]: "holds m p (x # xs) \<longleftrightarrow> m p = x \<and> holds m (Suc p) xs"
  by (auto simp: holds_def less_Suc_eq_0_disj nth_Cons split: nat.splits)

lemma holds_append [simp]:
  "holds m p (xs @ ys) \<longleftrightarrow> holds m p xs \<and> holds m (p + length xs) ys"
  by (induction xs arbitrary: p) auto

lemma length_rd [simp]: "length (rd m p n) = n"
  by (simp add: rd_def)

lemma nth_rd [simp]: "i < n \<Longrightarrow> rd m p n ! i = m (p + i)"
  by (simp add: rd_def)

lemma rd_0 [simp]: "rd m p 0 = []"
  by (simp add: rd_def)

lemma holds_iff_rd: "holds m p xs \<longleftrightarrow> rd m p (length xs) = xs"
proof
  assume "holds m p xs"
  then show "rd m p (length xs) = xs"
    by (intro nth_equalityI) (simp_all add: holds_def)
next
  assume "rd m p (length xs) = xs"
  then show "holds m p xs"
    unfolding holds_def by (metis nth_rd)
qed

lemma holds_rd [simp]: "holds m p (rd m p n)"
  by (simp add: holds_iff_rd)

lemma holds_wr [simp]: "holds (wr m p xs) p xs"
  by (simp add: holds_def wr_def)

lemma holds_wr_other:
  "holds m q ys \<Longrightarrow> q + length ys \<le> p \<or> p + length xs \<le> q \<Longrightarrow> holds (wr m p xs) q ys"
  by (auto simp: holds_def wr_def)

lemma rd_wr_same [simp]: "length xs = n \<Longrightarrow> rd (wr m p xs) p n = xs"
  using holds_iff_rd holds_wr by blast

lemma rd_wr_other:
  "q + n \<le> p \<or> p + length xs \<le> q \<Longrightarrow> rd (wr m p xs) q n = rd m q n"
  by (auto simp: rd_def wr_def)

lemma rd_add: "rd m p (a + b) = rd m p a @ rd m (p + a) b"
  by (rule nth_equalityI) (auto simp: nth_append)

lemma wr_Nil [simp]: "wr m p [] = m"
  by (rule ext) (auto simp: wr_def)

lemma wr_outside: "a < p \<or> p + length xs \<le> a \<Longrightarrow> wr m p xs a = m a"
  by (auto simp: wr_def)

lemma wr_commute:
  "p + length xs \<le> q \<or> q + length ys \<le> p \<Longrightarrow> wr (wr m p xs) q ys = wr (wr m q ys) p xs"
  by (rule ext) (auto simp: wr_def)

lemma wr_append: "wr m p (xs @ ys) = wr (wr m p xs) (p + length xs) ys"
  by (rule ext) (auto simp: wr_def nth_append)

section \<open>Little-endian codecs\<close>

definition le16 :: "u16 \<Rightarrow> u8 list" where
  "le16 w = [ucast w, ucast (drop_bit 8 w)]"

definition le32 :: "u32 \<Rightarrow> u8 list" where
  "le32 w = [ucast w, ucast (drop_bit 8 w), ucast (drop_bit 16 w), ucast (drop_bit 24 w)]"

definition get16 :: "mem \<Rightarrow> nat \<Rightarrow> u16" where
  "get16 m p = ucast (m p) OR push_bit 8 (ucast (m (p + 1)))"

definition get32 :: "mem \<Rightarrow> nat \<Rightarrow> u32" where
  "get32 m p = ucast (m p) OR push_bit 8 (ucast (m (p + 1)))
     OR push_bit 16 (ucast (m (p + 2))) OR push_bit 24 (ucast (m (p + 3)))"

lemma length_le16 [simp, codec_simps]: "length (le16 w) = 2"
  by (simp add: le16_def)

lemma length_le32 [simp, codec_simps]: "length (le32 w) = 4"
  by (simp add: le32_def)

lemma le32_not_Nil [simp]: "le32 w \<noteq> []"
  by (simp add: le32_def)

lemma get16_le16 [codec_simps]: "holds m p (le16 w) \<Longrightarrow> get16 m p = w"
proof (rule bit_word_eqI)
  fix n assume "holds m p (le16 w)" and n: "n < LENGTH(16)"
  then have "m p = ucast w" "m (Suc p) = ucast (drop_bit 8 w)"
    by (simp_all add: le16_def)
  with n show "bit (get16 m p) n = bit w n"
    by (cases "n < 8") (auto simp: get16_def bit_simps)
qed

lemma get32_le32 [codec_simps]: "holds m p (le32 w) \<Longrightarrow> get32 m p = w"
proof (rule bit_word_eqI)
  fix n assume "holds m p (le32 w)" and n: "n < LENGTH(32)"
  then have "m p = ucast w" "m (p + 1) = ucast (drop_bit 8 w)"
    "m (p + 2) = ucast (drop_bit 16 w)" "m (p + 3) = ucast (drop_bit 24 w)"
    by (simp_all add: le32_def eval_nat_numeral)
  moreover have "n < 8 \<or> 8 \<le> n \<and> n < 16 \<or> 16 \<le> n \<and> n < 24 \<or> 24 \<le> n"
    by auto
  ultimately show "bit (get32 m p) n = bit w n"
    using n by (elim disjE conjE) (auto simp: get32_def bit_simps)
qed

lemma rd_eqD: "rd m p n = rd m' q n \<Longrightarrow> i < n \<Longrightarrow> m (p + i) = m' (q + i)"
  by (metis nth_rd)

lemma rd_sub:
  "rd m p n = rd m' q n \<Longrightarrow> i + k \<le> n \<Longrightarrow> rd m (p + i) k = rd m' (q + i) k"
  by (rule nth_equalityI) (auto simp: add.assoc intro!: rd_eqD)

lemma get16_cong:
  assumes "rd m p 2 = rd m' q 2"
  shows "get16 m p = get16 m' q"
  using rd_eqD [OF assms, of 0] rd_eqD [OF assms, of 1] by (simp add: get16_def)

lemma get32_cong:
  assumes "rd m p 4 = rd m' q 4"
  shows "get32 m p = get32 m' q"
  using rd_eqD [OF assms, of 0] rd_eqD [OF assms, of 1]
    rd_eqD [OF assms, of 2] rd_eqD [OF assms, of 3]
  by (simp add: get32_def)

lemma bit_above: "unat w < 2 ^ k \<Longrightarrow> k \<le> n \<Longrightarrow> \<not> bit w n"
proof
  assume "unat w < 2 ^ k" "k \<le> n" "bit w n"
  then have "bit (unat w) n" and "unat w < 2 ^ n"
    by (simp_all add: bit_unsigned_iff) (meson one_le_numeral order_less_le_trans power_increasing)
  then show False by (simp add: bit_iff_odd)
qed

section \<open>C strings\<close>

text \<open>The number of bytes before the first NUL; no result where no NUL follows.\<close>

partial_function (option) strlen :: "mem \<Rightarrow> nat \<Rightarrow> nat option" where
  "strlen m p = (if m p = 0 then Some 0 else Option.bind (strlen m (p + 1)) (\<lambda>n. Some (n + 1)))"

lemma strlen_iff: "strlen m p = Some n \<longleftrightarrow> (\<forall>i<n. m (p + i) \<noteq> 0) \<and> m (p + n) = 0"
proof (induction n arbitrary: p)
  case 0
  then show ?case by (subst strlen.simps) (auto simp: Option.bind_eq_Some_conv)
next
  case (Suc n)
  have "strlen m p = Some (Suc n) \<longleftrightarrow> m p \<noteq> 0 \<and> strlen m (p + 1) = Some n"
    by (subst strlen.simps) (auto simp: Option.bind_eq_Some_conv)
  also have "\<dots> \<longleftrightarrow> (\<forall>i<Suc n. m (p + i) \<noteq> 0) \<and> m (p + Suc n) = 0"
    unfolding Suc.IH by (auto simp: less_Suc_eq_0_disj)
  finally show ?case .
qed

text \<open>The bytes of a string literal, without the NUL.\<close>

definition ascii :: "string \<Rightarrow> u8 list" where
  "ascii s = map (\<lambda>c. of_nat (of_char c)) s"

section \<open>Linear probing\<close>

text \<open>
  \<open>probe_first n P N i\<close> visits \<open>i\<close>, \<open>i + 1\<close>, ... modulo \<open>N\<close>, at most \<open>n\<close> indices, and
  stops at the first one that satisfies \<open>P\<close>.
\<close>

primrec probe_first :: "nat \<Rightarrow> (nat \<Rightarrow> bool) \<Rightarrow> nat \<Rightarrow> nat \<Rightarrow> nat option" where
  "probe_first 0 P N i = None"
| "probe_first (Suc n) P N i = (if P i then Some i else probe_first n P N ((i + 1) mod N))"

lemma probe_first_Some:
  assumes "probe_first n P N (h mod N) = Some j"
  shows "\<exists>d<n. j = (h + d) mod N \<and> P j \<and> (\<forall>e<d. \<not> P ((h + e) mod N))"
  using assms
proof (induction n arbitrary: h)
  case (Suc n)
  show ?case
  proof (cases "P (h mod N)")
    case True
    with Suc.prems show ?thesis by (intro exI [of _ 0]) auto
  next
    case False
    with Suc.prems have "probe_first n P N (Suc h mod N) = Some j"
      by (simp add: mod_Suc_eq)
    then obtain d where d: "d < n" "j = (Suc h + d) mod N" "P j"
      "\<forall>e<d. \<not> P ((Suc h + e) mod N)"
      using Suc.IH by blast
    then show ?thesis
      using False by (intro exI [of _ "Suc d"]) (auto simp: less_Suc_eq_0_disj)
  qed
qed simp

lemma probe_first_None:
  assumes "probe_first n P N (h mod N) = None" and "d < n"
  shows "\<not> P ((h + d) mod N)"
  using assms
proof (induction n arbitrary: h d)
  case (Suc n)
  then have neg: "\<not> P (h mod N)" and "probe_first n P N (Suc h mod N) = None"
    by (auto simp: mod_Suc_eq split: if_splits)
  show ?case
  proof (cases d)
    case 0
    with neg show ?thesis by simp
  next
    case (Suc d')
    with \<open>probe_first n P N (Suc h mod N) = None\<close> Suc.prems show ?thesis
      using Suc.IH [of "Suc h" d'] by simp
  qed
qed simp

text \<open>The offset at which a probe that starts at \<open>h\<close> meets the index \<open>j\<close>.\<close>

definition probe_dist :: "nat \<Rightarrow> nat \<Rightarrow> nat \<Rightarrow> nat" where
  "probe_dist N h j = (j + N - h mod N) mod N"

lemma probe_dist_less [simp]: "0 < N \<Longrightarrow> probe_dist N h j < N"
  by (simp add: probe_dist_def)

lemma probe_dist_hits:
  assumes "j < N"
  shows "(h + probe_dist N h j) mod N = j"
proof -
  from assms have "h mod N < N" by simp
  have "(h + probe_dist N h j) mod N = (h + (j + N - h mod N)) mod N"
    unfolding probe_dist_def by (rule mod_add_right_eq)
  also have "\<dots> = (h mod N + (j + N - h mod N)) mod N"
    by (rule mod_add_left_eq [symmetric])
  also have "h mod N + (j + N - h mod N) = j + N"
    using \<open>h mod N < N\<close> by linarith
  finally show ?thesis using assms by simp
qed

lemma probe_dist_of:
  assumes "d < N"
  shows "probe_dist N h ((h + d) mod N) = d"
proof -
  define r where "r = h mod N"
  have r: "r < N" using assms by (simp add: r_def)
  have hd: "(h + d) mod N = (r + d) mod N"
    unfolding r_def by (rule mod_add_left_eq [symmetric])
  show ?thesis
  proof (cases "r + d < N")
    case True
    then have "(r + d) mod N + N - r = d + N" by simp
    then have "probe_dist N h ((h + d) mod N) = (d + N) mod N"
      by (simp add: probe_dist_def hd flip: r_def)
    with assms show ?thesis by simp
  next
    case False
    with assms r have "(r + d) mod N = r + d - N"
      by (simp add: le_mod_geq)
    with False have "(r + d) mod N + N - r = d" by simp
    with assms show ?thesis by (simp add: probe_dist_def hd flip: r_def)
  qed
qed

lemma probe_covers:
  fixes j N h :: nat
  assumes "j < N"
  obtains d where "d < N" and "(h + d) mod N = j"
proof
  show "probe_dist N h j < N" using assms by simp
  show "(h + probe_dist N h j) mod N = j" using assms by (rule probe_dist_hits)
qed

lemma probe_first_all_None:
  assumes "probe_first N P N (h mod N) = None" and "j < N"
  shows "\<not> P j"
proof -
  obtain d where "d < N" and "(h + d) mod N = j"
    using assms(2) by (rule probe_covers)
  with probe_first_None [OF assms(1), of d] show ?thesis by simp
qed

lemma probe_first_least:
  assumes "d < n" and "P ((h + d) mod N)" and "\<forall>e<d. \<not> P ((h + e) mod N)"
  shows "probe_first n P N (h mod N) = Some ((h + d) mod N)"
  using assms
proof (induction n arbitrary: h d)
  case (Suc n)
  show ?case
  proof (cases d)
    case 0
    with Suc.prems show ?thesis by simp
  next
    case (Suc d')
    with Suc.prems have "\<not> P (h mod N)" by (auto dest: spec [of _ 0])
    moreover have "probe_first n P N (Suc h mod N) = Some ((Suc h + d') mod N)"
      using Suc.prems Suc by (intro Suc.IH) auto
    ultimately show ?thesis using Suc by (simp add: mod_Suc_eq)
  qed
qed simp

end
