(* ===== verification/Hash.thy ===== *)
theory Hash
  imports Prelude
begin

text \<open>
  \<^verbatim>\<open>qrtr/src/hash.c\<close>: the hash functions that turn node identifiers, ports and byte strings
  into the keys of the tables of \<open>QMap\<close>. The keys of the name server's tables are hashes, not
  the identifiers themselves, so a table tells two identifiers apart only when their hashes
  differ: \<open>hash_u32_inj\<close> is what the name server relies on.
\<close>

primrec hash_mem_loop :: "u8 list \<Rightarrow> u32 \<Rightarrow> u32" where
  "hash_mem_loop [] h = h"
| "hash_mem_loop (b # bs) h = hash_mem_loop bs ((drop_bit 27 h XOR push_bit 5 h) XOR ucast b)"

definition hash_mem :: "u8 list \<Rightarrow> u32" where
  "hash_mem data = hash_mem_loop data (of_nat (length data))"

text \<open>\<open>strlen\<close> stops at the first zero byte.\<close>

definition hash_string :: "u8 list \<Rightarrow> u32" where
  "hash_string value = hash_mem (takeWhile (\<lambda>b. b \<noteq> 0) value)"

definition hash_u32 :: "u32 \<Rightarrow> u32" where
  "hash_u32 value = ucast ((ucast value :: u64) * 2654435761)"

definition hash_u64 :: "u64 \<Rightarrow> u32" where
  "hash_u64 value = hash_u32 (ucast (value AND 0xffffffff)) XOR hash_u32 (ucast (drop_bit 32 value))"

definition hash_pointer :: "u64 \<Rightarrow> u32" where
  "hash_pointer value = hash_u64 value"

lemma hash_u32_mult: "hash_u32 w = w * 2654435761"
proof -
  have "unat w < 2 ^ 32" using unsigned_less [of w] by simp
  then have "unat w mod 2 ^ 64 = unat w" by simp
  then have "unat (ucast ((ucast w :: u64) * 2654435761) :: u32) = unat (w * 2654435761)"
    by (simp add: unat_word_ariths unsigned_ucast_eq take_bit_eq_mod mod_mod_cancel)
  then show ?thesis unfolding hash_u32_def by (rule unsigned_word_eqI)
qed

lemma hash_u32_inverse: "hash_u32 w * 244002641 = w"
proof -
  have "(2654435761 :: u32) * 244002641 = 1" by simp
  then show ?thesis by (simp only: hash_u32_mult mult.assoc mult_1_right)
qed

lemma hash_u32_inj [simp]: "hash_u32 v = hash_u32 w \<longleftrightarrow> v = w"
  by (metis hash_u32_inverse)

text \<open>
  C7. The 32-bit hash, a multiplication by an odd constant truncated to 32 bits,
  is injective (multiplying by 244002641 inverts it): two different node identifiers or ports
  never share a key.
\<close>

theorem hash_u32_injective: "inj hash_u32 \<and> hash_u32 w * 244002641 = w"
  by (simp add: inj_def hash_u32_inverse)

end
