(* ===== verification/Interfaces.thy ===== *)
theory Interfaces
  imports Prelude
begin

text \<open>
  The interfaces between the components, as locales. Each is interpreted in the theory of the
  component that provides it.
  \<^item> \<open>byte_codec\<close>: a fixed-width encoding into bytes (the integers and packet headers of the
    wire formats).
  \<^item> \<open>keyed_store\<close>: a key-value store that accepts every store or refuses it; provided by
    a hash table nothing is removed from.
  \<^item> \<open>fresh_store\<close>: a key-value store with removal whose stores are only relied on for keys
    that are not present; provided by the same table once it holds deleted slots.
  \<^item> \<open>linked_seq\<close>: an intrusive linked list, seen as the sequence of its items.
  \<^item> \<open>invariant_system\<close>: a state machine with an invariant that its start and every step keep.
\<close>

locale byte_codec =
  fixes enc :: "'a \<Rightarrow> u8 list" and dec :: "mem \<Rightarrow> nat \<Rightarrow> 'a" and width :: nat
  assumes enc_width: "length (enc x) = width"
    and dec_enc: "holds m p (enc x) \<Longrightarrow> dec m p = x"
begin

lemma enc_inject: "enc x = enc y \<Longrightarrow> x = y"
  using dec_enc [of "wr (\<lambda>_. 0) 0 (enc x)" 0 x] dec_enc [of "wr (\<lambda>_. 0) 0 (enc x)" 0 y] by simp

lemma dec_wr: "dec (wr m p (enc x)) p = x"
  by (rule dec_enc) simp

lemma dec_wr_after:
  "p + width \<le> q \<Longrightarrow> holds m p (enc x) \<Longrightarrow> dec (wr m q ys) p = x"
  by (rule dec_enc) (simp add: holds_wr_other enc_width)

lemma dec_sequence:
  "holds m p (concat (map enc xs)) \<Longrightarrow> i < length xs \<Longrightarrow> dec m (p + i * width) = xs ! i"
proof (induction xs arbitrary: p i)
  case (Cons x xs)
  show ?case
  proof (cases i)
    case 0
    with Cons.prems show ?thesis by (simp add: dec_enc)
  next
    case (Suc n)
    with Cons.prems Cons.IH [of "p + width" n] show ?thesis
      by (simp add: enc_width algebra_simps)
  qed
qed simp

end

interpretation le16: byte_codec le16 get16 2
  by unfold_locales (simp_all add: codec_simps)

interpretation le32: byte_codec le32 get32 4
  by unfold_locales (simp_all add: codec_simps)

locale keyed_store =
  fixes env_ok :: "'e \<Rightarrow> bool" and invar :: "'m \<Rightarrow> bool" and new :: 'm
    and get :: "'m \<Rightarrow> 'k \<Rightarrow> 'v option" and store :: "'e \<Rightarrow> 'm \<Rightarrow> 'k \<Rightarrow> 'v \<Rightarrow> 'm option"
  assumes invar_new: "invar new"
    and get_new: "get new = Map.empty"
    and store_invar: "env_ok e \<Longrightarrow> invar m \<Longrightarrow> store e m k v = Some m' \<Longrightarrow> invar m'"
    and store_get: "env_ok e \<Longrightarrow> invar m \<Longrightarrow> store e m k v = Some m' \<Longrightarrow> get m' = (get m)(k \<mapsto> v)"
begin

primrec store_all :: "'e \<Rightarrow> ('k \<times> 'v) list \<Rightarrow> 'm \<Rightarrow> 'm option" where
  "store_all e [] m = Some m"
| "store_all e (kv # kvs) m = Option.bind (store e m (fst kv) (snd kv)) (store_all e kvs)"

lemma store_all_spec:
  "env_ok e \<Longrightarrow> invar m \<Longrightarrow> store_all e kvs m = Some m' \<Longrightarrow>
     invar m' \<and> get m' = get m ++ map_of (rev kvs)"
proof (induction kvs arbitrary: m)
  case (Cons kv kvs)
  then obtain t where t: "store e m (fst kv) (snd kv) = Some t" "store_all e kvs t = Some m'"
    by (auto simp: Option.bind_eq_Some_conv)
  have "invar t" "get t = (get m)(fst kv \<mapsto> snd kv)"
    using Cons.prems t(1) by (auto intro: store_invar store_get)
  moreover have "(get m)(fst kv \<mapsto> snd kv) ++ map_of (rev kvs) = get m ++ map_of (rev (kv # kvs))"
    by (cases kv) simp
  ultimately show ?case
    using Cons.IH [of t] Cons.prems(1) t(2) by argo
qed simp

lemma store_all_new:
  "env_ok e \<Longrightarrow> store_all e kvs new = Some m \<Longrightarrow> get m k = map_of (rev kvs) k"
  using store_all_spec [OF _ invar_new] get_new by simp

end

locale fresh_store =
  fixes env_ok :: "'e \<Rightarrow> bool" and invar :: "'m \<Rightarrow> bool" and get :: "'m \<Rightarrow> 'k \<Rightarrow> 'v option"
    and store :: "'e \<Rightarrow> 'm \<Rightarrow> 'k \<Rightarrow> 'v \<Rightarrow> 'm option" and remove :: "'m \<Rightarrow> 'k \<Rightarrow> 'm"
  assumes fresh_invar:
      "env_ok e \<Longrightarrow> invar m \<Longrightarrow> get m k = None \<Longrightarrow> store e m k v = Some m' \<Longrightarrow> invar m'"
    and fresh_get: "env_ok e \<Longrightarrow> invar m \<Longrightarrow> get m k = None \<Longrightarrow> store e m k v = Some m' \<Longrightarrow>
      get m' = (get m)(k \<mapsto> v)"
    and remove_invar: "invar m \<Longrightarrow> invar (remove m k)"
    and remove_get: "invar m \<Longrightarrow> get (remove m k) = (get m)(k := None)"
begin

lemma store_remove:
  assumes "env_ok e" "invar m" "get m k = None" "store e m k v = Some m'"
  shows "get (remove m' k) = get m"
  using assms(3) fresh_invar [OF assms] fresh_get [OF assms]
  by (simp add: remove_get fun_upd_idem)

lemma restore:
  assumes "env_ok e" "invar m" "store e (remove m k) k v = Some m'"
  shows "invar m'" and "get m' = (get m)(k \<mapsto> v)"
proof -
  have pre: "invar (remove m k)" "get (remove m k) k = None"
    using assms(2) by (simp_all add: remove_invar remove_get)
  show "invar m'" using assms(1) pre assms(3) by (rule fresh_invar)
  have "get m' = (get (remove m k))(k \<mapsto> v)" using assms(1) pre assms(3) by (rule fresh_get)
  then show "get m' = (get m)(k \<mapsto> v)" using assms(2) by (simp add: remove_get)
qed

end

locale linked_seq =
  fixes rep :: "'s \<Rightarrow> 'a list \<Rightarrow> bool" and append :: "'s \<Rightarrow> 'a \<Rightarrow> 's"
    and remove :: "'s \<Rightarrow> 'a \<Rightarrow> 's option" and walk :: "'s \<Rightarrow> 'a list option"
  assumes rep_distinct: "rep s xs \<Longrightarrow> distinct xs"
    and append_rep: "rep s xs \<Longrightarrow> a \<notin> set xs \<Longrightarrow> rep (append s a) (xs @ [a])"
    and remove_rep: "rep s (ys @ a # zs) \<Longrightarrow> \<exists>s'. remove s a = Some s' \<and> rep s' (ys @ zs)"
    and walk_rep: "rep s xs \<Longrightarrow> walk s = Some xs"
begin

lemma remove_rep1:
  assumes "rep s xs" "a \<in> set xs"
  shows "\<exists>s'. remove s a = Some s' \<and> rep s' (remove1 a xs)"
proof -
  obtain ys zs where xs: "xs = ys @ a # zs" "a \<notin> set ys"
    using assms(2) by (meson split_list_first)
  then have "remove1 a xs = ys @ zs" by (simp add: remove1_append)
  with remove_rep assms(1) xs(1) show ?thesis by metis
qed

lemma append_all_rep:
  "rep s xs \<Longrightarrow> distinct (xs @ as) \<Longrightarrow> rep (fold (\<lambda>a s. append s a) as s) (xs @ as)"
proof (induction as arbitrary: s xs)
  case (Cons a as)
  from Cons.IH [of "append s a" "xs @ [a]"] Cons.prems append_rep [of s xs a]
  show ?case by simp
qed simp

lemma append_remove:
  assumes "rep s xs" "a \<notin> set xs"
  shows "\<exists>s'. remove (append s a) a = Some s' \<and> walk s' = Some xs"
  using remove_rep [of "append s a" xs a "[]"] append_rep [OF assms] walk_rep by auto

end

locale invariant_system =
  fixes init :: "'s \<Rightarrow> bool" and step :: "'s \<Rightarrow> 's \<Rightarrow> bool" and inv :: "'s \<Rightarrow> bool"
  assumes inv_init: "init s \<Longrightarrow> inv s"
    and inv_step: "inv s \<Longrightarrow> step s t \<Longrightarrow> inv t"
begin

inductive reach :: "'s \<Rightarrow> bool" where
  reach_init: "init s \<Longrightarrow> reach s"
| reach_step: "reach s \<Longrightarrow> step s t \<Longrightarrow> reach t"

lemma reach_inv: "reach s \<Longrightarrow> inv s"
  by (induction rule: reach.induct) (auto intro: inv_init inv_step)

lemma steps_inv: "step\<^sup>*\<^sup>* s t \<Longrightarrow> inv s \<Longrightarrow> inv t"
  by (induction rule: rtranclp_induct) (auto intro: inv_step)

end

end
