(* ===== verification/QMap.thy ===== *)
theory QMap
  imports Interfaces
begin

text \<open>
  The open-addressing hash table of \<open>qrtr/src/map.c\<close> and \<open>map.h\<close>, the dictionary of the name
  server. A slot holds a null pointer (\<open>Empty\<close>), the address of the \<open>deleted\<close> marker, or an item
  with its key. First the operations, in the order of the file; then the representation invariant
  \<open>map_wf\<close> (the count is the number of items, and no empty slot separates an item from the slot its
  key hashes to), the contracts of \<open>map_put\<close>, \<open>map_remove\<close>, \<open>map_clear\<close> and the iteration against
  the abstract map \<open>map_get m\<close>, and the two key-value interfaces the table provides.
\<close>

section \<open>Data\<close>

datatype 'v slot = Empty | Deleted | Item (skey: u32) (sval: 'v)

record 'v qmap =
  msize :: nat
  mcount :: nat
  mdata :: "'v slot list"

primrec is_item :: "'v slot \<Rightarrow> bool" where
  "is_item Empty = False"
| "is_item Deleted = False"
| "is_item (Item k v) = True"

section \<open>Operations\<close>

definition map_create :: "'v qmap" where
  "map_create = \<lparr>msize = 0, mcount = 0, mdata = []\<rparr>"

definition map_destroy :: "'v qmap \<Rightarrow> 'v qmap" where
  "map_destroy m = m\<lparr>mdata := []\<rparr>"

definition map_clear :: "'v qmap \<Rightarrow> 'v list \<times> 'v qmap" where
  "map_clear m =
     (map sval (filter is_item (take (msize m) (mdata m))),
      m\<lparr>mdata := map (\<lambda>_. Empty) (take (msize m) (mdata m)) @ drop (msize m) (mdata m),
        mcount := 0\<rparr>)"

primrec map_hash_loop :: "nat \<Rightarrow> 'v qmap \<Rightarrow> u32 \<Rightarrow> nat \<Rightarrow> int \<times> 'v qmap" where
  "map_hash_loop 0 m key idx = (-2, m)"
| "map_hash_loop (Suc n) m key idx =
     (case mdata m ! idx of
        Empty \<Rightarrow> (int idx, m\<lparr>mcount := (mcount m + 1) mod 2 ^ 32\<rparr>)
      | Deleted \<Rightarrow> (int idx, m\<lparr>mcount := (mcount m + 1) mod 2 ^ 32\<rparr>)
      | Item k v \<Rightarrow>
          if k = key then (int idx, m)
          else map_hash_loop n m key ((idx + 1) mod msize m))"

definition map_hash :: "'v qmap \<Rightarrow> u32 \<Rightarrow> int \<times> 'v qmap" where
  "map_hash m key =
     (if mcount m = msize m then (-1, m)
      else map_hash_loop (msize m) m key (unat key mod msize m))"

text \<open>
  \<open>map_reput\<close> and \<open>map_rehash\<close> call each other. A call of \<open>map_reput\<close> on a full table makes one
  rehash, whose insertions go into a table with room and never rehash again, so three levels of
  fuel (\<open>map_reput\<close>, \<open>map_rehash\<close>, \<open>map_reput\<close> of one item) are enough on every well-formed table:
  lemma \<open>map_reput_returns\<close>. \<open>calloc n\<close> says whether the allocator provides \<open>n\<close> slots.
\<close>

fun map_reput_fuel ::
    "nat \<Rightarrow> (nat \<Rightarrow> bool) \<Rightarrow> 'v qmap \<Rightarrow> u32 \<Rightarrow> 'v option \<Rightarrow> (int \<times> 'v option \<times> 'v qmap) option"
  and map_rehash_fuel :: "nat \<Rightarrow> (nat \<Rightarrow> bool) \<Rightarrow> 'v qmap \<Rightarrow> (int \<times> 'v qmap) option"
  and map_rehash_loop ::
    "nat \<Rightarrow> (nat \<Rightarrow> bool) \<Rightarrow> 'v slot list \<Rightarrow> 'v qmap \<Rightarrow> (int \<times> 'v qmap) option" where
  "map_reput_fuel 0 calloc m key value = None"
| "map_reput_fuel (Suc f) calloc m key value =
     (let (rc, m1) = map_hash m key in
      if rc < 0 then
        (case map_rehash_fuel f calloc m1 of
           None \<Rightarrow> None
         | Some (rc', m2) \<Rightarrow>
             if rc' < 0 then Some (rc', None, m2)
             else map_reput_fuel f calloc m2 key value)
      else
        Some (0,
          (case mdata m1 ! nat rc of Empty \<Rightarrow> None | Deleted \<Rightarrow> None | Item k v \<Rightarrow> Some v),
          m1\<lparr>mdata := (mdata m1)[nat rc :=
               (case value of None \<Rightarrow> Empty | Some v \<Rightarrow> Item key v)]\<rparr>))"
| "map_rehash_fuel 0 calloc m = None"
| "map_rehash_fuel (Suc f) calloc m =
     (let n = (msize m + 256) mod 2 ^ 32 in
      if \<not> calloc n then Some (-1, m)
      else map_rehash_loop f calloc (take (msize m) (mdata m))
             \<lparr>msize = n, mcount = 0, mdata = replicate n Empty\<rparr>)"
| "map_rehash_loop f calloc [] m = Some (0, m)"
| "map_rehash_loop f calloc (Empty # xs) m = map_rehash_loop f calloc xs m"
| "map_rehash_loop f calloc (Deleted # xs) m = map_rehash_loop f calloc xs m"
| "map_rehash_loop f calloc (Item k v # xs) m =
     (case map_reput_fuel f calloc m k (Some v) of
        None \<Rightarrow> None
      | Some (rc, _, m') \<Rightarrow>
          if rc < 0 then Some (rc, m') else map_rehash_loop f calloc xs m')"

definition map_reput ::
    "(nat \<Rightarrow> bool) \<Rightarrow> 'v qmap \<Rightarrow> u32 \<Rightarrow> 'v option \<Rightarrow> (int \<times> 'v option \<times> 'v qmap) option" where
  "map_reput calloc m key value = map_reput_fuel 3 calloc m key value"

definition map_put ::
    "(nat \<Rightarrow> bool) \<Rightarrow> 'v qmap \<Rightarrow> u32 \<Rightarrow> 'v option \<Rightarrow> (int \<times> 'v qmap) option" where
  "map_put calloc m key value =
     map_option (\<lambda>(rc, _, m'). (rc, m')) (map_reput calloc m key value)"

primrec map_find_loop :: "nat \<Rightarrow> 'v qmap \<Rightarrow> u32 \<Rightarrow> nat \<Rightarrow> nat option" where
  "map_find_loop 0 m key idx = None"
| "map_find_loop (Suc n) m key idx =
     (case mdata m ! idx of
        Empty \<Rightarrow> None
      | Deleted \<Rightarrow> map_find_loop n m key ((idx + 1) mod msize m)
      | Item k v \<Rightarrow>
          if k = key then Some idx else map_find_loop n m key ((idx + 1) mod msize m))"

definition map_find :: "'v qmap \<Rightarrow> u32 \<Rightarrow> nat option" where
  "map_find m key =
     (if msize m = 0 then None else map_find_loop (msize m) m key (unat key mod msize m))"

definition map_contains :: "'v qmap \<Rightarrow> u32 \<Rightarrow> bool" where
  "map_contains m key \<longleftrightarrow> map_find m key \<noteq> None"

definition map_get :: "'v qmap \<Rightarrow> u32 \<Rightarrow> 'v option" where
  "map_get m key =
     (case map_find m key of
        None \<Rightarrow> None
      | Some i \<Rightarrow> (case mdata m ! i of Item k v \<Rightarrow> Some v | _ \<Rightarrow> None))"

definition map_remove :: "'v qmap \<Rightarrow> u32 \<Rightarrow> int \<times> 'v qmap" where
  "map_remove m key =
     (case map_find m key of
        None \<Rightarrow> (1, m)
      | Some i \<Rightarrow> (0, m\<lparr>mdata := (mdata m)[i := Deleted],
                       mcount := (mcount m + 2 ^ 32 - 1) mod 2 ^ 32\<rparr>))"

definition map_length :: "'v qmap \<Rightarrow> nat" where
  "map_length m = mcount m"

function map_iter_from :: "'v qmap \<Rightarrow> nat \<Rightarrow> nat option" where
  "map_iter_from m i =
     (if i < msize m
      then (if is_item (mdata m ! i) then Some i else map_iter_from m (i + 1))
      else None)"
  by pat_completeness auto
termination
  by (relation "measure (\<lambda>(m, i). msize m - i)") auto

declare map_iter_from.simps [simp del]

definition map_iter_first :: "'v qmap \<Rightarrow> nat option" where
  "map_iter_first m = map_iter_from m 0"

definition map_iter_next :: "'v qmap \<Rightarrow> nat option \<Rightarrow> nat option" where
  "map_iter_next m iter =
     (case iter of None \<Rightarrow> None | Some i \<Rightarrow> map_iter_from m (i + 1))"


definition map_iter_item :: "'v qmap \<Rightarrow> nat \<Rightarrow> 'v option" where
  "map_iter_item m i = (case mdata m ! i of Item k v \<Rightarrow> Some v | _ \<Rightarrow> None)"

lemma map_iter_from_Some:
  "map_iter_from m i = Some j \<Longrightarrow> i \<le> j \<and> j < msize m \<and> is_item (mdata m ! j)"
proof (induction m i rule: map_iter_from.induct)
  case (1 m i)
  then show ?case
    by (subst (asm) map_iter_from.simps) (auto split: if_splits)
qed

function map_walk :: "'v qmap \<Rightarrow> nat option \<Rightarrow> nat list" where
  "map_walk m None = []"
| "map_walk m (Some i) = i # map_walk m (map_iter_next m (Some i))"
  by pat_completeness auto
termination
proof (relation "measure (\<lambda>(m, it). case it of None \<Rightarrow> 0 | Some i \<Rightarrow> Suc (msize m - i))")
  fix m :: "'v qmap" and i
  show "((m, map_iter_next m (Some i)), m, Some i)
    \<in> measure (\<lambda>(m, it). case it of None \<Rightarrow> 0 | Some i \<Rightarrow> Suc (msize m - i))"
    by (auto simp: map_iter_next_def dest!: map_iter_from_Some split: option.splits)
qed simp

definition map_for_each :: "'v qmap \<Rightarrow> 'v list" where
  "map_for_each m = map (\<lambda>i. sval (mdata m ! i)) (map_walk m (map_iter_first m))"

section \<open>Invariant\<close>

abbreviation items :: "'v slot list \<Rightarrow> nat" where
  "items xs \<equiv> length (filter is_item xs)"

definition chained :: "'v qmap \<Rightarrow> bool" where
  "chained m \<longleftrightarrow>
     (\<forall>j<msize m. \<forall>k v. mdata m ! j = Item k v \<longrightarrow>
        (\<forall>e<probe_dist (msize m) (unat k) j. mdata m ! ((unat k + e) mod msize m) \<noteq> Empty))"

lemma case_item:
  "(case s of Empty \<Rightarrow> True | Deleted \<Rightarrow> True | Item k v \<Rightarrow> P k v) \<longleftrightarrow> (\<forall>k v. s = Item k v \<longrightarrow> P k v)"
  by (cases s) auto

lemma case_empty:
  "(case s of Empty \<Rightarrow> False | Deleted \<Rightarrow> True | Item k v \<Rightarrow> True) \<longleftrightarrow> s \<noteq> Empty"
  by (cases s) auto

lemma chained_code [code]:
  "chained m \<longleftrightarrow>
     (\<forall>j\<in>{..<msize m}. case mdata m ! j of
        Item k v \<Rightarrow> (\<forall>e\<in>{..<probe_dist (msize m) (unat k) j}.
          case mdata m ! ((unat k + e) mod msize m) of Empty \<Rightarrow> False | _ \<Rightarrow> True)
      | _ \<Rightarrow> True)"
  unfolding chained_def case_item case_empty lessThan_iff Ball_def by blast

definition map_wf :: "'v qmap \<Rightarrow> bool" where
  "map_wf m \<longleftrightarrow> length (mdata m) = msize m \<and> msize m < 2 ^ 31 \<and>
     mcount m = items (mdata m) \<and> chained m"

definition keys_distinct :: "'v qmap \<Rightarrow> bool" where
  "keys_distinct m \<longleftrightarrow>
     (\<forall>i<msize m. \<forall>j<msize m. \<forall>k v w.
        mdata m ! i = Item k v \<longrightarrow> mdata m ! j = Item k w \<longrightarrow> i = j)"

lemma keys_distinct_code [code]:
  "keys_distinct m \<longleftrightarrow>
     (\<forall>i\<in>{..<msize m}. \<forall>j\<in>{..<msize m}.
        case mdata m ! i of
          Item k v \<Rightarrow> (case mdata m ! j of Item k' w \<Rightarrow> k' = k \<longrightarrow> i = j | _ \<Rightarrow> True)
        | _ \<Rightarrow> True)"
  unfolding keys_distinct_def case_item lessThan_iff Ball_def by blast

definition no_deleted :: "'v qmap \<Rightarrow> bool" where
  "no_deleted m \<longleftrightarrow> Deleted \<notin> set (mdata m)"

definition has_key :: "'v qmap \<Rightarrow> u32 \<Rightarrow> nat \<Rightarrow> bool" where
  "has_key m k i \<longleftrightarrow> is_item (mdata m ! i) \<and> skey (mdata m ! i) = k"

lemma items_upd:
  "j < length xs \<Longrightarrow> items (xs[j := x]) + (if is_item (xs ! j) then 1 else 0)
     = items xs + (if is_item x then 1 else 0)"
proof (induction xs arbitrary: j)
  case (Cons y ys)
  then show ?case
    using Cons.IH [of "j - 1"] by (cases j) (auto split: if_splits)
qed simp

lemma items_le: "items xs \<le> length xs"
  by simp

lemma items_pos: "j < length xs \<Longrightarrow> is_item (xs ! j) \<Longrightarrow> 0 < items xs"
  using nth_mem by (fastforce simp: filter_empty_conv)

lemma items_less_ex: "items xs < length xs \<Longrightarrow> \<exists>j<length xs. \<not> is_item (xs ! j)"
  by (metis filter_True in_set_conv_nth less_irrefl)

section \<open>Lookup\<close>

lemma map_find_loop_probe:
  "map_find_loop n m k i =
     (case probe_first n (\<lambda>i. mdata m ! i = Empty \<or> has_key m k i) (msize m) i of
        None \<Rightarrow> None | Some j \<Rightarrow> if mdata m ! j = Empty then None else Some j)"
  by (induction n arbitrary: i) (auto simp: has_key_def split: slot.splits)

text \<open>On a well-formed table the scan is the scan for the key.\<close>

lemma map_find_probe:
  assumes wf: "map_wf m"
  shows "map_find m k = probe_first (msize m) (has_key m k) (msize m) (unat k mod msize m)"
proof (cases "probe_first (msize m) (has_key m k) (msize m) (unat k mod msize m)")
  case None
  show ?thesis
  proof (cases "map_find m k")
    case (Some j)
    then obtain d where "d < msize m" "j = (unat k + d) mod msize m" "has_key m k j"
      by (auto simp: map_find_def map_find_loop_probe split: option.splits if_splits
          dest!: probe_first_Some)
    with probe_first_None [OF None, of d] show ?thesis by simp
  qed (simp add: None)
next
  case (Some j)
  then obtain d where d: "d < msize m" "j = (unat k + d) mod msize m" "has_key m k j"
      "\<forall>e<d. \<not> has_key m k ((unat k + e) mod msize m)"
    using probe_first_Some by blast
  then have pos: "0 < msize m" and j: "j < msize m" by auto
  obtain v where v: "mdata m ! j = Item k v"
    using d(3) by (cases "mdata m ! j") (auto simp: has_key_def)
  have "probe_dist (msize m) (unat k) j = d"
    using d(1,2) by (simp add: probe_dist_of)
  then have "\<forall>e<d. mdata m ! ((unat k + e) mod msize m) \<noteq> Empty"
    using wf j v by (auto simp: map_wf_def chained_def)
  then have "probe_first (msize m) (\<lambda>i. mdata m ! i = Empty \<or> has_key m k i)
      (msize m) (unat k mod msize m) = Some ((unat k + d) mod msize m)"
    using d by (intro probe_first_least) auto
  then show ?thesis
    using Some pos d(2) v by (simp add: map_find_def map_find_loop_probe)
qed

lemma has_key_Item: "has_key m k i \<longleftrightarrow> (\<exists>v. mdata m ! i = Item k v)"
  by (cases "mdata m ! i") (auto simp: has_key_def)

lemma map_find_Some:
  assumes "map_wf m" and "map_find m k = Some j"
  shows "j < msize m" and "\<exists>v. mdata m ! j = Item k v"
proof -
  have "probe_first (msize m) (has_key m k) (msize m) (unat k mod msize m) = Some j"
    using assms by (simp add: map_find_probe)
  then obtain d where "d < msize m" "j = (unat k + d) mod msize m" "has_key m k j"
    using probe_first_Some by blast
  then show "j < msize m" and "\<exists>v. mdata m ! j = Item k v"
    by (auto simp: has_key_Item)
qed

lemma map_find_None:
  "map_wf m \<Longrightarrow> map_find m k = None \<Longrightarrow> j < msize m \<Longrightarrow> mdata m ! j \<noteq> Item k v"
  using probe_first_all_None by (fastforce simp: map_find_probe has_key_Item)

lemma map_get_find:
  assumes "map_wf m"
  shows "map_get m k = Some v \<longleftrightarrow> (\<exists>j. map_find m k = Some j \<and> mdata m ! j = Item k v)"
proof (cases "map_find m k")
  case (Some j)
  with map_find_Some [OF assms Some] show ?thesis by (auto simp: map_get_def)
qed (simp add: map_get_def)

lemma map_get_None_find: "map_wf m \<Longrightarrow> map_get m k = None \<longleftrightarrow> map_find m k = None"
  using map_find_Some [of m k] by (auto simp: map_get_def split: option.splits slot.splits)

lemma map_get_Some_iff:
  assumes wf: "map_wf m" and dist: "keys_distinct m"
  shows "map_get m k = Some v \<longleftrightarrow> (\<exists>j<msize m. mdata m ! j = Item k v)"
proof
  assume "map_get m k = Some v"
  then show "\<exists>j<msize m. mdata m ! j = Item k v"
    using map_find_Some [OF wf] by (auto simp: map_get_find [OF wf])
next
  assume "\<exists>j<msize m. mdata m ! j = Item k v"
  then obtain j where j: "j < msize m" "mdata m ! j = Item k v" by blast
  then obtain i where i: "map_find m k = Some i"
    using map_find_None [OF wf] by (cases "map_find m k") auto
  then obtain w where w: "i < msize m" "mdata m ! i = Item k w"
    using map_find_Some [OF wf] by blast
  with j dist have "i = j" by (auto simp: keys_distinct_def)
  with i j show "map_get m k = Some v" by (auto simp: map_get_find [OF wf])
qed

lemma map_get_None_iff:
  assumes "map_wf m"
  shows "map_get m k = None \<longleftrightarrow> (\<forall>j<msize m. \<forall>v. mdata m ! j \<noteq> Item k v)"
  unfolding map_get_None_find [OF assms]
proof
  assume "map_find m k = None"
  then show "\<forall>j<msize m. \<forall>v. mdata m ! j \<noteq> Item k v"
    using map_find_None [OF assms] by blast
next
  assume "\<forall>j<msize m. \<forall>v. mdata m ! j \<noteq> Item k v"
  then show "map_find m k = None"
    using map_find_Some [OF assms, of k] by (cases "map_find m k") auto
qed

text \<open>A lookup depends on the slots that hold its key only.\<close>

lemma map_get_cong:
  assumes "map_wf m" "map_wf m'" "msize m' = msize m"
    and "\<And>j v. j < msize m \<Longrightarrow> mdata m' ! j = Item k v \<longleftrightarrow> mdata m ! j = Item k v"
  shows "map_get m' k = map_get m k"
proof -
  have "probe_first n (has_key m' k) N i = probe_first n (has_key m k) N i"
    if "i < N" "N = msize m" for n N i
    using that
  proof (induction n arbitrary: i)
    case (Suc n)
    then show ?case using assms(4) [of i] by (auto simp: has_key_Item)
  qed simp
  then have find: "map_find m' k = map_find m k"
    using assms(1-3) by (cases "msize m = 0") (auto simp: map_find_probe)
  show ?thesis
  proof (cases "map_get m k")
    case None
    then have "map_get m' k = None"
      using find assms(1,2) by (simp add: map_get_None_find)
    with None show ?thesis by simp
  next
    case (Some v)
    then obtain j where "map_find m k = Some j" "mdata m ! j = Item k v"
      using assms(1) by (auto simp: map_get_find)
    then have "map_get m' k = Some v"
      using find assms(2,4) map_find_Some(1) [OF assms(1)] by (auto simp: map_get_find)
    with Some show ?thesis by simp
  qed
qed

section \<open>Storing a value\<close>

definition claims :: "'v qmap \<Rightarrow> u32 \<Rightarrow> nat \<Rightarrow> bool" where
  "claims m k j \<longleftrightarrow> (\<exists>d<msize m. j = (unat k + d) mod msize m \<and>
     (\<not> is_item (mdata m ! j) \<or> has_key m k j) \<and>
     (\<forall>e<d. is_item (mdata m ! ((unat k + e) mod msize m)) \<and>
            \<not> has_key m k ((unat k + e) mod msize m)))"

definition put_at :: "'v qmap \<Rightarrow> u32 \<Rightarrow> 'v \<Rightarrow> nat \<Rightarrow> 'v qmap" where
  "put_at m k v j = m\<lparr>mdata := (mdata m)[j := Item k v],
     mcount := (if is_item (mdata m ! j) then mcount m else mcount m + 1)\<rparr>"

lemma map_hash_loop_probe:
  "map_hash_loop n m k i =
     (case probe_first n (\<lambda>i. \<not> is_item (mdata m ! i) \<or> has_key m k i) (msize m) i of
        None \<Rightarrow> (-2, m)
      | Some j \<Rightarrow> (int j, if is_item (mdata m ! j) then m
                        else m\<lparr>mcount := (mcount m + 1) mod 2 ^ 32\<rparr>))"
  by (induction n arbitrary: i) (auto simp: has_key_def split: slot.splits)

lemma map_hash_room:
  assumes wf: "map_wf m" and room: "mcount m < msize m"
  shows "\<exists>j. claims m k j \<and> map_hash m k =
    (int j, if is_item (mdata m ! j) then m else m\<lparr>mcount := mcount m + 1\<rparr>)"
proof -
  let ?P = "\<lambda>i. \<not> is_item (mdata m ! i) \<or> has_key m k i"
  obtain i where "i < msize m" "\<not> is_item (mdata m ! i)"
    using wf room items_less_ex [of "mdata m"] by (auto simp: map_wf_def)
  then obtain j where j: "probe_first (msize m) ?P (msize m) (unat k mod msize m) = Some j"
    using probe_first_all_None by (metis (mono_tags, lifting) option.exhaust)
  then have "claims m k j"
    by (auto simp: claims_def dest!: probe_first_Some)
  moreover have "(mcount m + 1) mod 2 ^ 32 = mcount m + 1"
    using wf room by (simp add: map_wf_def)
  ultimately show ?thesis
    using j room by (auto simp: map_hash_def map_hash_loop_probe)
qed

lemma map_reput_room:
  assumes wf: "map_wf m" and room: "mcount m < msize m"
  shows "\<exists>j. claims m k j \<and> map_reput_fuel (Suc f) calloc m k (Some v) =
    Some (0, (if has_key m k j then Some (sval (mdata m ! j)) else None), put_at m k v j)"
proof -
  obtain j where j: "claims m k j" "map_hash m k =
      (int j, if is_item (mdata m ! j) then m else m\<lparr>mcount := mcount m + 1\<rparr>)"
    using map_hash_room [OF wf room] by blast
  moreover have "is_item (mdata m ! j) \<longleftrightarrow> has_key m k j"
    using j(1) by (auto simp: claims_def has_key_def)
  ultimately show ?thesis
    by (intro exI [of _ j]) (cases "mdata m ! j", auto simp: put_at_def)
qed


lemma put_at_sel [simp]:
  "msize (put_at m k v j) = msize m"
  "mdata (put_at m k v j) = (mdata m)[j := Item k v]"
  by (simp_all add: put_at_def)

lemma claims_less: "claims m k j \<Longrightarrow> j < msize m"
  by (auto simp: claims_def)

lemma claims_unique: "claims m k i \<Longrightarrow> claims m k j \<Longrightarrow> i = j"
  unfolding claims_def has_key_def by (metis linorder_neqE_nat)

lemma claims_old: "claims m k j \<Longrightarrow> k' \<noteq> k \<Longrightarrow> mdata m ! j \<noteq> Item k' v"
  by (auto simp: claims_def has_key_def)

lemma put_at_wf:
  assumes wf: "map_wf m" and j: "claims m k j"
  shows "map_wf (put_at m k v j)"
proof -
  have len: "length (mdata m) = msize m" and jl: "j < msize m"
    using wf claims_less [OF j] by (auto simp: map_wf_def)
  have cnt: "mcount (put_at m k v j) = items ((mdata m)[j := Item k v])"
    using wf jl len items_upd [of j "mdata m" "Item k v"]
    by (auto simp: put_at_def map_wf_def split: if_splits)
  have "chained (put_at m k v j)"
    unfolding chained_def put_at_sel
  proof (intro allI impI)
    fix i k' v' e
    assume i: "i < msize m" "(mdata m)[j := Item k v] ! i = Item k' v'"
      and e: "e < probe_dist (msize m) (unat k') i"
    let ?p = "(unat k' + e) mod msize m"
    have p: "?p < msize m" using i(1) by auto
    show "(mdata m)[j := Item k v] ! ?p \<noteq> Empty"
    proof (cases "i = j")
      case False
      with i len jl have "mdata m ! i = Item k' v'" by auto
      then have "mdata m ! ?p \<noteq> Empty"
        using wf i(1) e by (auto simp: map_wf_def chained_def)
      then show ?thesis using len jl by (auto simp: nth_list_update)
    next
      case True
      with i len jl have [simp]: "k' = k" by auto
      obtain d where d: "d < msize m" "j = (unat k + d) mod msize m"
          "\<forall>e<d. is_item (mdata m ! ((unat k + e) mod msize m))"
        using j by (auto simp: claims_def)
      then have "probe_dist (msize m) (unat k') i = d"
        using True by (simp add: probe_dist_of)
      with e d(3) have "is_item (mdata m ! ?p)" by simp
      then show ?thesis using len jl by (auto simp: nth_list_update)
    qed
  qed
  with cnt wf len show ?thesis by (simp add: map_wf_def)
qed

lemma put_at_find:
  assumes wf: "map_wf m" and j: "claims m k j"
  shows "map_find (put_at m k v j) k = Some j"
proof -
  have wf': "map_wf (put_at m k v j)" using wf j by (rule put_at_wf)
  have len: "length (mdata m) = msize m" and jl: "j < msize m"
    using wf claims_less [OF j] by (auto simp: map_wf_def)
  obtain d where d: "d < msize m" "j = (unat k + d) mod msize m"
      "\<forall>e<d. \<not> has_key m k ((unat k + e) mod msize m)"
    using j by (auto simp: claims_def)
  have other: "(unat k + e) mod msize m \<noteq> j" if "e < d" for e
    using that d(1,2) probe_dist_of [of e "msize m" "unat k"]
      probe_dist_of [of d "msize m" "unat k"] by auto
  have "probe_first (msize m) (has_key (put_at m k v j) k) (msize m) (unat k mod msize m)
      = Some ((unat k + d) mod msize m)"
  proof (rule probe_first_least)
    show "has_key (put_at m k v j) k ((unat k + d) mod msize m)"
      using d jl len by (simp add: has_key_Item)
    show "\<forall>e<d. \<not> has_key (put_at m k v j) k ((unat k + e) mod msize m)"
      using d(3) other jl len by (auto simp: has_key_Item nth_list_update)
  qed (rule d(1))
  then show ?thesis
    using d(2) map_find_probe [OF wf', of k] by simp
qed

lemma put_at_get_same:
  assumes wf: "map_wf m" and j: "claims m k j"
  shows "map_get (put_at m k v j) k = Some v"
  using put_at_find [OF assms] map_get_find [OF put_at_wf [OF assms]] wf claims_less [OF j]
  by (auto simp: map_wf_def)

lemma put_at_get_other:
  assumes wf: "map_wf m" and j: "claims m k j" and neq: "k' \<noteq> k"
  shows "map_get (put_at m k v j) k' = map_get m k'"
proof (rule map_get_cong [OF wf put_at_wf [OF wf j]])
  fix i w assume "i < msize m"
  then show "mdata (put_at m k v j) ! i = Item k' w \<longleftrightarrow> mdata m ! i = Item k' w"
    using wf neq claims_old [OF j neq, of w] claims_less [OF j]
    by (auto simp: map_wf_def nth_list_update)
qed simp

lemma put_at_distinct:
  assumes wf: "map_wf m" and j: "claims m k j" and dist: "keys_distinct m"
    and safe: "no_deleted m \<or> map_get m k = None"
  shows "keys_distinct (put_at m k v j)"
proof -
  have len: "length (mdata m) = msize m" and jl: "j < msize m"
    using wf claims_less [OF j] by (auto simp: map_wf_def)
  have uniq: "i = j" if i: "i < msize m" "mdata m ! i = Item k w" for i w
  proof (cases "has_key m k j")
    case True
    with i jl dist show ?thesis by (auto simp: keys_distinct_def has_key_Item)
  next
    case False
    then have "\<not> is_item (mdata m ! j)" using j by (auto simp: claims_def)
    moreover have "no_deleted m"
      using safe i map_get_None_iff [OF wf] by blast
    moreover have "mdata m ! j \<in> set (mdata m)" using jl len by simp
    ultimately have empty: "mdata m ! j = Empty"
      by (cases "mdata m ! j") (auto simp: no_deleted_def)
    obtain d where d: "d < msize m" "j = (unat k + d) mod msize m"
        "\<forall>e<d. \<not> has_key m k ((unat k + e) mod msize m)"
      using j by (auto simp: claims_def)
    define c where "c = probe_dist (msize m) (unat k) i"
    have c: "(unat k + c) mod msize m = i"
      unfolding c_def using i(1) by (rule probe_dist_hits)
    have "\<not> d < c"
      using wf i empty d(2) by (auto simp: map_wf_def chained_def c_def)
    moreover have "\<not> c < d"
      using d(3) i c by (auto simp: has_key_Item)
    ultimately show ?thesis using c d(2) by simp
  qed
  show ?thesis
    using dist uniq len jl unfolding keys_distinct_def
    by (auto simp: nth_list_update)
qed

lemma put_at_no_deleted: "no_deleted m \<Longrightarrow> no_deleted (put_at m k v j)"
  using set_update_subset_insert [of "mdata m" j "Item k v"] by (auto simp: no_deleted_def)


section \<open>Growing the table\<close>

fun item_list :: "'v slot list \<Rightarrow> (u32 \<times> 'v) list" where
  "item_list [] = []"
| "item_list (Item k v # xs) = (k, v) # item_list xs"
| "item_list (Empty # xs) = item_list xs"
| "item_list (Deleted # xs) = item_list xs"

lemma set_item_list: "(k, v) \<in> set (item_list xs) \<longleftrightarrow> Item k v \<in> set xs"
  by (induction xs rule: item_list.induct) auto

text \<open>A request for 16 GiB of table slots or more is refused.\<close>

definition calloc_bounded :: "(nat \<Rightarrow> bool) \<Rightarrow> bool" where
  "calloc_bounded calloc \<longleftrightarrow> (\<forall>n. calloc n \<longrightarrow> n < 2 ^ 31)"

definition fresh_table :: "'v qmap \<Rightarrow> bool" where
  "fresh_table m \<longleftrightarrow> map_wf m \<and> keys_distinct m \<and> no_deleted m"

lemma put_at_fresh:
  "fresh_table m \<Longrightarrow> claims m k j \<Longrightarrow> fresh_table (put_at m k v j)"
  by (auto simp: fresh_table_def put_at_wf put_at_distinct put_at_no_deleted)

lemma put_at_get:
  "map_wf m \<Longrightarrow> claims m k j \<Longrightarrow> map_get (put_at m k v j) = (map_get m)(k \<mapsto> v)"
  by (auto simp: fun_eq_iff put_at_get_same put_at_get_other)

lemma put_at_mcount: "mcount (put_at m k v j) \<le> mcount m + 1"
  by (simp add: put_at_def)

lemma fresh_table_empty: "n < 2 ^ 31 \<Longrightarrow> fresh_table \<lparr>msize = n, mcount = 0, mdata = replicate n Empty\<rparr>"
  by (auto simp: fresh_table_def map_wf_def chained_def keys_distinct_def no_deleted_def)

lemma map_get_empty:
  fixes m :: "'v qmap"
  assumes "n < 2 ^ 31" and m: "m = \<lparr>msize = n, mcount = 0, mdata = replicate n Empty\<rparr>"
  shows "map_get m = Map.empty"
proof
  fix k
  have "fresh_table m" unfolding m using assms(1) by (rule fresh_table_empty)
  then have "map_wf m" by (simp add: fresh_table_def)
  then show "map_get m k = None" by (simp add: map_get_None_iff m)
qed

lemma map_rehash_loop_copies:
  assumes "fresh_table m" and "mcount m + items xs < msize m"
  shows "\<exists>m'. map_rehash_loop (Suc f) calloc xs m = Some (0, m') \<and> fresh_table m' \<and>
    msize m' = msize m \<and> mcount m' \<le> mcount m + items xs \<and>
    map_get m' = map_get m ++ map_of (rev (item_list xs))"
  using assms
proof (induction xs arbitrary: m rule: item_list.induct)
  case (2 k v xs)
  have room: "mcount m < msize m" and wf: "map_wf m"
    using "2.prems" by (auto simp: fresh_table_def)
  obtain j where j: "claims m k j" "map_reput_fuel (Suc f) calloc m k (Some v) =
      Some (0, (if has_key m k j then Some (sval (mdata m ! j)) else None), put_at m k v j)"
    using map_reput_room [OF wf room] by blast
  have "mcount (put_at m k v j) + items xs < msize (put_at m k v j)"
    using "2.prems"(2) put_at_mcount [of m k v j] by simp
  then obtain m' where m': "map_rehash_loop (Suc f) calloc xs (put_at m k v j) = Some (0, m')"
      "fresh_table m'" "msize m' = msize m" "mcount m' \<le> mcount (put_at m k v j) + items xs"
      "map_get m' = map_get (put_at m k v j) ++ map_of (rev (item_list xs))"
    using "2.IH" [of "put_at m k v j"] put_at_fresh [OF "2.prems"(1) j(1)] by auto
  moreover have "map_rehash_loop (Suc f) calloc (Item k v # xs) m = Some (0, m')"
    using j(2) m'(1) by simp
  moreover have "mcount m' \<le> mcount m + items (Item k v # xs)"
    using m'(4) put_at_mcount [of m k v j] by simp
  ultimately show ?case
    using put_at_get [OF wf j(1)] by (intro exI [of _ m']) simp
qed auto

lemma map_rehash_copies:
  assumes wf: "map_wf m" and bnd: "calloc_bounded calloc" and ok: "calloc (msize m + 256)"
  shows "\<exists>m'. map_rehash_fuel (Suc (Suc f)) calloc m = Some (0, m') \<and> fresh_table m' \<and>
    mcount m' < msize m' \<and> msize m' = msize m + 256 \<and>
    map_get m' = map_of (rev (item_list (mdata m)))"
proof -
  let ?n = "msize m + 256"
  let ?t = "\<lparr>msize = ?n, mcount = 0, mdata = replicate ?n Empty\<rparr> :: 'a qmap"
  have n: "?n < 2 ^ 31" using bnd ok by (simp add: calloc_bounded_def)
  have "items (mdata m) < ?n"
    using wf items_le [of "mdata m"] unfolding map_wf_def by linarith
  then obtain m' where "map_rehash_loop (Suc f) calloc (mdata m) ?t = Some (0, m')"
      "fresh_table m'" "msize m' = ?n" "mcount m' \<le> items (mdata m)"
      "map_get m' = map_get ?t ++ map_of (rev (item_list (mdata m)))"
    using map_rehash_loop_copies [OF fresh_table_empty [OF n], of "mdata m" f calloc] by auto
  moreover have "map_get ?t = Map.empty" using n by (rule map_get_empty) simp
  moreover have "?n mod 2 ^ 32 = ?n" using n by simp
  moreover have "take (msize m) (mdata m) = mdata m" using wf by (simp add: map_wf_def)
  ultimately show ?thesis
    using ok \<open>items (mdata m) < ?n\<close> by (auto simp: Let_def)
qed

lemma map_get_item_list:
  assumes "map_wf m" and "keys_distinct m"
  shows "map_get m = map_of (rev (item_list (mdata m)))"
proof
  fix k
  have mem: "Item k v \<in> set (mdata m) \<longleftrightarrow> map_get m k = Some v" for v
    using assms by (auto simp: map_get_Some_iff in_set_conv_nth map_wf_def)
  show "map_get m k = map_of (rev (item_list (mdata m))) k"
  proof (cases "map_of (rev (item_list (mdata m))) k")
    case None
    then have "(k, v) \<notin> set (item_list (mdata m))" for v
      by (force simp: map_of_eq_None_iff)
    then show ?thesis using None mem set_item_list by (metis not_Some_eq)
  next
    case (Some v)
    then have "(k, v) \<in> set (item_list (mdata m))"
      by (auto dest: map_of_SomeD)
    then show ?thesis using Some mem set_item_list by metis
  qed
qed


section \<open>The contract of map\_reput, map\_put and map\_remove\<close>

text \<open>The table a store lands in: the table itself, or its copy in a larger one.\<close>

definition store_table :: "'v qmap \<Rightarrow> 'v qmap \<Rightarrow> bool" where
  "store_table m t \<longleftrightarrow> t = m \<or>
     mcount m = msize m \<and> fresh_table t \<and> msize t = msize m + 256 \<and>
     map_get t = map_of (rev (item_list (mdata m)))"

lemma map_reput_cases:
  assumes wf: "map_wf m" and bnd: "calloc_bounded calloc"
  obtains
    (stored) t j where "store_table m t" "map_wf t" "claims t k j"
      "map_reput calloc m k (Some v) =
         Some (0, (if has_key t k j then Some (sval (mdata t ! j)) else None), put_at t k v j)"
  | (no_memory) "mcount m = msize m" "\<not> calloc (msize m + 256)"
      "map_reput calloc m k (Some v) = Some (-1, None, m)"
proof (cases "mcount m < msize m")
  case True
  then show ?thesis
    using stored [of m] map_reput_room [OF wf True, of k 2 calloc v] wf
    by (auto simp: store_table_def map_reput_def eval_nat_numeral)
next
  case False
  then have full: "mcount m = msize m"
    using wf items_le [of "mdata m"] by (auto simp: map_wf_def)
  have hash: "map_hash m k = (-1, m)" using full by (simp add: map_hash_def)
  show ?thesis
  proof (cases "calloc (msize m + 256)")
    case calloc: True
    obtain t where t: "map_rehash_fuel (Suc (Suc 0)) calloc m = Some (0, t)" "fresh_table t"
        "mcount t < msize t" "msize t = msize m + 256"
        "map_get t = map_of (rev (item_list (mdata m)))"
      using map_rehash_copies [OF wf bnd calloc] by blast
    then have wft: "map_wf t" by (simp add: fresh_table_def)
    obtain j where "claims t k j" "map_reput_fuel (Suc (Suc 0)) calloc t k (Some v) =
        Some (0, (if has_key t k j then Some (sval (mdata t ! j)) else None), put_at t k v j)"
      using map_reput_room [OF wft t(3)] by blast
    moreover have "store_table m t" using full t by (simp add: store_table_def)
    ultimately show ?thesis
      using stored [of t j] wft hash t(1)
      by (simp add: map_reput_def numeral_3_eq_3 del: map_rehash_fuel.simps)
  next
    case refused: False
    have "(msize m + 256) mod 2 ^ 32 = msize m + 256"
      using wf by (simp add: map_wf_def)
    with refused hash have "map_reput calloc m k (Some v) = Some (-1, None, m)"
      by (simp add: map_reput_def numeral_3_eq_3)
    with full refused show ?thesis by (rule no_memory)
  qed
qed

lemma store_table_get: "map_wf m \<Longrightarrow> keys_distinct m \<Longrightarrow> store_table m t \<Longrightarrow> map_get t = map_get m"
  by (auto simp: store_table_def map_get_item_list)

lemma store_table_distinct: "keys_distinct m \<Longrightarrow> store_table m t \<Longrightarrow> keys_distinct t"
  by (auto simp: store_table_def fresh_table_def)

lemma store_table_no_deleted: "no_deleted m \<Longrightarrow> store_table m t \<Longrightarrow> no_deleted t"
  by (auto simp: store_table_def fresh_table_def)

lemma map_reput_wf:
  assumes "map_wf m" "calloc_bounded calloc" "map_reput calloc m k (Some v) = Some (rc, old, m')"
  shows "map_wf m'"
  using assms(1,2)
proof (cases rule: map_reput_cases [where k = k and v = v])
  case (stored t j)
  with assms(3) show ?thesis by (auto intro: put_at_wf)
qed (use assms in auto)

lemma map_reput_get:
  assumes "map_wf m" "calloc_bounded calloc" "keys_distinct m"
    "map_reput calloc m k (Some v) = Some (0, old, m')"
  shows "map_get m' = (map_get m)(k \<mapsto> v)"
  using assms(1,2)
proof (cases rule: map_reput_cases [where k = k and v = v])
  case (stored t j)
  with assms show ?thesis by (auto simp: put_at_get store_table_get)
qed (use assms in auto)

lemma map_reput_get_same:
  assumes "map_wf m" "calloc_bounded calloc" "map_reput calloc m k (Some v) = Some (0, old, m')"
  shows "map_get m' k = Some v"
  using assms(1,2)
proof (cases rule: map_reput_cases [where k = k and v = v])
  case (stored t j)
  with assms show ?thesis by (auto simp: put_at_get_same)
qed (use assms in auto)

lemma map_reput_distinct:
  assumes "map_wf m" "calloc_bounded calloc" "keys_distinct m"
    "no_deleted m \<or> map_get m k = None"
    "map_reput calloc m k (Some v) = Some (rc, old, m')"
  shows "keys_distinct m'"
  using assms(1,2)
proof (cases rule: map_reput_cases [where k = k and v = v])
  case (stored t j)
  have "no_deleted t \<or> map_get t k = None"
    using assms(1,3,4) stored(1) store_table_no_deleted store_table_get by metis
  with stored assms store_table_distinct show ?thesis
    by (auto intro!: put_at_distinct)
qed (use assms in auto)

lemma map_reput_no_deleted:
  assumes "map_wf m" "calloc_bounded calloc" "no_deleted m"
    "map_reput calloc m k (Some v) = Some (rc, old, m')"
  shows "no_deleted m'"
  using assms(1,2)
proof (cases rule: map_reput_cases [where k = k and v = v])
  case (stored t j)
  with assms show ?thesis by (auto intro: put_at_no_deleted store_table_no_deleted)
qed (use assms in auto)

lemma map_reput_returns:
  assumes "map_wf m" "calloc_bounded calloc"
  shows "\<exists>rc old m'. map_reput calloc m k (Some v) = Some (rc, old, m') \<and>
    (rc = 0 \<or> rc = -1 \<and> m' = m \<and> mcount m = msize m \<and> \<not> calloc (msize m + 256))"
  using assms
  by (cases rule: map_reput_cases [where k = k and v = v]) auto

lemma map_remove_Some:
  assumes wf: "map_wf m" and find: "map_find m k = Some i"
  shows "map_wf (snd (map_remove m k))" and "msize (snd (map_remove m k)) = msize m"
    and "mdata (snd (map_remove m k)) = (mdata m)[i := Deleted]"
proof -
  have i: "i < msize m" "is_item (mdata m ! i)"
    using map_find_Some [OF wf find] by auto
  have len: "length (mdata m) = msize m" using wf by (simp add: map_wf_def)
  have pos: "0 < mcount m" and small: "mcount m < 2 ^ 32"
    using wf i len items_pos [of i "mdata m"] items_le [of "mdata m"]
    by (auto simp: map_wf_def)
  have "(mcount m + 2 ^ 32 - 1) mod 2 ^ 32 = (mcount m - 1 + 2 ^ 32) mod 2 ^ 32"
    using pos by simp
  also have "\<dots> = mcount m - 1" using small by simp
  also have "\<dots> = items ((mdata m)[i := Deleted])"
    using items_upd [of i "mdata m" Deleted] i len wf by (simp add: map_wf_def)
  finally have cnt: "(mcount m + 2 ^ 32 - 1) mod 2 ^ 32 = items ((mdata m)[i := Deleted])" .
  have "chained (m\<lparr>mdata := (mdata m)[i := Deleted], mcount := c\<rparr>)" for c
    unfolding chained_def
  proof (intro allI impI, simp)
    fix j k' v' e
    assume j: "j < msize m" "(mdata m)[i := Deleted] ! j = Item k' v'"
      and e: "e < probe_dist (msize m) (unat k') j"
    then have "mdata m ! j = Item k' v'"
      using i(1) len by (simp add: nth_list_update split: if_splits)
    then have "mdata m ! ((unat k' + e) mod msize m) \<noteq> Empty"
      using wf j(1) e by (auto simp: map_wf_def chained_def)
    then show "(mdata m)[i := Deleted] ! ((unat k' + e) mod msize m) \<noteq> Empty"
      using i(1) len by (simp add: nth_list_update)
  qed
  then have "chained (snd (map_remove m k))" using find by (simp add: map_remove_def)
  then show "map_wf (snd (map_remove m k))"
    using wf find cnt by (simp add: map_remove_def map_wf_def)
  show "msize (snd (map_remove m k)) = msize m"
    and "mdata (snd (map_remove m k)) = (mdata m)[i := Deleted]"
    using find by (simp_all add: map_remove_def)
qed

lemma map_remove_None: "map_find m k = None \<Longrightarrow> map_remove m k = (1, m)"
  by (simp add: map_remove_def)

lemma map_remove_wf: "map_wf m \<Longrightarrow> map_wf (snd (map_remove m k))"
  by (cases "map_find m k") (auto intro: map_remove_Some(1) simp: map_remove_None)

lemma map_remove_distinct:
  assumes wf: "map_wf m" and dist: "keys_distinct m"
  shows "keys_distinct (snd (map_remove m k))"
proof (cases "map_find m k")
  case (Some i)
  have "i < length (mdata m)"
    using map_find_Some [OF wf Some] wf by (simp add: map_wf_def)
  then have "mdata m ! j = Item k' v" if "(mdata m)[i := Deleted] ! j = Item k' v" for j k' v
    using that by (simp add: nth_list_update split: if_splits)
  then show ?thesis
    using dist map_remove_Some [OF wf Some] unfolding keys_distinct_def by metis
qed (use dist in \<open>simp add: map_remove_None\<close>)

lemma map_remove_get_other:
  assumes wf: "map_wf m" and neq: "k' \<noteq> k"
  shows "map_get (snd (map_remove m k)) k' = map_get m k'"
proof (cases "map_find m k")
  case (Some i)
  have i: "i < length (mdata m)" "\<exists>v. mdata m ! i = Item k v"
    using map_find_Some [OF wf Some] wf by (auto simp: map_wf_def)
  show ?thesis
    using map_remove_Some [OF wf Some] i neq
    by (intro map_get_cong [OF wf]) (auto simp: nth_list_update)
qed (simp add: map_remove_None)

lemma map_remove_get:
  assumes wf: "map_wf m" and dist: "keys_distinct m"
  shows "map_get (snd (map_remove m k)) = (map_get m)(k := None)"
proof (rule ext)
  fix k'
  show "map_get (snd (map_remove m k)) k' = ((map_get m)(k := None)) k'"
  proof (cases "k' = k")
    case False
    then show ?thesis using wf by (simp add: map_remove_get_other)
  next
    case True
    show ?thesis
    proof (cases "map_find m k")
      case None
      with wf True show ?thesis by (simp add: map_remove_None map_get_None_find)
    next
      case (Some i)
      have i: "i < msize m" "\<exists>v. mdata m ! i = Item k v"
        using map_find_Some [OF wf Some] by auto
      have "mdata (snd (map_remove m k)) ! j \<noteq> Item k v" if "j < msize m" for j v
        using that i dist wf map_remove_Some(3) [OF wf Some]
        by (auto simp: keys_distinct_def nth_list_update map_wf_def split: if_splits)
      then show ?thesis
        using True map_remove_Some [OF wf Some] by (simp add: map_get_None_iff)
    qed
  qed
qed


text \<open>No operation makes up items, whether or not keys are duplicated.\<close>

lemma store_table_items:
  assumes "map_wf m" "map_wf t" "store_table m t" "Item k v \<in> set (mdata t)"
  shows "Item k v \<in> set (mdata m)"
proof (cases "t = m")
  case False
  then have t: "keys_distinct t" "map_get t = map_of (rev (item_list (mdata m)))"
    using assms(3) by (auto simp: store_table_def fresh_table_def)
  have "map_get t k = Some v"
    using assms(2,4) t(1) by (auto simp: map_get_Some_iff in_set_conv_nth map_wf_def)
  then have "(k, v) \<in> set (rev (item_list (mdata m)))" using t(2) map_of_SomeD by metis
  then show ?thesis by (simp add: set_item_list)
qed (use assms in simp)

lemma map_reput_items:
  assumes "map_wf m" "calloc_bounded calloc" "map_reput calloc m k (Some v) = Some (rc, old, m')"
    "Item k' v' \<in> set (mdata m')"
  shows "(k', v') = (k, v) \<or> Item k' v' \<in> set (mdata m)"
  using assms(1,2)
proof (cases rule: map_reput_cases [where k = k and v = v])
  case (stored t j)
  then have "Item k' v' \<in> set ((mdata t)[j := Item k v])" using assms(3,4) by auto
  then have "Item k' v' = Item k v \<or> Item k' v' \<in> set (mdata t)"
    by (meson insertE set_update_subset_insert subsetD)
  with stored assms(1) store_table_items show ?thesis by fastforce
qed (use assms in auto)

lemma map_remove_items:
  "Item k' v' \<in> set (mdata (snd (map_remove m k))) \<Longrightarrow> Item k' v' \<in> set (mdata m)"
  by (auto simp: map_remove_def split: option.splits dest!: subsetD [OF set_update_subset_insert])

lemma map_get_item: "map_wf m \<Longrightarrow> map_get m k = Some v \<Longrightarrow> Item k v \<in> set (mdata m)"
  using map_find_Some by (fastforce simp: map_get_find map_wf_def in_set_conv_nth)

section \<open>Iteration, clearing\<close>

lemma map_iter_from_walk:
  "map_walk m (map_iter_from m i) = filter (\<lambda>j. is_item (mdata m ! j)) [i..<msize m]"
proof (induction "msize m - i" arbitrary: i)
  case 0
  then show ?case by (simp add: map_iter_from.simps)
next
  case (Suc n)
  then have i: "i < msize m" "[i..<msize m] = i # [Suc i..<msize m]"
    by (simp_all add: upt_conv_Cons)
  have "n = msize m - Suc i" using Suc.hyps(2) by simp
  then have "map_walk m (map_iter_from m (Suc i)) =
      filter (\<lambda>j. is_item (mdata m ! j)) [Suc i..<msize m]"
    by (rule Suc.hyps(1))
  with i show ?case
    by (subst map_iter_from.simps) (simp add: map_iter_next_def)
qed

lemma map_for_each_items:
  assumes "map_wf m"
  shows "map_for_each m = map sval (filter is_item (mdata m))"
proof -
  have "mdata m = map ((!) (mdata m)) [0..<msize m]"
    using assms map_nth [of "mdata m"] by (simp add: map_wf_def)
  then have "filter is_item (mdata m) =
      map ((!) (mdata m)) (filter (\<lambda>j. is_item (mdata m ! j)) [0..<msize m])"
    using filter_map [of is_item "(!) (mdata m)" "[0..<msize m]"] by (simp add: comp_def)
  then show ?thesis
    by (simp add: map_for_each_def map_iter_first_def map_iter_from_walk)
qed

lemma is_item_conv: "is_item x \<longleftrightarrow> (\<exists>k v. x = Item k v)"
  by (cases x) auto

lemma set_map_for_each:
  assumes "map_wf m"
  shows "v \<in> set (map_for_each m) \<longleftrightarrow> (\<exists>j<msize m. \<exists>k. mdata m ! j = Item k v)"
proof -
  have "v \<in> set (map_for_each m) \<longleftrightarrow> (\<exists>k. Item k v \<in> set (mdata m))"
    using assms by (force simp: map_for_each_items is_item_conv)
  also have "\<dots> \<longleftrightarrow> (\<exists>j<msize m. \<exists>k. mdata m ! j = Item k v)"
    using assms by (auto simp: in_set_conv_nth map_wf_def)
  finally show ?thesis .
qed

lemma set_map_for_each_ran:
  "map_wf m \<Longrightarrow> keys_distinct m \<Longrightarrow> set (map_for_each m) = ran (map_get m)"
  by (auto simp: set_map_for_each ran_def map_get_Some_iff) blast+

lemma distinct_map_for_each:
  assumes "keys_distinct m"
    and key: "\<And>j k v. j < msize m \<Longrightarrow> mdata m ! j = Item k v \<Longrightarrow> k = f v"
  shows "distinct (map_for_each m)"
proof -
  have "inj_on (\<lambda>j. sval (mdata m ! j)) (set (filter (\<lambda>j. is_item (mdata m ! j)) [0..<msize m]))"
  proof (rule inj_onI)
    fix i j
    assume "i \<in> set (filter (\<lambda>j. is_item (mdata m ! j)) [0..<msize m])"
      "j \<in> set (filter (\<lambda>j. is_item (mdata m ! j)) [0..<msize m])" "sval (mdata m ! i) = sval (mdata m ! j)"
    then obtain k k' v where "i < msize m" "j < msize m" "mdata m ! i = Item k v" "mdata m ! j = Item k' v"
      by (auto simp: is_item_conv)
    moreover from this have "k = k'" using key [of i k v] key [of j k' v] by simp
    ultimately show "i = j" using assms(1) unfolding keys_distinct_def by blast
  qed
  then show ?thesis
    by (simp add: map_for_each_def map_iter_first_def map_iter_from_walk distinct_map)
qed

lemma map_clear_spec:
  assumes "map_wf m"
  shows "fst (map_clear m) = map_for_each m" and "fresh_table (snd (map_clear m))"
    and "map_get (snd (map_clear m)) = Map.empty"
proof -
  let ?t = "\<lparr>msize = msize m, mcount = 0, mdata = replicate (msize m) Empty\<rparr>"
  have len: "length (mdata m) = msize m" and n: "msize m < 2 ^ 31"
    using assms by (simp_all add: map_wf_def)
  have t: "snd (map_clear m) = ?t"
    using len by (simp add: map_clear_def map_replicate_const)
  show "fst (map_clear m) = map_for_each m"
    using len assms by (simp add: map_clear_def map_for_each_items)
  show "fresh_table (snd (map_clear m))" unfolding t using n by (rule fresh_table_empty)
  show "map_get (snd (map_clear m)) = Map.empty" using n t by (rule map_get_empty)
qed

section \<open>The table as a key-value store\<close>

definition map_store :: "(nat \<Rightarrow> bool) \<Rightarrow> 'v qmap \<Rightarrow> u32 \<Rightarrow> 'v \<Rightarrow> 'v qmap option" where
  "map_store calloc m k v =
     (case map_reput calloc m k (Some v) of
        Some (rc, old, m') \<Rightarrow> if rc = 0 then Some m' else None
      | None \<Rightarrow> None)"

lemma map_store_reput:
  "map_store calloc m k v = Some m' \<longleftrightarrow> (\<exists>old. map_reput calloc m k (Some v) = Some (0, old, m'))"
  by (auto simp: map_store_def split: option.splits if_splits)

lemma map_create_fresh: "fresh_table map_create" and map_create_get: "map_get map_create = Map.empty"
proof -
  have c: "map_create = \<lparr>msize = 0, mcount = 0, mdata = replicate 0 Empty\<rparr>"
    by (simp add: map_create_def)
  show "fresh_table map_create" unfolding c by (rule fresh_table_empty) simp
  show "map_get map_create = Map.empty" by (rule map_get_empty [OF _ c]) simp
qed

interpretation qmap: keyed_store calloc_bounded fresh_table map_create map_get map_store
proof
  show "fresh_table map_create" by (rule map_create_fresh)
  show "map_get map_create = Map.empty" by (rule map_create_get)
next
  fix e and m m' :: "'v qmap" and k v
  assume "calloc_bounded e" "fresh_table m" "map_store e m k v = Some m'"
  then show "fresh_table m'" and "map_get m' = (map_get m)(k \<mapsto> v)"
    by (auto simp: map_store_reput fresh_table_def map_reput_wf map_reput_distinct
        map_reput_no_deleted map_reput_get)
qed

interpretation qmap_del: fresh_store calloc_bounded "\<lambda>m. map_wf m \<and> keys_distinct m"
  map_get map_store "\<lambda>m k. snd (map_remove m k)"
proof
  fix e and m m' :: "'v qmap" and k v
  assume "calloc_bounded e" "map_wf m \<and> keys_distinct m" "map_get m k = None"
    "map_store e m k v = Some m'"
  then show "map_wf m' \<and> keys_distinct m'" and "map_get m' = (map_get m)(k \<mapsto> v)"
    by (auto simp: map_store_reput map_reput_wf map_reput_get intro: map_reput_distinct)
next
  fix m :: "'v qmap" and k
  assume "map_wf m \<and> keys_distinct m"
  then show "map_wf (snd (map_remove m k)) \<and> keys_distinct (snd (map_remove m k))"
    and "map_get (snd (map_remove m k)) = (map_get m)(k := None)"
    by (simp_all add: map_remove_wf map_remove_distinct map_remove_get)
qed

section \<open>Properties\<close>


lemma calloc_256: "calloc_bounded (\<lambda>n. n \<le> 256)"
  by (simp add: calloc_bounded_def)


text \<open>
  C2. \<open>map_remove\<close> returns 0 exactly when the key was present, afterwards that key
  is absent and no other key is affected, and the table stays well-formed without duplicates.
\<close>

theorem map_remove_contract:
  assumes "map_wf m" "keys_distinct m"
  shows "fst (map_remove m k) = (if map_contains m k then 0 else 1) \<and>
    map_get (snd (map_remove m k)) = (map_get m)(k := None) \<and>
    map_wf (snd (map_remove m k)) \<and> keys_distinct (snd (map_remove m k))"
  using map_remove_get [OF assms] map_remove_wf [OF assms(1)] map_remove_distinct [OF assms]
  by (simp add: map_contains_def map_remove_def split: option.split)

definition two_items :: "nat qmap" where
  "two_items = \<lparr>msize = 3, mcount = 2, mdata = [Item 0 7, Item 3 9, Empty]\<rparr>"

lemma two_items_wf: "map_wf two_items" and two_items_distinct: "keys_distinct two_items"
proof -
  have "chained two_items" by code_simp
  then show "map_wf two_items" by (simp add: map_wf_def two_items_def)
  show "keys_distinct two_items"
    by (simp add: two_items_def keys_distinct_code lessThan_nat_numeral lessThan_Suc)
qed

theorem map_remove_contract_witness:
  "map_get (snd (map_remove two_items 0)) 0 = None \<and> map_get (snd (map_remove two_items 0)) 3 = Some 9"
proof -
  have "map_get two_items 3 = Some 9" by code_simp
  with map_remove_contract [OF two_items_wf two_items_distinct, of 0] show ?thesis by simp
qed

text \<open>
  C3. Walking the table with \<open>map_iter_first\<close> and \<open>map_iter_next\<close> ends after
  \<open>map_length\<close> items and visits exactly the values that lookups find.
\<close>

theorem map_iteration:
  assumes "map_wf m" "keys_distinct m"
  shows "length (map_for_each m) = map_length m \<and> set (map_for_each m) = ran (map_get m)"
proof
  show "length (map_for_each m) = map_length m"
    using assms(1) by (simp add: map_for_each_items map_length_def map_wf_def)
  show "set (map_for_each m) = ran (map_get m)" using assms by (rule set_map_for_each_ran)
qed

theorem map_iteration_witness:
  "length (map_for_each two_items) = 2 \<and> set (map_for_each two_items) = ran (map_get two_items)"
  using map_iteration [OF two_items_wf two_items_distinct] by (simp add: map_length_def two_items_def)

text \<open>
  C4. When the probe for a key that is present meets a deleted slot first, \<open>map_put\<close>
  fills that slot without replacing the item further down the chain. Removing the key afterwards
  brings the overwritten value back.
\<close>

theorem map_put_ghost:
  assumes wf: "map_wf m" and "keys_distinct m" and room: "mcount m < msize m"
    and old: "map_get m k = Some v"
    and slot: "fst (map_hash m k) = int j" "mdata m ! j = Deleted"
  shows "\<exists>m'. map_put calloc m k (Some w) = Some (0, m') \<and> map_get m' k = Some w \<and>
    map_get (snd (map_remove m' k)) k = Some v"
proof -
  obtain i where i: "claims m k i" "map_reput_fuel (Suc 2) calloc m k (Some w) =
      Some (0, (if has_key m k i then Some (sval (mdata m ! i)) else None), put_at m k w i)"
    using map_reput_room [OF wf room] by blast
  obtain i' where i': "claims m k i'" "fst (map_hash m k) = int i'"
    using map_hash_room [OF wf room, of k] by force
  have ij: "i = j"
    using claims_unique [OF i(1) i'(1)] i'(2) slot(1) by simp
  let ?m = "put_at m k w j"
  have wf': "map_wf ?m" and find: "map_find ?m k = Some j"
    using put_at_wf [OF wf i(1)] put_at_find [OF wf i(1)] ij by auto
  have "mdata (snd (map_remove ?m k)) = mdata m"
    using map_remove_Some(3) [OF wf' find] slot(2) by simp (metis list_update_id)
  then have "map_get (snd (map_remove ?m k)) k = map_get m k"
    using map_remove_Some(1,2) [OF wf' find] by (intro map_get_cong [OF wf]) auto
  moreover have "map_get ?m k = Some w"
    using put_at_get_same [OF wf i(1)] ij by simp
  ultimately show ?thesis
    using i(2) ij old by (auto simp: map_put_def map_reput_def eval_nat_numeral)
qed

definition deleted_then_item :: "nat qmap" where
  "deleted_then_item = \<lparr>msize = 3, mcount = 1, mdata = [Deleted, Item 3 9, Empty]\<rparr>"

theorem map_put_ghost_witness:
  "\<exists>m'. map_put (\<lambda>n. n \<le> 256) deleted_then_item 3 (Some 11) = Some (0, m') \<and>
     map_get m' 3 = Some 11 \<and> map_get (snd (map_remove m' 3)) 3 = Some 9"
proof (rule map_put_ghost [where j = 0])
  have "chained deleted_then_item" by code_simp
  then show "map_wf deleted_then_item" by (simp add: map_wf_def deleted_then_item_def)
  show "keys_distinct deleted_then_item"
    by (simp add: deleted_then_item_def keys_distinct_code lessThan_nat_numeral lessThan_Suc)
  show "mcount deleted_then_item < msize deleted_then_item" by code_simp
  show "map_get deleted_then_item 3 = Some 9" by code_simp
  show "fst (map_hash deleted_then_item 3) = int 0"
    using map_hash_loop.simps(2) [of 2 deleted_then_item 3 0]
    by (simp add: map_hash_def deleted_then_item_def)
  show "mdata deleted_then_item ! 0 = Deleted" by code_simp
qed

end
