(* ===== verification/QList.thy ===== *)
theory QList
  imports Interfaces
begin

text \<open>
  The intrusive doubly linked list of \<open>qrtr/src/list.h\<close>, at the level of its pointers.
  An item is an address; the heap gives the \<open>next\<close> and
  \<open>prev\<close> fields of every item; a list head holds two pointers. \<open>represents s xs\<close> says that the pointers
  form the sequence \<open>xs\<close>, and the lemmas show that the operations act on sequences as expected.
\<close>

type_synonym ref = "nat option"

record list_head =
  head :: ref
  tail :: ref

record list_heap =
  nxt :: "nat \<Rightarrow> ref"
  prv :: "nat \<Rightarrow> ref"

type_synonym lstate = "list_head \<times> list_heap"

definition list_init :: "list_head" where
  "list_init = \<lparr>head = None, tail = None\<rparr>"

definition list_append :: "lstate \<Rightarrow> nat \<Rightarrow> lstate" where
  "list_append s item =
     (let (l, h) = s;
          h = h\<lparr>nxt := (nxt h)(item := None)\<rparr>;
          h = h\<lparr>prv := (prv h)(item := tail l)\<rparr> in
      case tail l of
        Some t \<Rightarrow> (l\<lparr>tail := Some item\<rparr>, h\<lparr>nxt := (nxt h)(t := Some item)\<rparr>)
      | None \<Rightarrow> (l\<lparr>head := Some item, tail := Some item\<rparr>, h))"

definition list_prepend :: "lstate \<Rightarrow> nat \<Rightarrow> lstate" where
  "list_prepend s item =
     (let (l, h) = s;
          h = h\<lparr>prv := (prv h)(item := None)\<rparr>;
          h = h\<lparr>nxt := (nxt h)(item := head l)\<rparr>;
          l = (if head l = None then l\<lparr>tail := Some item\<rparr> else l) in
      (l\<lparr>head := Some item\<rparr>, h))"

definition list_insert :: "lstate \<Rightarrow> ref \<Rightarrow> nat \<Rightarrow> lstate" where
  "list_insert s after item =
     (case after of
        None \<Rightarrow> list_prepend s item
      | Some a \<Rightarrow>
          (let (l, h) = s;
               h = h\<lparr>prv := (prv h)(item := Some a)\<rparr>;
               h = h\<lparr>nxt := (nxt h)(item := nxt h a)\<rparr>;
               h = h\<lparr>nxt := (nxt h)(a := Some item)\<rparr>;
               h = (case nxt h item of
                      Some n \<Rightarrow> h\<lparr>prv := (prv h)(n := Some item)\<rparr> | None \<Rightarrow> h);
               l = (if tail l = Some a then l\<lparr>tail := Some item\<rparr> else l) in
           (l, h)))"

text \<open>\<open>None\<close>: the store through a null \<open>item->prev\<close>.\<close>

definition list_remove :: "lstate \<Rightarrow> nat \<Rightarrow> lstate option" where
  "list_remove s item =
     (let (l, h) = s;
          h = (case nxt h item of
                 Some n \<Rightarrow> h\<lparr>prv := (prv h)(n := prv h item)\<rparr> | None \<Rightarrow> h);
          clear = (\<lambda>h. h\<lparr>nxt := (nxt h)(item := None), prv := (prv h)(item := None)\<rparr>) in
      if head l = Some item then
        (let l = l\<lparr>head := nxt h item\<rparr>;
             l = (if head l = None then l\<lparr>tail := None\<rparr> else l) in
         Some (l, clear h))
      else
        (case prv h item of
           None \<Rightarrow> None
         | Some p \<Rightarrow>
             (let h = h\<lparr>nxt := (nxt h)(p := nxt h item)\<rparr>;
                  l = (if tail l = Some item then l\<lparr>tail := prv h item\<rparr> else l) in
              Some (l, clear h))))"

definition list_pop :: "lstate \<Rightarrow> (ref \<times> lstate) option" where
  "list_pop s =
     (case head (fst s) of
        None \<Rightarrow> Some (None, s)
      | Some item \<Rightarrow> map_option (\<lambda>s'. (Some item, s')) (list_remove s item))"

definition list_last :: "lstate \<Rightarrow> ref" where
  "list_last s = tail (fst s)"

definition list_first :: "lstate \<Rightarrow> ref" where
  "list_first s = head (fst s)"

definition list_next :: "lstate \<Rightarrow> nat \<Rightarrow> ref" where
  "list_next s item = nxt (snd s) item"

text \<open>
  The loop of \<open>list_for_each\<close>, with the items it visits. It follows \<open>next\<close> until it is null, so on a
  cyclic chain it does not end (\<open>None\<close>).
\<close>

partial_function (option) list_walk :: "list_heap \<Rightarrow> ref \<Rightarrow> nat list option" where
  [code]: "list_walk h iter =
     (case iter of
        None \<Rightarrow> Some []
      | Some a \<Rightarrow> Option.bind (list_walk h (nxt h a)) (\<lambda>as. Some (a # as)))"

definition list_for_each :: "lstate \<Rightarrow> nat list option" where
  "list_for_each s = list_walk (snd s) (head (fst s))"

text \<open>
  The loop of \<open>list_for_each_safe\<close>: the successor is read before the body runs. The body may change
  the list, and may fail (\<open>None\<close>).
\<close>

partial_function (option) list_walk_safe ::
    "(nat \<Rightarrow> lstate \<Rightarrow> lstate option) \<Rightarrow> lstate \<Rightarrow> ref \<Rightarrow> lstate option" where
  [code]: "list_walk_safe body s iter =
     (case iter of
        None \<Rightarrow> Some s
      | Some a \<Rightarrow>
          let bkup = nxt (snd s) a in
          Option.bind (body a s) (\<lambda>s'. list_walk_safe body s' bkup))"

definition list_for_each_safe :: "(nat \<Rightarrow> lstate \<Rightarrow> lstate option) \<Rightarrow> lstate \<Rightarrow> lstate option" where
  "list_for_each_safe body s = list_walk_safe body s (head (fst s))"

section \<open>Representation\<close>

fun dseg :: "list_heap \<Rightarrow> ref \<Rightarrow> nat list \<Rightarrow> ref \<Rightarrow> ref \<Rightarrow> ref \<Rightarrow> bool" where
  "dseg h p [] x l q \<longleftrightarrow> x = q \<and> l = p"
| "dseg h p (a # as) x l q \<longleftrightarrow> x = Some a \<and> prv h a = p \<and> dseg h (Some a) as (nxt h a) l q"

definition represents :: "lstate \<Rightarrow> nat list \<Rightarrow> bool" where
  "represents s xs \<longleftrightarrow> distinct xs \<and> dseg (snd s) None xs (head (fst s)) (tail (fst s)) None"

lemma dseg_append:
  "dseg h p (xs @ ys) x l q \<longleftrightarrow> (\<exists>m r. dseg h p xs x r m \<and> dseg h r ys m l q)"
  by (induction xs arbitrary: p x) auto

lemma dseg_frame:
  "(\<forall>a\<in>set xs. nxt h' a = nxt h a \<and> prv h' a = prv h a) \<Longrightarrow> dseg h' p xs x l q = dseg h p xs x l q"
  by (induction xs arbitrary: p x) auto

lemma dseg_last: "dseg h p xs x l q \<Longrightarrow> l = (if xs = [] then p else Some (last xs))"
  by (induction xs arbitrary: p x) auto

lemma dseg_first: "dseg h p xs x l q \<Longrightarrow> x = (if xs = [] then q else Some (hd xs))"
  by (cases xs) auto

lemma list_append_rep:
  assumes rep: "represents s xs" and fresh: "item \<notin> set xs"
  shows "represents (list_append s item) (xs @ [item])"
proof (cases "xs = []")
  case True
  with rep show ?thesis
    by (cases s) (auto simp: represents_def list_append_def Let_def)
next
  case False
  then obtain ys t where xs: "xs = ys @ [t]" by (metis rev_exhaust)
  obtain l h where s: "s = (l, h)" by (cases s)
  from rep have d: "dseg h None (ys @ [t]) (head l) (tail l) None" and dist: "distinct (ys @ [t])"
    by (simp_all add: represents_def xs s)
  then have t: "tail l = Some t" "prv h t = (if ys = [] then None else Some (last ys))"
    by (auto simp: dseg_append dest: dseg_last)
  let ?h = "h\<lparr>nxt := (nxt h)(item := None, t := Some item), prv := (prv h)(item := Some t)\<rparr>"
  have ne: "item \<noteq> t" "t \<notin> set ys" "item \<notin> set ys" using fresh dist xs by auto
  have "dseg ?h p ys x r m = dseg h p ys x r m" for p x r m
    using ne by (intro dseg_frame) auto
  with d ne t have "dseg ?h None (ys @ [t] @ [item]) (head l) (Some item) None"
    by (auto simp: dseg_append)
  moreover have "list_append s item = (l\<lparr>tail := Some item\<rparr>, ?h)"
    using ne by (simp add: list_append_def s t Let_def fun_upd_twist)
  ultimately show ?thesis
    using dist fresh by (simp add: represents_def xs)
qed

text \<open>Redirecting the outgoing pointer of a segment's last item, and the incoming one of its first.\<close>

lemma dseg_set_next:
  "dseg h p xs x l q \<Longrightarrow> distinct xs \<Longrightarrow> xs \<noteq> [] \<Longrightarrow>
     dseg (h\<lparr>nxt := (nxt h)(last xs := q')\<rparr>) p xs x l q'"
proof (induction xs arbitrary: p x)
  case (Cons a xs)
  show ?case
  proof (cases "xs = []")
    case True
    with Cons.prems show ?thesis by simp
  next
    case False
    with Cons.prems have "a \<noteq> last xs" by (metis distinct.simps(2) last_in_set)
    with Cons False show ?thesis by simp
  qed
qed simp

lemma dseg_set_prev:
  "dseg h p xs x l q \<Longrightarrow> distinct xs \<Longrightarrow> xs \<noteq> [] \<Longrightarrow>
     dseg (h\<lparr>prv := (prv h)(hd xs := p')\<rparr>) p' xs x l q"
proof (cases xs)
  case (Cons a ys)
  moreover assume "distinct xs"
  ultimately have "dseg (h\<lparr>prv := (prv h)(a := p')\<rparr>) r ys y l q = dseg h r ys y l q" for r y
    by (intro dseg_frame) auto
  moreover assume "dseg h p xs x l q"
  ultimately show ?thesis using Cons by simp
qed simp

lemma dseg_split:
  assumes "dseg h None (ys @ item # zs) x l None"
  shows "dseg h None ys x (if ys = [] then None else Some (last ys)) (Some item)"
    and "prv h item = (if ys = [] then None else Some (last ys))"
    and "dseg h (Some item) zs (nxt h item) l None"
proof -
  obtain r m where r: "dseg h None ys x r m" "dseg h r (item # zs) m l None"
    using assms unfolding dseg_append by blast
  note dseg_last [OF r(1)]
  with r show "dseg h None ys x (if ys = [] then None else Some (last ys)) (Some item)"
    and "prv h item = (if ys = [] then None else Some (last ys))"
    and "dseg h (Some item) zs (nxt h item) l None"
    by auto
qed

lemma list_remove_rep:
  assumes rep: "represents s (ys @ item # zs)"
  shows "\<exists>s'. list_remove s item = Some s' \<and> represents s' (ys @ zs)"
proof -
  obtain l h where s: "s = (l, h)" by (cases s)
  from rep have dist: "distinct (ys @ item # zs)"
    and d: "dseg h None (ys @ item # zs) (head l) (tail l) None"
    by (simp_all add: represents_def s)
  let ?p = "if ys = [] then None else Some (last ys)"
  note parts = dseg_split [OF d]
  have head: "head l = (if ys = [] then Some item else Some (hd ys))"
    using dseg_first [OF parts(1)] by simp
  have tail: "tail l = (if zs = [] then Some item else Some (last zs))"
    using dseg_last [OF parts(3)] by simp
  have nxt: "nxt h item = (if zs = [] then None else Some (hd zs))"
    using dseg_first [OF parts(3)] by simp
  let ?h1 = "if zs = [] then h else h\<lparr>prv := (prv h)(hd zs := ?p)\<rparr>"
  let ?h2 = "if ys = [] then ?h1 else ?h1\<lparr>nxt := (nxt ?h1)(last ys := nxt h item)\<rparr>"
  let ?h3 = "?h2\<lparr>nxt := (nxt ?h2)(item := None), prv := (prv ?h2)(item := None)\<rparr>"
  let ?l = "\<lparr>head = (if ys = [] then nxt h item else head l),
    tail = (if zs = [] then ?p else tail l)\<rparr>"
  have sep: "a \<in> set ys \<Longrightarrow> a \<notin> set zs" for a using dist by auto
  have apart: "ys \<noteq> [] \<Longrightarrow> last ys \<notin> set zs" "zs \<noteq> [] \<Longrightarrow> hd zs \<notin> set ys"
    using sep [of "last ys"] sep [of "hd zs"] last_in_set hd_in_set by blast+
  have ne: "ys \<noteq> [] \<Longrightarrow> hd ys \<noteq> item" "ys \<noteq> [] \<Longrightarrow> last ys \<noteq> item" "zs \<noteq> [] \<Longrightarrow> hd zs \<noteq> item"
    "zs \<noteq> [] \<Longrightarrow> last zs \<noteq> item"
    using dist by (auto simp: neq_Nil_conv) (metis last_in_set)+
  have "dseg ?h3 None ys (head ?l) ?p (nxt h item)"
  proof (cases "ys = []")
    case False
    have "dseg ?h1 None ys (head l) ?p (Some item)"
      using parts(1) dist apart by (subst dseg_frame) auto
    then have "dseg ?h2 None ys (head l) ?p (nxt h item)"
      using dseg_set_next [of ?h1] False dist by simp
    then show ?thesis
      using dist False by (subst dseg_frame) auto
  qed simp
  moreover have "dseg ?h3 ?p zs (nxt h item) (tail ?l) None"
  proof (cases "zs = []")
    case False
    have "dseg ?h1 ?p zs (nxt h item) (tail l) None"
      using dseg_set_prev [OF parts(3)] False dist by simp
    then show ?thesis
      using dist False apart by (subst dseg_frame) auto
  qed (simp add: nxt)
  ultimately have "represents (?l, ?h3) (ys @ zs)"
    using dist by (auto simp: represents_def dseg_append)
  moreover have "list_remove s item = Some (?l, ?h3)"
    using parts(2) ne
    by (cases "ys = []"; cases "zs = []")
      (simp_all add: s list_remove_def Let_def nxt head tail list_head.equality)
  ultimately show ?thesis by blast
qed

lemma list_insert_rep:
  assumes rep: "represents s (ys @ a # zs)" and fresh: "item \<notin> set (ys @ a # zs)"
  shows "represents (list_insert s (Some a) item) (ys @ a # item # zs)"
proof -
  obtain l h where s: "s = (l, h)" by (cases s)
  from rep have dist: "distinct (ys @ a # zs)"
    and d: "dseg h None (ys @ a # zs) (head l) (tail l) None"
    by (simp_all add: represents_def s)
  note parts = dseg_split [OF d]
  let ?h1 = "if zs = [] then h else h\<lparr>prv := (prv h)(hd zs := Some item)\<rparr>"
  let ?h = "?h1\<lparr>nxt := (nxt h)(item := nxt h a, a := Some item), prv := (prv ?h1)(item := Some a)\<rparr>"
  let ?l = "if zs = [] then l\<lparr>tail := Some item\<rparr> else l"
  have tail: "tail l = (if zs = [] then Some a else Some (last zs))"
    and nxt: "nxt h a = (if zs = [] then None else Some (hd zs))"
    using dseg_last [OF parts(3)] dseg_first [OF parts(3)] by simp_all
  have sep: "b \<in> set zs \<Longrightarrow> b \<noteq> a \<and> b \<noteq> item \<and> b \<notin> set ys" for b using dist fresh by auto
  have zs: "zs \<noteq> [] \<Longrightarrow> hd zs \<noteq> a \<and> hd zs \<noteq> item \<and> hd zs \<notin> set ys"
      "zs \<noteq> [] \<Longrightarrow> last zs \<noteq> a"
    using sep [of "hd zs"] sep [of "last zs"] hd_in_set last_in_set by blast+
  have ai: "a \<noteq> item" "a \<notin> set ys" "item \<notin> set ys" using dist fresh by auto
  have "dseg ?h None ys (head l) (if ys = [] then None else Some (last ys)) (Some a)"
    using parts(1) zs ai by (subst dseg_frame) auto
  moreover have "dseg ?h (Some item) zs (nxt h a) (tail ?l) None"
  proof (cases "zs = []")
    case False
    then have "dseg ?h1 (Some item) zs (nxt h a) (tail l) None"
      using dseg_set_prev [OF parts(3)] dist by simp
    then show ?thesis using sep False by (subst dseg_frame) auto
  qed (simp add: nxt)
  ultimately have "represents (?l, ?h) (ys @ a # item # zs)"
    using dist fresh zs ai parts(2) by (auto simp: represents_def dseg_append)
  moreover have "list_insert s (Some a) item = (?l, ?h)"
    using zs ai
    by (cases "zs = []") (simp_all add: s list_insert_def Let_def nxt tail fun_upd_twist)
  ultimately show ?thesis by simp
qed

lemma list_pop_rep:
  "represents s [] \<Longrightarrow> list_pop s = Some (None, s)"
  "represents s (a # xs) \<Longrightarrow> \<exists>s'. list_pop s = Some (Some a, s') \<and> represents s' xs"
  using list_remove_rep [of s "[]" a xs] by (auto simp: list_pop_def represents_def)

lemma list_walk_dseg: "dseg h p xs x l None \<Longrightarrow> list_walk h x = Some xs"
proof (induction xs arbitrary: p x)
  case Nil
  then show ?case by (simp add: list_walk.simps)
next
  case (Cons a xs)
  then show ?case by (subst list_walk.simps) auto
qed

lemma list_for_each_rep: "represents s xs \<Longrightarrow> list_for_each s = Some xs"
  by (auto simp: represents_def list_for_each_def intro: list_walk_dseg)

lemma represents_unique: "represents s xs \<Longrightarrow> represents s ys \<Longrightarrow> xs = ys"
  using list_for_each_rep [of s xs] list_for_each_rep [of s ys] by simp

lemma represents_next:
  "represents s (ys @ a # zs) \<Longrightarrow> nxt (snd s) a = (if zs = [] then None else Some (hd zs))"
  using dseg_split(3) dseg_first by (fastforce simp: represents_def)

lemma list_walk_safe_remove:
  assumes "represents s (ys @ zs)"
  shows "\<exists>s'. list_walk_safe (\<lambda>a s. if P a then list_remove s a else Some s) s
      (if zs = [] then None else Some (hd zs)) = Some s' \<and>
    represents s' (ys @ filter (\<lambda>a. \<not> P a) zs)"
  using assms
proof (induction zs arbitrary: ys s)
  case Nil
  then show ?case by (simp add: list_walk_safe.simps)
next
  case (Cons a zs)
  let ?body = "\<lambda>a s. if P a then list_remove s a else Some s"
  let ?first = "if zs = [] then None else Some (hd zs)"
  have step: "list_walk_safe ?body s (Some a) =
      Option.bind (?body a s) (\<lambda>s'. list_walk_safe ?body s' ?first)"
    by (subst list_walk_safe.simps) (simp add: represents_next [OF Cons.prems] Let_def)
  show ?case
  proof (cases "P a")
    case True
    then obtain t where "list_remove s a = Some t" "represents t (ys @ zs)"
      using list_remove_rep [OF Cons.prems] by blast
    with True Cons.IH [of t ys] step show ?thesis by simp
  next
    case False
    with Cons.IH [of s "ys @ [a]"] Cons.prems step show ?thesis by simp
  qed
qed

lemma list_for_each_safe_remove:
  assumes "represents s xs"
  shows "\<exists>s'. list_for_each_safe (\<lambda>a s. if P a then list_remove s a else Some s) s = Some s' \<and>
    represents s' (filter (\<lambda>a. \<not> P a) xs)"
proof -
  have "head (fst s) = (if xs = [] then None else Some (hd xs))"
    using assms dseg_first by (fastforce simp: represents_def)
  with list_walk_safe_remove [of s "[]" xs P] assms show ?thesis
    by (simp add: list_for_each_safe_def)
qed

lemma list_init_rep: "represents (list_init, h) []"
  by (simp add: represents_def list_init_def)

lemma represents_distinct: "represents s xs \<Longrightarrow> distinct xs"
  by (simp add: represents_def)

interpretation qlist: linked_seq represents list_append list_remove list_for_each
  by unfold_locales
    (fact represents_distinct list_append_rep list_remove_rep list_for_each_rep)+

section \<open>Properties\<close>


definition three_items :: lstate where
  "three_items = fold (\<lambda>a s. list_append s a) [1, 2, 3] (list_init, \<lparr>nxt = \<lambda>_. None, prv = \<lambda>_. None\<rparr>)"

lemma three_items_rep: "represents three_items [1, 2, 3]"
  unfolding three_items_def
  using qlist.append_all_rep [OF list_init_rep, of "[1, 2, 3]"] by simp


text \<open>
  C6. Removing every item that satisfies a condition from within
  \<open>list_for_each_safe\<close> ends, follows no stale pointer, and leaves exactly the other items in order.
\<close>

theorem list_safe_removal:
  assumes "represents s xs"
  shows "\<exists>s'. list_for_each_safe (\<lambda>a s. if P a then list_remove s a else Some s) s = Some s' \<and>
    list_for_each s' = Some (filter (\<lambda>a. \<not> P a) xs)"
  using list_for_each_safe_remove [OF assms, of P] list_for_each_rep by blast

theorem list_safe_removal_witness:
  "\<exists>s'. list_for_each_safe (\<lambda>a s. if odd a then list_remove s a else Some s) three_items = Some s' \<and>
    list_for_each s' = Some [2]"
  using list_safe_removal [OF three_items_rep, of odd] by simp

text \<open>
  \<open>list_prepend\<close> on a non-empty list does not set the \<open>prev\<close> pointer of the old
  first item: a forward walk sees the new list, but removing the old first item then stores through
  a null pointer.
\<close>

theorem list_prepend_unlinked:
  assumes rep: "represents s (a # xs)" and fresh: "item \<notin> set (a # xs)"
  shows "list_for_each (list_prepend s item) = Some (item # a # xs) \<and>
    list_remove (list_prepend s item) a = None"
proof -
  obtain l h where s: "s = (l, h)" by (cases s)
  let ?h = "h\<lparr>prv := (prv h)(item := None), nxt := (nxt h)(item := Some a)\<rparr>"
  have d: "dseg h None (a # xs) (Some a) (tail l) None" and l: "head l = Some a"
    using rep by (auto simp: represents_def s)
  have p: "list_prepend s item = (l\<lparr>head := Some item\<rparr>, ?h)"
    by (simp add: s list_prepend_def l Let_def)
  have "dseg ?h None (a # xs) (Some a) (tail l) None"
    using d fresh by (subst dseg_frame) auto
  then have "list_walk ?h (Some a) = Some (a # xs)" by (rule list_walk_dseg)
  then have "list_walk ?h (Some item) = Some (item # a # xs)"
    by (subst list_walk.simps) simp
  moreover have "a \<noteq> item" "prv h a = None" using d fresh by auto
  moreover have "nxt h a \<noteq> Some a"
    using represents_next [of s "[]" a xs] represents_distinct [OF rep] rep s by (auto simp: neq_Nil_conv)
  ultimately have "list_remove (list_prepend s item) a = None"
      and "list_walk ?h (Some item) = Some (item # a # xs)"
    by (auto simp: p list_remove_def Let_def split: option.splits)
  then show ?thesis by (simp add: list_for_each_def p)
qed

theorem list_prepend_unlinked_witness:
  "list_for_each (list_prepend three_items 9) = Some [9, 1, 2, 3] \<and>
   list_remove (list_prepend three_items 9) 1 = None"
  using list_prepend_unlinked [OF three_items_rep, of 9] by simp

end
