(* ===== verification/Waiter.thy ===== *)
theory Waiter
  imports QList
begin

text \<open>
  The event loop of \<open>qrtr/src/waiter.c\<close>: tickets for file descriptors and timeouts in a list, a pollset
  sized for them, and \<open>waiter_wait\<close>, which polls and fires the callbacks of the tickets that became
  ready. A ticket is an address; \<open>tk\<close> gives its fields. The list of tickets is the sequence that
  \<open>QList\<close> shows its pointers to represent. Allocation results, \<open>poll\<close> and the clock are arguments.
  \<open>None\<close> is a use of a null pollset or a store beyond the end of the pollset. Callbacks may change the
  fields of tickets and a state of their own; they do not add or delete tickets.
\<close>

section \<open>Pollset\<close>

record pollset =
  nfds :: nat
  cause :: int
  pfds :: "int list"

definition pollset_create :: "nat \<Rightarrow> pollset" where
  "pollset_create count = \<lparr>nfds = 0, cause = 0, pfds = replicate count 0\<rparr>"

definition pollset_reset :: "pollset \<Rightarrow> pollset" where
  "pollset_reset ps = ps\<lparr>nfds := 0\<rparr>"

definition pollset_add_fd :: "pollset \<Rightarrow> int \<Rightarrow> pollset option" where
  "pollset_add_fd ps fd =
     (if nfds ps < length (pfds ps)
      then Some (ps\<lparr>pfds := (pfds ps)[nfds ps := fd], nfds := nfds ps + 1\<rparr>)
      else None)"

text \<open>
  \<open>poll fds ms\<close> gives the result of \<open>poll\<close> and, per descriptor, whether \<open>POLLERR\<close> or \<open>POLLIN\<close> is among
  the returned events.
\<close>

type_synonym poll = "int list \<Rightarrow> int \<Rightarrow> int \<times> bool list"

fun first_ready :: "nat \<Rightarrow> bool list \<Rightarrow> int" where
  "first_ready i [] = -1"
| "first_ready i (r # rs) = (if r then int i else first_ready (i + 1) rs)"

definition pollset_wait :: "poll \<Rightarrow> pollset \<Rightarrow> int \<Rightarrow> int \<times> pollset" where
  "pollset_wait poll ps ms =
     (let (rc, revents) = poll (take (nfds ps) (pfds ps)) ms in
      if rc \<le> 0 then (rc, ps)
      else (rc, ps\<lparr>cause := first_ready 0 (take (nfds ps) revents)\<rparr>))"

definition pollset_cause_fd :: "pollset \<Rightarrow> int \<Rightarrow> bool" where
  "pollset_cause_fd ps fd \<longleftrightarrow> 0 \<le> cause ps \<and> pfds ps ! nat (cause ps) = fd"

section \<open>Tickets\<close>

datatype waiter_type = WATCH_TYPE_NULL | WATCH_TYPE_FD | WATCH_TYPE_TIMEOUT

text \<open>\<open>targ\<close> is the union of \<open>filedes\<close> and \<open>interval\<close>; \<open>callback\<close> names a registered function.\<close>

record waiter_ticket =
  ttype :: waiter_type
  targ :: u32
  callback :: "nat option"
  start :: u64
  updated :: bool

abbreviation filedes :: "waiter_ticket \<Rightarrow> int" where "filedes t \<equiv> sint (targ t)"
abbreviation interval :: "waiter_ticket \<Rightarrow> u64" where "interval t \<equiv> ucast (targ t)"

record waiter =
  tickets :: "nat list"
  tk :: "nat \<Rightarrow> waiter_ticket"
  pollset :: "pollset option"
  wcount :: nat

definition zero_ticket :: waiter_ticket where
  "zero_ticket = \<lparr>ttype = WATCH_TYPE_NULL, targ = 0, callback = None, start = 0, updated = False\<rparr>"

definition waiter_create :: "(nat \<Rightarrow> waiter_ticket) \<Rightarrow> waiter" where
  "waiter_create heap = \<lparr>tickets = [], tk = heap, pollset = None, wcount = 0\<rparr>"

definition set_ticket :: "nat \<Rightarrow> (waiter_ticket \<Rightarrow> waiter_ticket) \<Rightarrow> waiter \<Rightarrow> waiter" where
  "set_ticket t f w = w\<lparr>tk := (tk w)(t := f (tk w t))\<rparr>"

definition waiter_ticket_set_null :: "nat \<Rightarrow> waiter \<Rightarrow> waiter" where
  "waiter_ticket_set_null t = set_ticket t (ttype_update (\<lambda>_. WATCH_TYPE_NULL))"

definition waiter_ticket_set_fd :: "nat \<Rightarrow> int \<Rightarrow> waiter \<Rightarrow> waiter" where
  "waiter_ticket_set_fd t fd = set_ticket t (\<lambda>k. k\<lparr>ttype := WATCH_TYPE_FD, targ := word_of_int fd\<rparr>)"

definition waiter_ticket_set_timeout :: "u64 \<Rightarrow> nat \<Rightarrow> u32 \<Rightarrow> waiter \<Rightarrow> waiter" where
  "waiter_ticket_set_timeout now t ms =
     set_ticket t (\<lambda>k. k\<lparr>ttype := WATCH_TYPE_TIMEOUT, targ := ms, start := now\<rparr>)"

text \<open>
  \<open>new\<close> is the address \<open>calloc\<close> returns for the ticket, \<open>ps_ok\<close> whether it provides the new pollset.
\<close>

definition waiter_add_null :: "nat option \<Rightarrow> bool \<Rightarrow> waiter \<Rightarrow> nat option \<times> waiter" where
  "waiter_add_null new ps_ok w =
     (case new of
        None \<Rightarrow> (None, w)
      | Some t \<Rightarrow>
          let w = w\<lparr>tk := (tk w)(t := zero_ticket), tickets := tickets w @ [t]\<rparr> in
          if wcount w mod 32 = 0 then
            let w = w\<lparr>pollset := if ps_ok then Some (pollset_create (wcount w + 33)) else None\<rparr> in
            if pollset w = None then (None, w)
            else (Some t, waiter_ticket_set_null t (w\<lparr>wcount := wcount w + 1\<rparr>))
          else (Some t, waiter_ticket_set_null t (w\<lparr>wcount := wcount w + 1\<rparr>)))"

definition waiter_add_fd :: "nat option \<Rightarrow> bool \<Rightarrow> waiter \<Rightarrow> int \<Rightarrow> nat option \<times> waiter" where
  "waiter_add_fd new ps_ok w fd =
     (case waiter_add_null new ps_ok w of
        (None, w) \<Rightarrow> (None, w)
      | (Some t, w) \<Rightarrow> (Some t, waiter_ticket_set_fd t fd w))"

definition waiter_add_timeout ::
    "nat option \<Rightarrow> bool \<Rightarrow> u64 \<Rightarrow> waiter \<Rightarrow> u32 \<Rightarrow> nat option \<times> waiter" where
  "waiter_add_timeout new ps_ok now w ms =
     (case waiter_add_null new ps_ok w of
        (None, w) \<Rightarrow> (None, w)
      | (Some t, w) \<Rightarrow> (Some t, waiter_ticket_set_timeout now t ms w))"

definition waiter_ticket_delete :: "nat \<Rightarrow> waiter \<Rightarrow> waiter" where
  "waiter_ticket_delete t w = w\<lparr>tickets := remove1 t (tickets w), wcount := wcount w - 1\<rparr>"

definition waiter_ticket_callback :: "nat \<Rightarrow> nat option \<Rightarrow> waiter \<Rightarrow> waiter" where
  "waiter_ticket_callback t fn = set_ticket t (callback_update (\<lambda>_. fn))"

definition waiter_ticket_check :: "waiter_ticket \<Rightarrow> int" where
  "waiter_ticket_check k = (if updated k then 0 else -1)"

definition waiter_ticket_clear :: "nat \<Rightarrow> waiter \<Rightarrow> int \<times> waiter" where
  "waiter_ticket_clear t w = (waiter_ticket_check (tk w t), set_ticket t (updated_update (\<lambda>_. False)) w)"

text \<open>The tickets \<open>waiter_destroy\<close> frees, and whether it frees a pollset.\<close>

definition waiter_destroy :: "waiter \<Rightarrow> nat list \<times> bool" where
  "waiter_destroy w = (tickets w, pollset w \<noteq> None)"

section \<open>Waiting\<close>

fun sync_after :: "u32 \<Rightarrow> u64 \<Rightarrow> nat list \<Rightarrow> (nat \<Rightarrow> waiter_ticket) \<Rightarrow> nat \<Rightarrow> waiter_ticket" where
  "sync_after iv st [] k = k"
| "sync_after iv st (n # ns) k =
     (if ttype (k n) \<noteq> WATCH_TYPE_TIMEOUT then sync_after iv st ns k
      else if targ (k n) = iv then k(n := (k n)\<lparr>start := st\<rparr>)
      else sync_after iv st ns k)"

fun sync_loop :: "nat list \<Rightarrow> (nat \<Rightarrow> waiter_ticket) \<Rightarrow> nat \<Rightarrow> waiter_ticket" where
  "sync_loop [] k = k"
| "sync_loop (n # ns) k =
     (if ttype (k n) \<noteq> WATCH_TYPE_TIMEOUT then sync_loop ns k
      else sync_loop ns (sync_after (targ (k n)) (start (k n)) ns k))"

definition waiter_synchronize :: "waiter \<Rightarrow> waiter" where
  "waiter_synchronize w = w\<lparr>tk := sync_loop (tickets w) (tk w)\<rparr>"

fun collect :: "(nat \<Rightarrow> waiter_ticket) \<Rightarrow> nat list \<Rightarrow> pollset \<Rightarrow> u64 \<Rightarrow> (pollset \<times> u64) option" where
  "collect k [] ps term_time = Some (ps, term_time)"
| "collect k (n # ns) ps term_time =
     (case ttype (k n) of
        WATCH_TYPE_TIMEOUT \<Rightarrow>
          collect k ns ps (if start (k n) + interval (k n) < term_time
                           then start (k n) + interval (k n) else term_time)
      | WATCH_TYPE_FD \<Rightarrow>
          (case pollset_add_fd ps (filedes (k n)) of
             None \<Rightarrow> None
           | Some ps \<Rightarrow> collect k ns ps term_time)
      | WATCH_TYPE_NULL \<Rightarrow> collect k ns ps term_time)"

text \<open>\<open>fns\<close> gives the callback functions, on a state of the client and the tickets.\<close>

type_synonym 's callbacks =
  "nat \<Rightarrow> nat \<Rightarrow> 's \<times> (nat \<Rightarrow> waiter_ticket) \<Rightarrow> 's \<times> (nat \<Rightarrow> waiter_ticket)"

definition ready :: "u64 \<Rightarrow> int \<Rightarrow> pollset \<Rightarrow> waiter_ticket \<Rightarrow> bool" where
  "ready now rc ps k \<longleftrightarrow>
     (case ttype k of
        WATCH_TYPE_TIMEOUT \<Rightarrow> start k + interval k \<le> now
      | WATCH_TYPE_FD \<Rightarrow> rc \<noteq> 0 \<and> pollset_cause_fd ps (filedes k)
      | WATCH_TYPE_NULL \<Rightarrow> False)"

definition fire_one :: "'s callbacks \<Rightarrow> u64 \<Rightarrow> int \<Rightarrow> pollset \<Rightarrow> nat \<Rightarrow>
    's \<times> (nat \<Rightarrow> waiter_ticket) \<Rightarrow> 's \<times> (nat \<Rightarrow> waiter_ticket)" where
  "fire_one fns now rc ps n sk =
     (let (s, k) = sk;
          due = ready now rc ps (k n);
          fresh = due \<and> \<not> updated (k n);
          k = (if due \<and> ttype (k n) = WATCH_TYPE_TIMEOUT then k(n := (k n)\<lparr>start := now\<rparr>) else k) in
      if fresh then
        let k = k(n := (k n)\<lparr>updated := True\<rparr>) in
        (case callback (k n) of None \<Rightarrow> (s, k) | Some f \<Rightarrow> fns f n (s, k))
      else (s, k))"

definition fire :: "'s callbacks \<Rightarrow> u64 \<Rightarrow> int \<Rightarrow> pollset \<Rightarrow> nat list \<Rightarrow>
    's \<times> (nat \<Rightarrow> waiter_ticket) \<Rightarrow> 's \<times> (nat \<Rightarrow> waiter_ticket)" where
  "fire fns now rc ps ns sk = fold (fire_one fns now rc ps) ns sk"

definition poll_timeout :: "u64 \<Rightarrow> u64 \<Rightarrow> int option" where
  "poll_timeout now term_time =
     (if term_time = -1 then Some (-1)
      else if term_time \<le> now then None
      else Some (uint (min (term_time - now) (2 ^ 31 - 1))))"

definition waiter_poll :: "poll \<Rightarrow> u64 \<Rightarrow> pollset \<Rightarrow> u64 \<Rightarrow> int \<times> pollset" where
  "waiter_poll poll now ps term_time =
     (case poll_timeout now term_time of None \<Rightarrow> (0, ps) | Some ms \<Rightarrow> pollset_wait poll ps ms)"

text \<open>\<open>now0\<close> and \<open>now1\<close>: the clock before the poll (read only if some timeout is set) and after it.\<close>

definition waiter_wait ::
    "'s callbacks \<Rightarrow> poll \<Rightarrow> u64 \<Rightarrow> u64 \<Rightarrow> 's \<Rightarrow> waiter \<Rightarrow> ('s \<times> waiter) option" where
  "waiter_wait fns poll now0 now1 s w =
     (case pollset w of
        None \<Rightarrow> None
      | Some ps \<Rightarrow>
          (case collect (tk w) (tickets w) (pollset_reset ps) (-1) of
             None \<Rightarrow> None
           | Some (ps, term_time) \<Rightarrow>
               let (rc, ps) = waiter_poll poll now0 ps term_time;
                   w = w\<lparr>pollset := Some ps\<rparr> in
               if rc < 0 then Some (s, w)
               else
                 let (s, k) = fire fns now1 rc ps (tickets w) (s, tk w) in
                 Some (s, w\<lparr>tk := k\<rparr>)))"

text \<open>\<open>t\<close> is the address of the ticket on the stack, \<open>now\<close> the clock when it is set.\<close>

definition waiter_wait_timeout ::
    "'s callbacks \<Rightarrow> poll \<Rightarrow> u64 \<Rightarrow> u64 \<Rightarrow> u64 \<Rightarrow> nat \<Rightarrow> 's \<Rightarrow> waiter \<Rightarrow> u32 \<Rightarrow>
       (int \<times> 's \<times> waiter) option" where
  "waiter_wait_timeout fns poll now now0 now1 t s w ms =
     (let w = w\<lparr>tk := (tk w)(t := zero_ticket)\<rparr>;
          w = waiter_ticket_set_timeout now t ms w;
          w = w\<lparr>tickets := tickets w @ [t], wcount := wcount w + 1\<rparr> in
      case waiter_wait fns poll now0 now1 s w of
        None \<Rightarrow> None
      | Some (s, w) \<Rightarrow>
          let rc = waiter_ticket_check (tk w t) in
          Some (- (if rc = 0 then 1 else 0), s,
                w\<lparr>tickets := remove1 t (tickets w), wcount := wcount w - 1\<rparr>))"

section \<open>What is polled\<close>

abbreviation fd_tickets :: "(nat \<Rightarrow> waiter_ticket) \<Rightarrow> nat list \<Rightarrow> nat list" where
  "fd_tickets k ns \<equiv> filter (\<lambda>n. ttype (k n) = WATCH_TYPE_FD) ns"

abbreviation timeout_tickets :: "(nat \<Rightarrow> waiter_ticket) \<Rightarrow> nat list \<Rightarrow> nat list" where
  "timeout_tickets k ns \<equiv> filter (\<lambda>n. ttype (k n) = WATCH_TYPE_TIMEOUT) ns"

definition deadline :: "waiter_ticket \<Rightarrow> u64" where
  "deadline k = start k + interval k"

lemma collect_spec:
  assumes "nfds ps + length (fd_tickets k ns) \<le> length (pfds ps)"
  shows "\<exists>ps'. collect k ns ps tt = Some (ps', fold min (map (deadline \<circ> k) (timeout_tickets k ns)) tt) \<and>
    nfds ps' = nfds ps + length (fd_tickets k ns) \<and> length (pfds ps') = length (pfds ps) \<and>
    take (nfds ps') (pfds ps') = take (nfds ps) (pfds ps) @ map (filedes \<circ> k) (fd_tickets k ns)"
  using assms
proof (induction ns arbitrary: ps tt)
  case (Cons n ns)
  show ?case
  proof (cases "ttype (k n)")
    case WATCH_TYPE_FD
    let ?ps = "ps\<lparr>pfds := (pfds ps)[nfds ps := filedes (k n)], nfds := nfds ps + 1\<rparr>"
    have room: "nfds ps < length (pfds ps)" using Cons.prems WATCH_TYPE_FD by simp
    then have add: "pollset_add_fd ps (filedes (k n)) = Some ?ps" by (simp add: pollset_add_fd_def)
    have "take (nfds ?ps) (pfds ?ps) = take (nfds ps) (pfds ps) @ [filedes (k n)]"
      using room by (simp add: take_Suc_conv_app_nth)
    with Cons.IH [of ?ps tt] Cons.prems WATCH_TYPE_FD add show ?thesis by simp
  next
    case WATCH_TYPE_TIMEOUT
    with Cons.IH [of ps "min (deadline (k n)) tt"] Cons.prems show ?thesis
      by (auto simp: deadline_def min_def not_le not_less)
  next
    case WATCH_TYPE_NULL
    with Cons.IH [of ps tt] Cons.prems show ?thesis by simp
  qed
qed simp

lemma fold_min_le: "(fold min xs a :: 'a :: linorder) \<le> a" "x \<in> set xs \<Longrightarrow> fold min xs a \<le> x"
proof (induction xs arbitrary: a)
  case (Cons y xs)
  { case 1 show ?case using Cons(1) [of "min y a"] by (simp add: min.coboundedI2 order_trans) }
  { case 2 show ?case
    using Cons(1) [of "min y a"] Cons(2) [of "min y a"] 2 by (auto intro: order_trans) }
qed simp_all

lemma fold_min_mem: "(fold min xs a :: 'a :: linorder) = a \<or> fold min xs a \<in> set xs"
proof (induction xs arbitrary: a)
  case (Cons y xs)
  then show ?case using Cons [of "min y a"] by (auto simp: min_def split: if_splits)
qed simp

lemma poll_timeout_bound:
  assumes "poll_timeout now tt = Some ms"
  shows "ms = -1 \<and> tt = -1 \<or> 0 < ms \<and> ms < 2 ^ 31 \<and> uint now + ms \<le> uint tt"
proof (cases "tt = -1")
  case False
  with assms have ms: "ms = uint (min (tt - now) (2 ^ 31 - 1))" and lt: "now < tt"
    by (auto simp: poll_timeout_def split: if_splits)
  have d: "uint (tt - now) = uint tt - uint now" 
    using lt by (simp add: uint_sub_if' word_less_def)
  have "uint (2 ^ 31 - 1 :: u64) = 2 ^ 31 - 1" by simp
  then have "ms = min (uint tt - uint now) (2 ^ 31 - 1)"
    using ms d by (simp add: min_def word_le_def)
  moreover have "uint now < uint tt" using lt by (simp add: word_less_def)
  ultimately show ?thesis by auto
qed (use assms in \<open>simp add: poll_timeout_def\<close>)

section \<open>Synchronising timeouts\<close>

lemma sync_after_other: "x \<notin> set ns \<Longrightarrow> sync_after iv st ns k x = k x"
  by (induction ns) auto

lemma sync_after_fields [simp]:
  "ttype (sync_after iv st ns k x) = ttype (k x)" "targ (sync_after iv st ns k x) = targ (k x)"
  by (induction ns) auto

lemma sync_after_start: "targ (k x) \<noteq> iv \<Longrightarrow> sync_after iv st ns k x = k x"
  by (induction ns) auto

lemma sync_after_first:
  assumes "filter (\<lambda>n. ttype (k n) = WATCH_TYPE_TIMEOUT \<and> targ (k n) = iv) ns = m # ms"
  shows "sync_after iv st ns k = k(m := (k m)\<lparr>start := st\<rparr>)"
  using assms by (induction ns) (auto split: if_splits)

lemma sync_loop_fields [simp]:
  "ttype (sync_loop ns k x) = ttype (k x)" "targ (sync_loop ns k x) = targ (k x)"
  by (induction ns arbitrary: k) auto

lemma sync_loop_other: "x \<notin> set ns \<Longrightarrow> sync_loop ns k x = k x"
  by (induction ns arbitrary: k) (auto simp: sync_after_other)

lemma sync_loop_head: "n \<notin> set ns \<Longrightarrow> sync_loop (n # ns) k n = k n"
  by (auto simp: sync_loop_other sync_after_other)

text \<open>All timeouts of one interval get the start of the first of them.\<close>

lemma sync_loop_spec:
  assumes "distinct ns" "filter (\<lambda>n. ttype (k n) = WATCH_TYPE_TIMEOUT \<and> targ (k n) = iv) ns = m # ms"
    "x \<in> set (m # ms)"
  shows "start (sync_loop ns k x) = start (k m)"
  using assms
proof (induction ns arbitrary: k m ms x)
  case (Cons n ns)
  let ?P = "\<lambda>k n. ttype (k n) = WATCH_TYPE_TIMEOUT \<and> targ (k n) = iv"
  show ?case
  proof (cases "?P k n")
    case False
    define k' where "k' = (if ttype (k n) = WATCH_TYPE_TIMEOUT
      then sync_after (targ (k n)) (start (k n)) ns k else k)"
    have step: "sync_loop (n # ns) k = sync_loop ns k'" by (simp add: k'_def)
    have "filter (?P k) ns = m # ms" using Cons.prems(2) False by simp
    then have fil: "filter (?P k') ns = m # ms" by (simp add: k'_def)
    have "?P k m" using Cons.prems(2) by (auto simp: filter_eq_Cons_iff split: if_splits)
    then have "k' m = k m" using False by (auto simp: k'_def sync_after_start)
    with Cons.IH [OF _ fil Cons.prems(3)] Cons.prems(1) step show ?thesis by simp
  next
    case True
    then have nm: "m = n" "filter (?P k) ns = ms" using Cons.prems(2) by auto
    show ?thesis
    proof (cases "x = n")
      case True
      with Cons.prems(1) nm sync_loop_head [of n ns k] show ?thesis by simp
    next
      case False
      then obtain m2 ms2 where ms: "ms = m2 # ms2" using Cons.prems(3) nm by (cases ms) auto
      define k' where "k' = k(m2 := (k m2)\<lparr>start := start (k n)\<rparr>)"
      have "sync_after (targ (k n)) (start (k n)) ns k = k'"
        using sync_after_first [of k "targ (k n)" ns m2 ms2 "start (k n)"] nm(2) ms True
        by (simp add: k'_def)
      then have step: "sync_loop (n # ns) k = sync_loop ns k'" using True by simp
      have "?P k' = ?P k" by (rule ext) (simp add: k'_def)
      then have "filter (?P k') ns = m2 # ms2" using nm(2) ms by (simp only:)
      then have "start (sync_loop ns k' x) = start (k' m2)"
        using Cons.prems(1,3) False ms nm by (intro Cons.IH [of k' m2 ms2]) auto
      moreover have "start (k' m2) = start (k m)" by (simp add: k'_def nm)
      ultimately show ?thesis by (simp only: step)
    qed
  qed
qed simp

section \<open>The state machine of a client and its tickets\<close>

text \<open>
  A client holds the tickets that were returned to it. It adds and deletes tickets, changes the
  tickets it holds, and waits; callbacks change only tickets the client holds.
\<close>

definition callbacks_ok :: "'s callbacks \<Rightarrow> nat set \<Rightarrow> bool" where
  "callbacks_ok fns H \<longleftrightarrow> (\<forall>f n s k t. t \<notin> H \<longrightarrow> snd (fns f n (s, k)) t = k t)"

definition held :: "nat option \<Rightarrow> nat set" where
  "held r = (case r of None \<Rightarrow> {} | Some t \<Rightarrow> {t})"

inductive waiter_step :: "nat set \<times> waiter \<Rightarrow> nat set \<times> waiter \<Rightarrow> bool" where
  step_add_null: "held new \<inter> set (tickets w) = {} \<Longrightarrow> waiter_add_null new ps_ok w = (r, w') \<Longrightarrow>
    waiter_step (H, w) (H \<union> held r, w')"
| step_add_fd: "held new \<inter> set (tickets w) = {} \<Longrightarrow> waiter_add_fd new ps_ok w fd = (r, w') \<Longrightarrow>
    waiter_step (H, w) (H \<union> held r, w')"
| step_add_timeout: "held new \<inter> set (tickets w) = {} \<Longrightarrow> waiter_add_timeout new ps_ok now w ms = (r, w') \<Longrightarrow>
    waiter_step (H, w) (H \<union> held r, w')"
| step_delete: "t \<in> H \<Longrightarrow> waiter_step (H, w) (H - {t}, waiter_ticket_delete t w)"
| step_set_null: "t \<in> H \<Longrightarrow> waiter_step (H, w) (H, waiter_ticket_set_null t w)"
| step_set_fd: "t \<in> H \<Longrightarrow> waiter_step (H, w) (H, waiter_ticket_set_fd t fd w)"
| step_set_timeout: "t \<in> H \<Longrightarrow> waiter_step (H, w) (H, waiter_ticket_set_timeout now t ms w)"
| step_callback: "t \<in> H \<Longrightarrow> waiter_step (H, w) (H, waiter_ticket_callback t fn w)"
| step_clear: "t \<in> H \<Longrightarrow> waiter_step (H, w) (H, snd (waiter_ticket_clear t w))"
| step_synchronize: "waiter_step (H, w) (H, waiter_synchronize w)"
| step_wait: "callbacks_ok (fns :: unit callbacks) H \<Longrightarrow>
    waiter_wait fns poll now0 now1 () w = Some (s', w') \<Longrightarrow> waiter_step (H, w) (H, w')"

definition poll_room :: "pollset option \<Rightarrow> nat \<Rightarrow> bool" where
  "poll_room p n \<longleftrightarrow> (\<forall>ps. p = Some ps \<longrightarrow> n = 0 \<or> 32 * ((n - 1) div 32) + 33 \<le> length (pfds ps))"

definition waiter_inv :: "nat set \<times> waiter \<Rightarrow> bool" where
  "waiter_inv Hw \<longleftrightarrow> (let (H, w) = Hw in
     finite H \<and> distinct (tickets w) \<and> H \<subseteq> set (tickets w) \<and> wcount w = card H \<and>
     (\<forall>t\<in>set (tickets w) - H. ttype (tk w t) = WATCH_TYPE_NULL) \<and>
     poll_room (pollset w) (card H))"

lemma poll_room_mono: "poll_room p n \<Longrightarrow> m \<le> n \<Longrightarrow> poll_room p m"
proof -
  assume *: "poll_room p n" "m \<le> n"
  have "(m - 1) div 32 \<le> (n - 1) div 32" using *(2) by (intro div_le_mono) simp
  with * show ?thesis by (fastforce simp: poll_room_def)
qed

lemma poll_room_Suc:
  "poll_room p n \<Longrightarrow> n mod 32 \<noteq> 0 \<Longrightarrow> poll_room p (Suc n)"
  "n mod 32 = 0 \<Longrightarrow> poll_room (Some (pollset_create (n + 33))) (Suc n)"
proof -
  assume n: "n mod 32 \<noteq> 0" and r: "poll_room p n"
  then have "(n - 1) div 32 = n div 32" "n \<noteq> 0" by (cases n; simp add: div_Suc)+
  with r show "poll_room p (Suc n)" by (auto simp: poll_room_def)
next
  assume "n mod 32 = 0"
  then have "32 * (n div 32) = n" using mult_div_mod_eq [of 32 n] by simp
  then show "poll_room (Some (pollset_create (n + 33))) (Suc n)"
    by (simp add: poll_room_def pollset_create_def)
qed

lemma poll_room_cong: "poll_room (Some ps) n \<Longrightarrow> length (pfds ps') = length (pfds ps) \<Longrightarrow> poll_room (Some ps') n"
  by (simp add: poll_room_def)

definition waiter_init :: "nat set \<times> waiter \<Rightarrow> bool" where
  "waiter_init Hw \<longleftrightarrow> fst Hw = {} \<and> (\<exists>heap. snd Hw = waiter_create heap)"

lemma fire_one_other:
  assumes "callbacks_ok fns H" "t \<notin> H"
  shows "ttype (snd (fire_one fns now rc ps n sk) t) = ttype (snd sk t)"
    and "t \<noteq> n \<Longrightarrow> snd (fire_one fns now rc ps n sk) t = snd sk t"
  using assms by (cases sk, auto simp: fire_one_def callbacks_ok_def Let_def split: option.split)+

lemma fire_keeps:
  assumes "callbacks_ok fns H" "t \<notin> H"
  shows "ttype (snd (fire fns now rc ps ns sk) t) = ttype (snd sk t)"
  unfolding fire_def by (induction ns arbitrary: sk) (simp_all add: fire_one_other(1) [OF assms])

lemma collect_length: "collect k ns ps tt = Some (ps', tt') \<Longrightarrow> length (pfds ps') = length (pfds ps)"
  by (induction k ns ps tt rule: collect.induct)
    (auto simp: pollset_add_fd_def split: waiter_type.splits option.splits if_splits)

lemma pollset_wait_pfds [simp]: "pfds (snd (pollset_wait poll ps ms)) = pfds ps"
  by (simp add: pollset_wait_def split: prod.split)

lemma waiter_waitE:
  assumes "waiter_wait fns poll now0 now1 s w = Some (s', w')"
  obtains (failed) ps ps' and rc :: int where "pollset w = Some ps" "rc < 0" "s' = s" "w' = w\<lparr>pollset := Some ps'\<rparr>"
      "length (pfds ps') = length (pfds ps)"
  | (fired) ps ps' and rc :: int where "pollset w = Some ps" "0 \<le> rc" "length (pfds ps') = length (pfds ps)"
      "s' = fst (fire fns now1 rc ps' (tickets w) (s, tk w))"
      "w' = w\<lparr>pollset := Some ps', tk := snd (fire fns now1 rc ps' (tickets w) (s, tk w))\<rparr>"
proof -
  obtain ps where ps: "pollset w = Some ps" using assms by (auto simp: waiter_wait_def split: option.splits)
  obtain p1 tt where c: "collect (tk w) (tickets w) (pollset_reset ps) (-1) = Some (p1, tt)"
    using assms ps by (auto simp: waiter_wait_def split: option.splits)
  define r where "r = waiter_poll poll now0 p1 tt"
  have len: "length (pfds (snd r)) = length (pfds ps)"
    using collect_length [OF c] by (auto simp: r_def waiter_poll_def pollset_reset_def split: option.split)
  have "waiter_wait fns poll now0 now1 s w =
      (if fst r < 0 then Some (s, w\<lparr>pollset := Some (snd r)\<rparr>)
       else Some (fst (fire fns now1 (fst r) (snd r) (tickets w) (s, tk w)),
         w\<lparr>pollset := Some (snd r), tk := snd (fire fns now1 (fst r) (snd r) (tickets w) (s, tk w))\<rparr>))"
    unfolding waiter_wait_def r_def
    by (simp add: ps c Let_def case_prod_beta)
  with assms len ps failed [of ps "fst r" "snd r"] fired [of ps "fst r" "snd r"] show ?thesis
    by (auto split: if_splits)
qed

lemma waiter_wait_inv:
  assumes inv: "waiter_inv (H, w)" and cb: "callbacks_ok fns H"
    and wait: "waiter_wait fns poll now0 now1 s w = Some (s', w')"
  shows "waiter_inv (H, w')"
  using wait
proof (cases rule: waiter_waitE)
  case (failed ps ps' rc)
  with inv poll_room_cong [of ps _ ps'] show ?thesis by (simp add: waiter_inv_def)
next
  case (fired ps ps' rc)
  with inv poll_room_cong [of ps _ ps'] show ?thesis
    by (simp add: waiter_inv_def fire_keeps [OF cb])
qed

lemma waiter_add_null_inv:
  assumes inv: "waiter_inv (H, w)" and fresh: "held new \<inter> set (tickets w) = {}"
    and add: "waiter_add_null new ps_ok w = (r, w')"
  shows "waiter_inv (H \<union> held r, w')"
proof (cases new)
  case None
  with add inv show ?thesis by (simp add: waiter_add_null_def held_def)
next
  case (Some t)
  have t: "t \<notin> set (tickets w)" "t \<notin> H"
    using fresh inv Some by (auto simp: held_def waiter_inv_def)
  have i: "finite H" "wcount w = card H" "poll_room (pollset w) (card H)"
    using inv by (simp_all add: waiter_inv_def)
  note defs = waiter_add_null_def held_def Let_def zero_ticket_def
    waiter_ticket_set_null_def set_ticket_def
  consider "wcount w mod 32 \<noteq> 0" | "wcount w mod 32 = 0" "ps_ok" | "wcount w mod 32 = 0" "\<not> ps_ok"
    by blast
  then show ?thesis
  proof cases
    case 1
    with inv add Some t i poll_room_Suc(1) [of "pollset w" "card H"] show ?thesis
      by (auto simp: defs waiter_inv_def)
  next
    case 2
    with inv add Some t i poll_room_Suc(2) [of "card H"] show ?thesis
      by (auto simp: defs waiter_inv_def)
  next
    case 3
    with inv add Some t i show ?thesis
      by (auto simp: defs waiter_inv_def poll_room_def)
  qed
qed

lemma set_ticket_inv:
  "waiter_inv (H, w) \<Longrightarrow> t \<in> H \<Longrightarrow> waiter_inv (H, set_ticket t f w)"
  by (auto simp: waiter_inv_def set_ticket_def)

lemma waiter_add_inv:
  assumes "waiter_inv (H, w)" "held new \<inter> set (tickets w) = {}"
  shows "waiter_add_fd new ps_ok w fd = (r, w') \<Longrightarrow> waiter_inv (H \<union> held r, w')"
    and "waiter_add_timeout new ps_ok now w ms = (r, w') \<Longrightarrow> waiter_inv (H \<union> held r, w')"
proof -
  obtain r0 w0 where add: "waiter_add_null new ps_ok w = (r0, w0)" by fastforce
  have inv: "waiter_inv (H \<union> held r0, w0)" using assms add by (rule waiter_add_null_inv)
  show "waiter_add_fd new ps_ok w fd = (r, w') \<Longrightarrow> waiter_inv (H \<union> held r, w')"
    using inv by (cases r0)
      (auto simp: waiter_add_fd_def add held_def waiter_ticket_set_fd_def intro: set_ticket_inv)
  show "waiter_add_timeout new ps_ok now w ms = (r, w') \<Longrightarrow> waiter_inv (H \<union> held r, w')"
    using inv by (cases r0)
      (auto simp: waiter_add_timeout_def add held_def waiter_ticket_set_timeout_def intro: set_ticket_inv)
qed

lemma waiter_delete_inv:
  assumes inv: "waiter_inv (H, w)" and t: "t \<in> H"
  shows "waiter_inv (H - {t}, waiter_ticket_delete t w)"
  using assms poll_room_mono [of "pollset w" "card H" "card H - 1"]
  by (auto simp: waiter_inv_def waiter_ticket_delete_def)

lemmas waiter_set_defs = waiter_ticket_set_null_def waiter_ticket_set_fd_def
  waiter_ticket_set_timeout_def waiter_ticket_callback_def waiter_ticket_clear_def

lemma waiter_step_inv: "waiter_step Hw Hw' \<Longrightarrow> waiter_inv Hw \<Longrightarrow> waiter_inv Hw'"
proof (induction rule: waiter_step.induct)
  case (step_synchronize H w)
  then show ?case by (simp add: waiter_inv_def waiter_synchronize_def)
next
  case step_add_null
  then show ?case by (blast intro: waiter_add_null_inv)
next
  case step_add_fd
  then show ?case by (blast intro: waiter_add_inv(1))
next
  case step_add_timeout
  then show ?case by (blast intro: waiter_add_inv(2))
next
  case step_wait
  then show ?case by (blast intro: waiter_wait_inv)
next
  case step_delete
  then show ?case by (blast intro: waiter_delete_inv)
qed (simp_all add: waiter_set_defs set_ticket_inv)

interpretation waiting: invariant_system waiter_init waiter_step waiter_inv
proof
  show "waiter_inv s" if "waiter_init s" for s
    using that by (cases s) (auto simp: waiter_init_def waiter_inv_def waiter_create_def poll_room_def)
qed (rule waiter_step_inv)

lemma waiter_inv_room:
  assumes "waiter_inv (H, w)" "pollset w = Some ps"
  shows "length (fd_tickets (tk w) (tickets w)) \<le> length (pfds ps)"
proof -
  have "set (fd_tickets (tk w) (tickets w)) \<subseteq> H"
    using assms(1) by (force simp: waiter_inv_def)
  moreover have "distinct (fd_tickets (tk w) (tickets w))" "finite H" "wcount w = card H"
    using assms(1) by (auto simp: waiter_inv_def)
  ultimately have "length (fd_tickets (tk w) (tickets w)) \<le> wcount w"
    by (metis card_mono distinct_card)
  moreover have "wcount w = 0 \<or> wcount w \<le> 32 * ((wcount w - 1) div 32) + 33"
    using mult_div_mod_eq [of 32 "wcount w - 1"] mod_less_divisor [of 32 "wcount w - 1"] by linarith
  ultimately show ?thesis
    using assms by (auto simp: waiter_inv_def poll_room_def)
qed

lemma waiter_wait_returns:
  assumes "waiter_inv (H, w)" "pollset w = Some ps"
  shows "\<exists>s' w'. waiter_wait fns poll now0 now1 s w = Some (s', w')"
proof -
  have "nfds (pollset_reset ps) + length (fd_tickets (tk w) (tickets w)) \<le> length (pfds (pollset_reset ps))"
    using waiter_inv_room [OF assms] by (simp add: pollset_reset_def)
  from collect_spec [OF this, of "-1"] show ?thesis
    using assms(2) by (auto simp: waiter_wait_def Let_def split: prod.split)
qed

lemma fire_other:
  assumes "callbacks_ok fns H" "t \<notin> H" "t \<notin> set ns"
  shows "snd (fire fns now rc ps ns sk) t = snd sk t"
  using assms(3) unfolding fire_def
  by (induction ns arbitrary: sk) (simp_all add: fire_one_other(2) [OF assms(1,2)])

lemma fire_last_timeout:
  assumes "callbacks_ok fns H" "t \<notin> H" "t \<notin> set ns"
    "ttype (k t) = WATCH_TYPE_TIMEOUT" "callback (k t) = None" "\<not> updated (k t)"
  shows "updated (snd (fire fns now rc ps (ns @ [t]) (s, k)) t) \<longleftrightarrow> deadline (k t) \<le> now"
proof -
  obtain s1 k1 where f: "fire fns now rc ps ns (s, k) = (s1, k1)" by fastforce
  have "k1 t = k t" using fire_other [OF assms(1-3), of now rc ps "(s, k)"] f by simp
  with assms(4-) show ?thesis
    using f by (simp add: fire_def fire_one_def Let_def ready_def deadline_def)
qed

lemma waiter_wait_eq:
  assumes room: "length (fd_tickets (tk w) (tickets w)) \<le> length (pfds ps)" and ps: "pollset w = Some ps"
  obtains ps' tt where "collect (tk w) (tickets w) (pollset_reset ps) (-1) = Some (ps', tt)"
    "tt = fold min (map (deadline \<circ> tk w) (timeout_tickets (tk w) (tickets w))) (-1)"
    "take (nfds ps') (pfds ps') = map (filedes \<circ> tk w) (fd_tickets (tk w) (tickets w))"
    "waiter_wait fns poll now0 now1 s w =
      (let r = waiter_poll poll now0 ps' tt; f = fire fns now1 (fst r) (snd r) (tickets w) (s, tk w) in
       if fst r < 0 then Some (s, w\<lparr>pollset := Some (snd r)\<rparr>)
       else Some (fst f, w\<lparr>pollset := Some (snd r), tk := snd f\<rparr>))"
proof -
  have "nfds (pollset_reset ps) + length (fd_tickets (tk w) (tickets w)) \<le> length (pfds (pollset_reset ps))"
    using room by (simp add: pollset_reset_def)
  from collect_spec [OF this, of "-1"] obtain ps' where c:
    "collect (tk w) (tickets w) (pollset_reset ps) (-1) =
      Some (ps', fold min (map (deadline \<circ> tk w) (timeout_tickets (tk w) (tickets w))) (-1))"
    "take (nfds ps') (pfds ps') = map (filedes \<circ> tk w) (fd_tickets (tk w) (tickets w))"
    by (auto simp: pollset_reset_def)
  show ?thesis
    by (rule that [OF c(1) refl c(2)])
      (simp add: waiter_wait_def ps c(1) Let_def case_prod_beta)
qed

section \<open>Properties\<close>

text \<open>
  C16. However a client adds, changes and deletes its tickets, also when allocations
  fail: as long as the waiter has a pollset, \<open>waiter_wait\<close> returns without storing a descriptor
  beyond the end of the pollset, and the descriptors it polls are those of the descriptor tickets,
  in list order.
\<close>

theorem waiter_wait_safe:
  assumes "waiting.reach (H, w)" "pollset w = Some ps"
  shows "(\<exists>s' w'. waiter_wait fns poll now0 now1 s w = Some (s', w') \<and> tickets w' = tickets w) \<and>
    (\<exists>ps' tt. collect (tk w) (tickets w) (pollset_reset ps) (-1) = Some (ps', tt) \<and>
       take (nfds ps') (pfds ps') =
         map (filedes \<circ> tk w) (filter (\<lambda>n. ttype (tk w n) = WATCH_TYPE_FD) (tickets w)))"
proof -
  have "length (fd_tickets (tk w) (tickets w)) \<le> length (pfds ps)"
    using waiter_inv_room [OF waiting.reach_inv [OF assms(1)] assms(2)] .
  from this assms(2) show ?thesis
    by (rule waiter_wait_eq [where fns = fns and poll = poll and ?now0.0 = now0 and ?now1.0 = now1
          and s = s]) (auto simp: Let_def)
qed

definition one_fd :: "nat set \<times> waiter" where
  "one_fd = ({5}, snd (waiter_add_fd (Some 5) True (waiter_create (\<lambda>_. zero_ticket)) 3))"

lemma one_fd_reach: "waiting.reach one_fd"
proof -
  have "waiting.reach ({}, waiter_create (\<lambda>_. zero_ticket))"
    by (rule waiting.reach_init) (auto simp: waiter_init_def)
  moreover have "waiter_step ({}, waiter_create (\<lambda>_. zero_ticket)) ({} \<union> held (Some 5), snd one_fd)"
    by (rule step_add_fd [of "Some 5" _ True 3])
      (simp_all add: waiter_create_def one_fd_def waiter_add_fd_def waiter_add_null_def
        waiter_ticket_set_fd_def pollset_create_def Let_def)
  ultimately have "waiting.reach ({} \<union> held (Some 5), snd one_fd)" by (rule waiting.reach_step)
  then show ?thesis by (simp add: one_fd_def held_def)
qed

lemma one_fd_pollset: "pollset (snd one_fd) = Some (pollset_create 33)"
  by (simp add: one_fd_def waiter_add_fd_def waiter_add_null_def waiter_create_def Let_def
      waiter_ticket_set_fd_def waiter_ticket_set_null_def set_ticket_def)

theorem waiter_wait_safe_witness:
  "\<exists>w'. waiter_wait (\<lambda>f n sk. sk) (\<lambda>fds ms. (1, [True])) 0 0 () (snd one_fd) = Some ((), w')"
  using waiter_wait_safe [of "fst one_fd" "snd one_fd", OF _ one_fd_pollset,
      of "\<lambda>f n sk. sk" "\<lambda>fds ms. (1, [True])" 0 0 "()"] one_fd_reach by auto

text \<open>
  C17. \<open>waiter_wait\<close> never oversleeps a timeout: the time it passes to \<open>poll\<close> is
  positive, fits an \<open>int\<close> and ends no later than the earliest deadline of any timeout ticket; it
  polls without a limit only when no deadline lies before the end of the clock, and does not poll at
  all when a deadline has passed.
\<close>

theorem waiter_poll_deadline:
  assumes "collect (tk w) (tickets w) (pollset_reset ps) (-1) = Some (ps', tt)"
    "length (filter (\<lambda>n. ttype (tk w n) = WATCH_TYPE_FD) (tickets w)) \<le> length (pfds ps)"
  shows "case poll_timeout now tt of
      None \<Rightarrow> \<exists>n\<in>set (tickets w). ttype (tk w n) = WATCH_TYPE_TIMEOUT \<and> deadline (tk w n) \<le> now
    | Some ms \<Rightarrow> ms = -1 \<and> (\<forall>n\<in>set (tickets w). ttype (tk w n) = WATCH_TYPE_TIMEOUT \<longrightarrow> deadline (tk w n) = -1)
        \<or> 0 < ms \<and> ms < 2 ^ 31 \<and>
          (\<forall>n\<in>set (tickets w). ttype (tk w n) = WATCH_TYPE_TIMEOUT \<longrightarrow> uint now + ms \<le> uint (deadline (tk w n)))"
proof -
  let ?ds = "map (deadline \<circ> tk w) (timeout_tickets (tk w) (tickets w))"
  have "nfds (pollset_reset ps) + length (fd_tickets (tk w) (tickets w)) \<le> length (pfds (pollset_reset ps))"
    using assms(2) by (simp add: pollset_reset_def)
  from collect_spec [OF this, of "-1"] have tt: "tt = fold min ?ds (-1)"
    using assms(1) by auto
  have le: "tt \<le> deadline (tk w n)" if "n \<in> set (tickets w)" "ttype (tk w n) = WATCH_TYPE_TIMEOUT" for n
    unfolding tt using that by (intro fold_min_le(2)) auto
  show ?thesis
  proof (cases "poll_timeout now tt")
    case None
    then have "tt \<noteq> -1" "tt \<le> now" by (auto simp: poll_timeout_def split: if_splits)
    then have "tt \<in> set ?ds" using fold_min_mem [of ?ds "-1"] tt by auto
    with \<open>tt \<le> now\<close> None show ?thesis by auto
  next
    case (Some ms)
    then consider "ms = -1" "tt = -1" | "0 < ms" "ms < 2 ^ 31" "uint now + ms \<le> uint tt"
      using poll_timeout_bound by blast
    then show ?thesis
    proof cases
      case 1
      with le Some show ?thesis by (simp add: word_order.extremum_unique)
    next
      case 2
      have "uint tt \<le> uint (deadline (tk w n))" if "n \<in> set (tickets w)" "ttype (tk w n) = WATCH_TYPE_TIMEOUT" for n
        using le [OF that] by (simp add: word_le_def)
      with 2 Some show ?thesis by force
    qed
  qed
qed



text \<open>
  C19. \<open>waiter_synchronize\<close> gives all timeout tickets of the same interval the
  start time of the first of them in the list, and leaves type and interval of every ticket alone.
\<close>

theorem waiter_synchronize_starts:
  assumes "distinct (tickets w)"
    "filter (\<lambda>n. ttype (tk w n) = WATCH_TYPE_TIMEOUT \<and> targ (tk w n) = iv) (tickets w) = m # ms"
    "n \<in> set (m # ms)"
  shows "start (tk (waiter_synchronize w) n) = start (tk w m) \<and>
    ttype (tk (waiter_synchronize w) n) = WATCH_TYPE_TIMEOUT \<and> targ (tk (waiter_synchronize w) n) = iv"
proof -
  have "n \<in> set (filter (\<lambda>n. ttype (tk w n) = WATCH_TYPE_TIMEOUT \<and> targ (tk w n) = iv) (tickets w))"
    using assms(2,3) by simp
  with sync_loop_spec [OF assms] show ?thesis by (simp add: waiter_synchronize_def)
qed

definition two_timeouts :: waiter where
  "two_timeouts = \<lparr>tickets = [1, 2],
     tk = (\<lambda>n. \<lparr>ttype = WATCH_TYPE_TIMEOUT, targ = 50, callback = None, start = of_nat n, updated = False\<rparr>),
     pollset = None, wcount = 2\<rparr>"

theorem waiter_synchronize_starts_witness:
  "start (tk (waiter_synchronize two_timeouts) 2) = 1"
  using waiter_synchronize_starts [of two_timeouts 50 1 "[2]" 2] by (simp add: two_timeouts_def)

theorem waiter_poll_deadline_witness:
  "\<exists>ps tt. collect (tk two_timeouts) (tickets two_timeouts) (pollset_reset (pollset_create 33)) (-1) = Some (ps, tt) \<and>
     (\<exists>ms. poll_timeout 20 tt = Some ms \<and> 0 < ms \<and> 20 + ms \<le> uint (deadline (tk two_timeouts 1)))"
proof -
  have c: "collect (tk two_timeouts) (tickets two_timeouts) (pollset_reset (pollset_create 33)) (-1) =
      Some (pollset_reset (pollset_create 33), 51)"
    by (simp add: two_timeouts_def)
  have "poll_timeout 20 51 = Some 31" by (simp add: poll_timeout_def)
  with waiter_poll_deadline [OF c, of 20] c show ?thesis by (simp add: two_timeouts_def)
qed

end
