(* ===== verification/Qrtr.thy ===== *)
theory Qrtr
  imports Interfaces
begin

text \<open>
  \<open>qrtr/lib/qrtr.c\<close> and the control packet of \<open>qrtr/lib/libqrtr.h\<close>: opening a QRTR socket, the
  requests a client sends to the name server, and the decoding of what the name server answers.
  The results of system calls are arguments; every function returns its result with the system
  calls it makes, in order.
\<close>

section \<open>Packets and addresses\<close>

record sockaddr_qrtr =
  sq_family :: u16
  sq_node :: u32
  sq_port :: u32

abbreviation (input) AF_QIPCRTR :: u16 where "AF_QIPCRTR \<equiv> 42"
abbreviation (input) QRTR_NODE_BCAST :: u32 where "QRTR_NODE_BCAST \<equiv> 0xffffffff"
abbreviation (input) QRTR_PORT_CTRL :: u32 where "QRTR_PORT_CTRL \<equiv> 0xfffffffe"
abbreviation (input) QRTR_TYPE_DATA :: u32 where "QRTR_TYPE_DATA \<equiv> 1"
abbreviation (input) QRTR_TYPE_HELLO :: u32 where "QRTR_TYPE_HELLO \<equiv> 2"
abbreviation (input) QRTR_TYPE_BYE :: u32 where "QRTR_TYPE_BYE \<equiv> 3"
abbreviation (input) QRTR_TYPE_NEW_SERVER :: u32 where "QRTR_TYPE_NEW_SERVER \<equiv> 4"
abbreviation (input) QRTR_TYPE_DEL_SERVER :: u32 where "QRTR_TYPE_DEL_SERVER \<equiv> 5"
abbreviation (input) QRTR_TYPE_DEL_CLIENT :: u32 where "QRTR_TYPE_DEL_CLIENT \<equiv> 6"
abbreviation (input) QRTR_TYPE_RESUME_TX :: u32 where "QRTR_TYPE_RESUME_TX \<equiv> 7"
abbreviation (input) QRTR_TYPE_EXIT :: u32 where "QRTR_TYPE_EXIT \<equiv> 8"
abbreviation (input) QRTR_TYPE_PING :: u32 where "QRTR_TYPE_PING \<equiv> 9"
abbreviation (input) QRTR_TYPE_NEW_LOOKUP :: u32 where "QRTR_TYPE_NEW_LOOKUP \<equiv> 10"
abbreviation (input) QRTR_TYPE_DEL_LOOKUP :: u32 where "QRTR_TYPE_DEL_LOOKUP \<equiv> 11"

text \<open>
  The packed control packet: the command, then the four words of the \<open>server\<close> member. The \<open>client\<close>
  member of the union lies over the first two of them.
\<close>

record qrtr_ctrl_pkt =
  cmd :: u32
  srv_service :: u32
  srv_instance :: u32
  srv_node :: u32
  srv_port :: u32

abbreviation client_node :: "qrtr_ctrl_pkt \<Rightarrow> u32" where "client_node \<equiv> srv_service"
abbreviation client_port :: "qrtr_ctrl_pkt \<Rightarrow> u32" where "client_port \<equiv> srv_instance"
abbreviation (input) ctrl_pkt_size :: nat where "ctrl_pkt_size \<equiv> 20"

definition ctrl_bytes :: "qrtr_ctrl_pkt \<Rightarrow> u8 list" where
  "ctrl_bytes p = le32 (cmd p) @ le32 (srv_service p) @ le32 (srv_instance p)
     @ le32 (srv_node p) @ le32 (srv_port p)"

definition ctrl_read :: "mem \<Rightarrow> nat \<Rightarrow> qrtr_ctrl_pkt" where
  "ctrl_read m b = \<lparr>cmd = get32 m b, srv_service = get32 m (b + 4), srv_instance = get32 m (b + 8),
     srv_node = get32 m (b + 12), srv_port = get32 m (b + 16)\<rparr>"

lemma length_ctrl_bytes [simp, codec_simps]: "length (ctrl_bytes p) = ctrl_pkt_size"
  by (simp add: ctrl_bytes_def)

lemma ctrl_read_bytes [codec_simps]: "holds m b (ctrl_bytes p) \<Longrightarrow> ctrl_read m b = p"
  by (simp add: ctrl_bytes_def ctrl_read_def get32_le32 add.assoc)

lemma ctrl_read_cong:
  assumes "rd m p ctrl_pkt_size = rd m' q ctrl_pkt_size"
  shows "ctrl_read m p = ctrl_read m' q"
  using rd_sub [OF assms, of 0 4] rd_sub [OF assms, of 4 4] rd_sub [OF assms, of 8 4]
    rd_sub [OF assms, of 12 4] rd_sub [OF assms, of 16 4]
  by (simp add: ctrl_read_def get32_cong [of m _ m'])

interpretation ctrl: byte_codec ctrl_bytes ctrl_read ctrl_pkt_size
  by unfold_locales (simp_all add: codec_simps)

section \<open>System calls\<close>

datatype syscall =
    Socket
  | Setsockopt_rcvtimeo int int int
  | Bind int sockaddr_qrtr
  | Close int
  | Getsockname int
  | Sendto int sockaddr_qrtr "u8 list"

record open_results =
  socket_rc :: int
  setsockopt_rc :: int
  bind_rc :: int

text \<open>What \<open>getsockname\<close> returns: its result, the address and the length it stores.\<close>

record name_results =
  name_rc :: int
  name_sq :: sockaddr_qrtr
  name_sl :: nat

abbreviation (input) sizeof_sockaddr_qrtr :: nat where "sizeof_sockaddr_qrtr \<equiv> 12"

section \<open>Operations\<close>

definition qrtr_getname :: "name_results \<Rightarrow> int \<times> sockaddr_qrtr" where
  "qrtr_getname r =
     (if name_rc r \<noteq> 0 then (-1, name_sq r)
      else if sq_family (name_sq r) \<noteq> AF_QIPCRTR \<or> name_sl r \<noteq> sizeof_sockaddr_qrtr then (-1, name_sq r)
      else (0, name_sq r))"

definition qrtr_open :: "open_results \<Rightarrow> int \<Rightarrow> int \<times> syscall list" where
  "qrtr_open r rport =
     (let sock = socket_rc r in
      if sock < 0 then (-1, [Socket])
      else
        let c1 = [Socket, Setsockopt_rcvtimeo sock 1 0] in
        if setsockopt_rc r \<noteq> 0 then (-1, c1 @ [Close sock])
        else if rport \<noteq> 0 then
          let sq = \<lparr>sq_family = AF_QIPCRTR, sq_node = 1, sq_port = word_of_int rport\<rparr>;
              c2 = c1 @ [Bind sock sq] in
          if bind_rc r < 0 then (-1, c2 @ [Close sock]) else (sock, c2)
        else (sock, c1))"

definition qrtr_close :: "int \<Rightarrow> syscall list" where
  "qrtr_close sock = [Close sock]"

definition qrtr_sendto :: "int \<Rightarrow> int \<Rightarrow> u32 \<Rightarrow> u32 \<Rightarrow> u8 list \<Rightarrow> int \<times> syscall list" where
  "qrtr_sendto send_rc sock node port data =
     (let sq = \<lparr>sq_family = AF_QIPCRTR, sq_node = node, sq_port = port\<rparr> in
      (if send_rc < 0 then -1 else 0, [Sendto sock sq data]))"

text \<open>\<open>instance << 8 | version\<close>, computed in \<open>int\<close> on two 16-bit values.\<close>

definition instance_word :: "u16 \<Rightarrow> u16 \<Rightarrow> u32" where
  "instance_word version inst = push_bit 8 (ucast inst) OR ucast version"

definition zero_pkt :: qrtr_ctrl_pkt where
  "zero_pkt = \<lparr>cmd = 0, srv_service = 0, srv_instance = 0, srv_node = 0, srv_port = 0\<rparr>"

definition qrtr_new_server ::
    "name_results \<Rightarrow> int \<Rightarrow> int \<Rightarrow> u32 \<Rightarrow> u16 \<Rightarrow> u16 \<Rightarrow> int \<times> syscall list" where
  "qrtr_new_server nr send_rc sock service version inst =
     (let (rc, sq) = qrtr_getname nr in
      if rc \<noteq> 0 then (-1, [Getsockname sock])
      else
        let pkt = zero_pkt\<lparr>cmd := QRTR_TYPE_NEW_SERVER, srv_service := service,
                     srv_instance := instance_word version inst\<rparr>;
            (rc, calls) = qrtr_sendto send_rc sock (sq_node sq) QRTR_PORT_CTRL (ctrl_bytes pkt) in
        (rc, Getsockname sock # calls))"

definition qrtr_remove_server ::
    "name_results \<Rightarrow> int \<Rightarrow> int \<Rightarrow> u32 \<Rightarrow> u16 \<Rightarrow> u16 \<Rightarrow> int \<times> syscall list" where
  "qrtr_remove_server nr send_rc sock service version inst =
     (let (rc, sq) = qrtr_getname nr in
      if rc \<noteq> 0 then (-1, [Getsockname sock])
      else
        let pkt = zero_pkt\<lparr>cmd := QRTR_TYPE_DEL_SERVER, srv_service := service,
                     srv_instance := instance_word version inst,
                     srv_node := sq_node sq, srv_port := sq_port sq\<rparr>;
            (rc, calls) = qrtr_sendto send_rc sock (sq_node sq) QRTR_PORT_CTRL (ctrl_bytes pkt) in
        (rc, Getsockname sock # calls))"

definition qrtr_publish ::
    "name_results \<Rightarrow> int \<Rightarrow> int \<Rightarrow> u32 \<Rightarrow> u16 \<Rightarrow> u16 \<Rightarrow> int \<times> syscall list" where
  "qrtr_publish nr send_rc sock service version inst =
     qrtr_new_server nr send_rc sock service version inst"

definition qrtr_bye ::
    "name_results \<Rightarrow> int \<Rightarrow> int \<Rightarrow> u32 \<Rightarrow> u16 \<Rightarrow> u16 \<Rightarrow> int \<times> syscall list" where
  "qrtr_bye nr send_rc sock service version inst =
     qrtr_remove_server nr send_rc sock service version inst"

definition qrtr_new_lookup ::
    "name_results \<Rightarrow> int \<Rightarrow> int \<Rightarrow> u32 \<Rightarrow> u16 \<Rightarrow> u16 \<Rightarrow> int \<times> syscall list" where
  "qrtr_new_lookup nr send_rc sock service version inst =
     (let (rc, sq) = qrtr_getname nr in
      if rc \<noteq> 0 then (-1, [Getsockname sock])
      else
        let pkt = zero_pkt\<lparr>cmd := QRTR_TYPE_NEW_LOOKUP, srv_service := service,
                     srv_instance := instance_word version inst\<rparr>;
            (rc, calls) = qrtr_sendto send_rc sock (sq_node sq) QRTR_PORT_CTRL (ctrl_bytes pkt) in
        (rc, Getsockname sock # calls))"

definition qrtr_remove_lookup ::
    "name_results \<Rightarrow> int \<Rightarrow> int \<Rightarrow> u32 \<Rightarrow> u16 \<Rightarrow> u16 \<Rightarrow> int \<times> syscall list" where
  "qrtr_remove_lookup nr send_rc sock service version inst =
     (let (rc, sq) = qrtr_getname nr in
      if rc \<noteq> 0 then (-1, [Getsockname sock])
      else
        let pkt = zero_pkt\<lparr>cmd := QRTR_TYPE_DEL_LOOKUP, srv_service := service,
                     srv_instance := instance_word version inst,
                     srv_node := sq_node sq, srv_port := sq_port sq\<rparr>;
            (rc, calls) = qrtr_sendto send_rc sock (sq_node sq) QRTR_PORT_CTRL (ctrl_bytes pkt) in
        (rc, Getsockname sock # calls))"

text \<open>\<open>recvfrom\<close>: the result, and the address it filled in, stored only on success.\<close>

definition qrtr_recvfrom ::
    "int \<Rightarrow> sockaddr_qrtr \<Rightarrow> u32 \<Rightarrow> u32 \<Rightarrow> int \<times> u32 \<times> u32" where
  "qrtr_recvfrom recv_rc sq node port =
     (if recv_rc < 0 then (recv_rc, node, port) else (recv_rc, sq_node sq, sq_port sq))"

record qrtr_packet =
  pkt_type :: u32
  pkt_node :: u32
  pkt_port :: u32
  pkt_service :: u32
  pkt_instance :: u32
  pkt_version :: u32
  pkt_data :: mem
  pkt_data_len :: nat

definition qrtr_decode ::
    "qrtr_packet \<Rightarrow> mem \<Rightarrow> nat \<Rightarrow> sockaddr_qrtr \<Rightarrow> int \<times> qrtr_packet" where
  "qrtr_decode dest buf len sq =
     (let ctrl = ctrl_read buf 0 in
      if sq_port sq = QRTR_PORT_CTRL then
        if len < ctrl_pkt_size then (- EMSGSIZE, dest)
        else
          let dest = dest\<lparr>pkt_type := cmd ctrl\<rparr> in
          if pkt_type dest = QRTR_TYPE_BYE then
            (0, dest\<lparr>pkt_node := client_node ctrl\<rparr>)
          else if pkt_type dest = QRTR_TYPE_DEL_CLIENT then
            (0, dest\<lparr>pkt_node := client_node ctrl, pkt_port := client_port ctrl\<rparr>)
          else if pkt_type dest = QRTR_TYPE_NEW_SERVER \<or> pkt_type dest = QRTR_TYPE_DEL_SERVER then
            (0, dest\<lparr>pkt_node := srv_node ctrl, pkt_port := srv_port ctrl,
                  pkt_service := srv_service ctrl, pkt_version := srv_instance ctrl AND 0xff,
                  pkt_instance := drop_bit 8 (srv_instance ctrl)\<rparr>)
          else (0, dest\<lparr>pkt_type := 0\<rparr>)
      else
        (0, dest\<lparr>pkt_type := QRTR_TYPE_DATA, pkt_node := sq_node sq, pkt_port := sq_port sq,
              pkt_data := buf, pkt_data_len := len\<rparr>))"

section \<open>Properties\<close>

text \<open>The name server's announcement of a server, as a client receives it.\<close>

definition announcement :: "u32 \<Rightarrow> u32 \<Rightarrow> u32 \<Rightarrow> u32 \<Rightarrow> u32 \<Rightarrow> qrtr_ctrl_pkt" where
  "announcement c service inst node port =
     \<lparr>cmd = c, srv_service = service, srv_instance = inst, srv_node = node, srv_port = port\<rparr>"

lemma instance_word_fields:
  assumes "version < 256"
  shows "instance_word version inst AND 0xff = ucast version"
    and "drop_bit 8 (instance_word version inst) = ucast inst"
proof -
  have mask: "(0xff :: u32) = mask 8" by (simp add: mask_eq_exp_minus_1)
  have "unat version < 2 ^ 8" using assms by (simp add: word_less_nat_alt)
  then have v: "bit version n \<Longrightarrow> n < 8" for n using bit_above by (meson not_less)
  show "instance_word version inst AND 0xff = ucast version"
    unfolding mask by (rule bit_word_eqI) (auto simp: instance_word_def bit_simps dest: v)
  show "drop_bit 8 (instance_word version inst) = ucast inst"
    by (rule bit_word_eqI) (auto simp: instance_word_def bit_simps dest: v bit_imp_le_length)
qed

text \<open>
  C20. A server published with \<open>qrtr_publish\<close> under a version below 256 is seen
  by a client that decodes the name server's announcement of it with exactly that service, version
  and instance, at the announced address.
\<close>

theorem qrtr_publish_roundtrip:
  assumes name: "name_rc nr = 0" "sq_family (name_sq nr) = AF_QIPCRTR" "name_sl nr = sizeof_sockaddr_qrtr"
    and sent: "qrtr_publish nr send_rc sock service version inst = (rc, [Getsockname sock, Sendto sock to data])"
    and version: "version < 256"
    and reply: "holds buf 0 (ctrl_bytes (announcement QRTR_TYPE_NEW_SERVER
        (srv_service (ctrl_read req 0)) (srv_instance (ctrl_read req 0)) node port))"
      "holds req 0 data" "ctrl_pkt_size \<le> len" "sq_port from = QRTR_PORT_CTRL"
  shows "sq_port to = QRTR_PORT_CTRL \<and> sq_node to = sq_node (name_sq nr) \<and> length data = ctrl_pkt_size \<and>
    qrtr_decode dest buf len from =
      (0, dest\<lparr>pkt_type := QRTR_TYPE_NEW_SERVER, pkt_node := node, pkt_port := port,
            pkt_service := service, pkt_version := ucast version, pkt_instance := ucast inst\<rparr>)"
proof -
  let ?pkt = "zero_pkt\<lparr>cmd := QRTR_TYPE_NEW_SERVER, srv_service := service,
    srv_instance := instance_word version inst\<rparr>"
  have to: "to = \<lparr>sq_family = AF_QIPCRTR, sq_node = sq_node (name_sq nr), sq_port = QRTR_PORT_CTRL\<rparr>"
    and data: "data = ctrl_bytes ?pkt"
    using sent name
    by (simp_all add: qrtr_publish_def qrtr_new_server_def qrtr_getname_def qrtr_sendto_def Let_def)
  have "ctrl_read req 0 = ?pkt" using reply(2) data by (simp add: ctrl.dec_enc)
  then have "ctrl_read buf 0 =
      announcement QRTR_TYPE_NEW_SERVER service (instance_word version inst) node port"
    using ctrl.dec_enc [OF reply(1)] by simp
  then have "qrtr_decode dest buf len from =
      (0, dest\<lparr>pkt_type := QRTR_TYPE_NEW_SERVER, pkt_node := node, pkt_port := port,
            pkt_service := service, pkt_version := ucast version, pkt_instance := ucast inst\<rparr>)"
    using reply(3,4) instance_word_fields [OF version, of inst]
    by (simp add: qrtr_decode_def Let_def announcement_def)
  then show ?thesis by (simp add: to data)
qed

definition sample_name :: name_results where
  "sample_name = \<lparr>name_rc = 0, name_sq = \<lparr>sq_family = AF_QIPCRTR, sq_node = 1, sq_port = 9\<rparr>, name_sl = 12\<rparr>"

theorem qrtr_publish_roundtrip_witness:
  "\<forall>dest0. \<exists>buf. qrtr_decode dest0 buf 20 \<lparr>sq_family = AF_QIPCRTR, sq_node = 1, sq_port = QRTR_PORT_CTRL\<rparr> =
     (0, dest0\<lparr>pkt_type := QRTR_TYPE_NEW_SERVER, pkt_node := 1, pkt_port := 9,
            pkt_service := 15, pkt_version := 3, pkt_instance := 7\<rparr>)"
proof
  fix dest0 :: qrtr_packet
  let ?pkt = "zero_pkt\<lparr>cmd := QRTR_TYPE_NEW_SERVER, srv_service := 15, srv_instance := instance_word 3 7\<rparr>"
  let ?req = "wr (\<lambda>_. 0) 0 (ctrl_bytes ?pkt)"
  have "holds (wr (\<lambda>_. 0) 0 bs) 0 bs" for bs by simp
  moreover have "qrtr_publish sample_name 20 5 15 3 7 =
      (0, [Getsockname 5, Sendto 5 \<lparr>sq_family = AF_QIPCRTR, sq_node = 1, sq_port = QRTR_PORT_CTRL\<rparr>
        (ctrl_bytes ?pkt)])"
    by (simp add: qrtr_publish_def qrtr_new_server_def qrtr_getname_def qrtr_sendto_def sample_name_def)
  ultimately show "\<exists>buf. qrtr_decode dest0 buf 20
      \<lparr>sq_family = AF_QIPCRTR, sq_node = 1, sq_port = QRTR_PORT_CTRL\<rparr> =
     (0, dest0\<lparr>pkt_type := QRTR_TYPE_NEW_SERVER, pkt_node := 1, pkt_port := 9,
            pkt_service := 15, pkt_version := 3, pkt_instance := 7\<rparr>)"
    using qrtr_publish_roundtrip [of sample_name 20 5 15 3 7 0
      "\<lparr>sq_family = AF_QIPCRTR, sq_node = 1, sq_port = QRTR_PORT_CTRL\<rparr>" "ctrl_bytes ?pkt"
      "wr (\<lambda>_. 0) 0 (ctrl_bytes (announcement QRTR_TYPE_NEW_SERVER (srv_service (ctrl_read ?req 0))
         (srv_instance (ctrl_read ?req 0)) 1 9))" ?req 1 9 20
      "\<lparr>sq_family = AF_QIPCRTR, sq_node = 1, sq_port = QRTR_PORT_CTRL\<rparr>" dest0]
    by (simp add: sample_name_def) blast
qed

text \<open>
  C22. \<open>qrtr_open\<close> either returns the socket it created, still open, or returns -1 and
  leaves no socket open.
\<close>

theorem qrtr_open_no_leak:
  "case qrtr_open r rport of (fd, calls) \<Rightarrow>
     if 0 \<le> fd then fd = socket_rc r \<and> Close fd \<notin> set calls
     else fd = -1 \<and> (if 0 \<le> socket_rc r then last calls = Close (socket_rc r) else calls = [Socket])"
  by (auto simp: qrtr_open_def Let_def)

text \<open>
  C21. Decoding a control packet looks at no byte beyond the received length:
  two buffers that agree on the received bytes decode alike, and a packet shorter than a control
  packet is refused without touching the result.
\<close>

theorem qrtr_decode_in_bounds:
  assumes "rd buf 0 len = rd buf' 0 len" "sq_port sq = QRTR_PORT_CTRL"
  shows "qrtr_decode dest buf len sq = qrtr_decode dest buf' len sq \<and>
    (if len < ctrl_pkt_size then qrtr_decode dest buf len sq = (- EMSGSIZE, dest)
     else fst (qrtr_decode dest buf len sq) = 0)"
proof (cases "len < ctrl_pkt_size")
  case True
  with assms(2) show ?thesis by (simp add: qrtr_decode_def Let_def)
next
  case False
  then have "rd buf 0 ctrl_pkt_size = rd buf' 0 ctrl_pkt_size"
    using rd_sub [OF assms(1), of 0 ctrl_pkt_size] by simp
  then have "ctrl_read buf 0 = ctrl_read buf' 0" by (rule ctrl_read_cong)
  with False assms(2) show ?thesis by (simp add: qrtr_decode_def Let_def)
qed

theorem qrtr_decode_in_bounds_witness:
  "fst (qrtr_decode \<lparr>pkt_type = 0, pkt_node = 0, pkt_port = 0, pkt_service = 0, pkt_instance = 0,
       pkt_version = 0, pkt_data = \<lambda>_. 0, pkt_data_len = 0\<rparr> (\<lambda>_. 0) 19
     \<lparr>sq_family = AF_QIPCRTR, sq_node = 1, sq_port = QRTR_PORT_CTRL\<rparr>) = - EMSGSIZE"
  using qrtr_decode_in_bounds [of "\<lambda>_. 0" 19 "\<lambda>_. 0"
      "\<lparr>sq_family = AF_QIPCRTR, sq_node = 1, sq_port = QRTR_PORT_CTRL\<rparr>"]
  by simp

end
