(* ===== verification/NameServer.thy ===== *)
theory NameServer
  imports Hash QMap Qrtr
begin

text \<open>
  The QRTR name server, \<open>qrtr/src/ns.c\<close>: the registry of servers by node and port, the list of
  observers (lookups), the handlers of the control messages, and the control port's receive function.

  A \<open>struct node\<close> lives on the heap: the table \<open>nodes\<close> holds addresses, here indices into \<open>heap\<close>, and
  nodes are never freed while the server runs. Servers are items of the table of their node. The list
  of lookups is the sequence of its items: \<open>QList\<close> shows that the list operations act on sequences
  in this way. \<open>sent\<close> is the log of all calls of \<open>sendto\<close> with destination and bytes. The environment
  \<open>ns_env\<close> decides for each \<open>calloc\<close> whether it succeeds and what each \<open>sendto\<close> returns. A handler gives
  \<open>None\<close> only if the hash table does not return, which \<open>ns_step_returns\<close> excludes.
\<close>

section \<open>State\<close>

record server =
  service :: u32
  inst :: u32
  srvnode :: u32
  port :: u32

record lookup =
  lk_service :: u32
  lk_inst :: u32
  lk_sq :: sockaddr_qrtr

record server_filter =
  f_service :: u32
  f_inst :: u32
  ifilter :: u32

record node =
  nid :: u32
  services :: "server qmap"

record ns_context =
  sock :: int
  local_node :: u32
  bcast_sq :: sockaddr_qrtr
  lookups :: "lookup list"
  nodes :: "nat qmap"
  heap :: "node list"
  sent :: "(sockaddr_qrtr \<times> u8 list) list"
  allocs :: nat

text \<open>
  \<open>env_calloc i n\<close>: whether the \<open>i\<close>-th allocation, of \<open>n\<close> elements, succeeds. \<open>env_sendto i\<close>: the result
  of the \<open>i\<close>-th \<open>sendto\<close>. \<open>env_stack\<close>: the two words of a packet on the stack that a handler leaves
  uninitialised.
\<close>

record ns_env =
  env_calloc :: "nat \<Rightarrow> nat \<Rightarrow> bool"
  env_sendto :: "nat \<Rightarrow> int"
  env_stack :: "u32 \<times> u32"

definition ns_sendto :: "ns_env \<Rightarrow> sockaddr_qrtr \<Rightarrow> u8 list \<Rightarrow> ns_context \<Rightarrow> int \<times> ns_context" where
  "ns_sendto e dest bytes ctx =
     (env_sendto e (length (sent ctx)), ctx\<lparr>sent := sent ctx @ [(dest, bytes)]\<rparr>)"

section \<open>Nodes and servers\<close>

definition node_get :: "ns_env \<Rightarrow> u32 \<Rightarrow> ns_context \<Rightarrow> (nat option \<times> ns_context) option" where
  "node_get e node_id ctx =
     (case map_get (nodes ctx) (hash_u32 node_id) of
        Some p \<Rightarrow> Some (Some p, ctx)
      | None \<Rightarrow>
          if \<not> env_calloc e (allocs ctx) 1 then Some (None, ctx\<lparr>allocs := allocs ctx + 1\<rparr>)
          else
            let p = length (heap ctx);
                node = \<lparr>nid = node_id, services = map_create\<rparr> in
            (case map_put (env_calloc e (allocs ctx + 1)) (nodes ctx) (hash_u32 node_id) (Some p) of
               None \<Rightarrow> None
             | Some (rc, m) \<Rightarrow>
                 let ctx = ctx\<lparr>nodes := m, allocs := allocs ctx + 2\<rparr> in
                 if rc \<noteq> 0 then Some (None, ctx)
                 else Some (Some p, ctx\<lparr>heap := heap ctx @ [node]\<rparr>)))"

definition server_match :: "server \<Rightarrow> server_filter \<Rightarrow> bool" where
  "server_match srv f =
     (if f_service f \<noteq> 0 \<and> service srv \<noteq> f_service f then False
      else
        let ifil = (if ifilter f = 0 \<and> f_inst f \<noteq> 0 then NOT 0 else ifilter f) in
        inst srv AND ifil = f_inst f)"

definition server_query :: "server_filter \<Rightarrow> ns_context \<Rightarrow> server list" where
  "server_query f ctx =
     concat (map (\<lambda>p. filter (\<lambda>srv. server_match srv f) (map_for_each (services (heap ctx ! p))))
       (map_for_each (nodes ctx)))"

definition server_pkt :: "u32 \<Rightarrow> server \<Rightarrow> u8 list" where
  "server_pkt c srv = ctrl_bytes \<lparr>cmd = c, srv_service = service srv, srv_instance = inst srv,
     srv_node = srvnode srv, srv_port = port srv\<rparr>"

definition service_announce_new :: "ns_env \<Rightarrow> sockaddr_qrtr \<Rightarrow> server \<Rightarrow> ns_context \<Rightarrow> int \<times> ns_context" where
  "service_announce_new e dest srv ctx = ns_sendto e dest (server_pkt QRTR_TYPE_NEW_SERVER srv) ctx"

definition service_announce_del :: "ns_env \<Rightarrow> sockaddr_qrtr \<Rightarrow> server \<Rightarrow> ns_context \<Rightarrow> int \<times> ns_context" where
  "service_announce_del e dest srv ctx = ns_sendto e dest (server_pkt QRTR_TYPE_DEL_SERVER srv) ctx"

definition lookup_notify ::
    "ns_env \<Rightarrow> sockaddr_qrtr \<Rightarrow> server option \<Rightarrow> bool \<Rightarrow> ns_context \<Rightarrow> int \<times> ns_context" where
  "lookup_notify e to srv new ctx =
     (let c = (if new then QRTR_TYPE_NEW_SERVER else QRTR_TYPE_DEL_SERVER) in
      case srv of
        None \<Rightarrow> ns_sendto e to (ctrl_bytes (zero_pkt\<lparr>cmd := c\<rparr>)) ctx
      | Some s \<Rightarrow> ns_sendto e to (server_pkt c s) ctx)"

fun announce_loop :: "ns_env \<Rightarrow> sockaddr_qrtr \<Rightarrow> server list \<Rightarrow> ns_context \<Rightarrow> int \<times> ns_context" where
  "announce_loop e sq [] ctx = (0, ctx)"
| "announce_loop e sq (srv # srvs) ctx =
     (let (rc, ctx) = service_announce_new e sq srv ctx in
      if rc < 0 then (rc, ctx) else announce_loop e sq srvs ctx)"

definition annouce_servers :: "ns_env \<Rightarrow> sockaddr_qrtr \<Rightarrow> ns_context \<Rightarrow> (int \<times> ns_context) option" where
  "annouce_servers e sq ctx =
     (case node_get e (local_node ctx) ctx of
        None \<Rightarrow> None
      | Some (None, ctx) \<Rightarrow> Some (0, ctx)
      | Some (Some p, ctx) \<Rightarrow> Some (announce_loop e sq (map_for_each (services (heap ctx ! p))) ctx))"

definition set_services :: "nat \<Rightarrow> server qmap \<Rightarrow> ns_context \<Rightarrow> ns_context" where
  "set_services p m ctx = ctx\<lparr>heap := (heap ctx)[p := (heap ctx ! p)\<lparr>services := m\<rparr>]\<rparr>"

definition server_add ::
    "ns_env \<Rightarrow> u32 \<Rightarrow> u32 \<Rightarrow> u32 \<Rightarrow> u32 \<Rightarrow> ns_context \<Rightarrow> (server option \<times> ns_context) option" where
  "server_add e serv instance_id node_id prt ctx =
     (if serv = 0 \<or> prt = 0 then Some (None, ctx)
      else if \<not> env_calloc e (allocs ctx) 1 then Some (None, ctx\<lparr>allocs := allocs ctx + 1\<rparr>)
      else
        let srv = \<lparr>service = serv, inst = instance_id, srvnode = node_id, port = prt\<rparr> in
        (case node_get e node_id (ctx\<lparr>allocs := allocs ctx + 1\<rparr>) of
           None \<Rightarrow> None
         | Some (None, ctx) \<Rightarrow> Some (None, ctx)
         | Some (Some p, ctx) \<Rightarrow>
             (case map_reput (env_calloc e (allocs ctx)) (services (heap ctx ! p)) (hash_u32 prt) (Some srv) of
                None \<Rightarrow> None
              | Some (rc, old, m) \<Rightarrow>
                  let ctx = (set_services p m ctx)\<lparr>allocs := allocs ctx + 1\<rparr> in
                  if rc \<noteq> 0 then Some (None, ctx) else Some (Some srv, ctx))))"

text \<open>The loop over the observers, for a server with this service and instance.\<close>

fun notify_loop ::
    "ns_env \<Rightarrow> lookup list \<Rightarrow> u32 \<Rightarrow> u32 \<Rightarrow> server \<Rightarrow> bool \<Rightarrow> ns_context \<Rightarrow> ns_context" where
  "notify_loop e [] serv instance_id srv new ctx = ctx"
| "notify_loop e (lk # lks) serv instance_id srv new ctx =
     (if lk_service lk \<noteq> 0 \<and> lk_service lk \<noteq> serv then notify_loop e lks serv instance_id srv new ctx
      else if lk_inst lk \<noteq> 0 \<and> lk_inst lk \<noteq> instance_id then notify_loop e lks serv instance_id srv new ctx
      else notify_loop e lks serv instance_id srv new (snd (lookup_notify e (lk_sq lk) (Some srv) new ctx)))"

definition server_del :: "ns_env \<Rightarrow> nat \<Rightarrow> u32 \<Rightarrow> ns_context \<Rightarrow> int \<times> ns_context" where
  "server_del e p prt ctx =
     (case map_get (services (heap ctx ! p)) (hash_u32 prt) of
        None \<Rightarrow> (- ENOENT, ctx)
      | Some srv \<Rightarrow>
          let ctx = set_services p (snd (map_remove (services (heap ctx ! p)) (hash_u32 prt))) ctx;
              ctx = (if srvnode srv = local_node ctx
                     then snd (service_announce_del e (bcast_sq ctx) srv ctx) else ctx) in
          (0, notify_loop e (lookups ctx) (service srv) (inst srv) srv False ctx))"

section \<open>Handlers\<close>

definition ctrl_cmd_hello ::
    "ns_env \<Rightarrow> sockaddr_qrtr \<Rightarrow> mem \<Rightarrow> nat \<Rightarrow> ns_context \<Rightarrow> (int \<times> ns_context) option" where
  "ctrl_cmd_hello e sq buf len ctx =
     (let (rc, ctx) = ns_sendto e sq (rd buf 0 len) ctx in
      if rc > 0 then annouce_servers e sq ctx else Some (rc, ctx))"

lemma heap_length_simps [simp]:
  "length (heap (set_services p m ctx)) = length (heap ctx)"
  "heap (snd (ns_sendto e d b ctx)) = heap ctx"
  "heap (snd (service_announce_del e d s ctx)) = heap ctx"
  "heap (snd (lookup_notify e to os new ctx)) = heap ctx"
  by (simp_all add: set_services_def ns_sendto_def service_announce_del_def lookup_notify_def Let_def
      split: option.split)

lemma heap_notify_loop [simp]: "heap (notify_loop e lks serv ins srv new ctx) = heap ctx"
  by (induction e lks serv ins srv new ctx rule: notify_loop.induct) simp_all

lemma server_del_msize [simp]:
  "msize (services (heap (snd (server_del e p prt ctx)) ! p)) = msize (services (heap ctx ! p))"
proof (cases "p < length (heap ctx)")
  case True
  then show ?thesis
    by (auto simp: server_del_def set_services_def Let_def map_remove_def split: option.split)
next
  case False
  then show ?thesis
    by (auto simp: server_del_def set_services_def Let_def list_update_beyond split: option.split)
qed

function bye_loop :: "ns_env \<Rightarrow> nat \<Rightarrow> nat option \<Rightarrow> ns_context \<Rightarrow> ns_context" where
  "bye_loop e p None ctx = ctx"
| "bye_loop e p (Some me) ctx =
     (let srv = sval (mdata (services (heap ctx ! p)) ! me);
          ctx' = snd (server_del e p (port srv) ctx) in
      bye_loop e p (map_iter_next (services (heap ctx' ! p)) (Some me)) ctx')"
  by pat_completeness auto
termination
  by (relation "measure (\<lambda>(e, p, me, ctx).
        case me of None \<Rightarrow> 0 | Some i \<Rightarrow> Suc (msize (services (heap ctx ! p)) - i))")
    (auto simp: map_iter_next_def dest!: map_iter_from_Some split: option.splits)

fun propagate :: "ns_env \<Rightarrow> u8 list \<Rightarrow> server list \<Rightarrow> ns_context \<Rightarrow> ns_context" where
  "propagate e pkt [] ctx = ctx"
| "propagate e pkt (srv # srvs) ctx =
     propagate e pkt srvs
       (snd (ns_sendto e \<lparr>sq_family = AF_QIPCRTR, sq_node = srvnode srv, sq_port = port srv\<rparr> pkt ctx))"

definition ctrl_cmd_bye :: "ns_env \<Rightarrow> sockaddr_qrtr \<Rightarrow> ns_context \<Rightarrow> (int \<times> ns_context) option" where
  "ctrl_cmd_bye e from ctx =
     (case node_get e (sq_node from) ctx of
        None \<Rightarrow> None
      | Some (None, ctx) \<Rightarrow> Some (0, ctx)
      | Some (Some p, ctx) \<Rightarrow>
          let ctx = bye_loop e p (map_iter_first (services (heap ctx ! p))) ctx in
          (case node_get e (local_node ctx) ctx of
             None \<Rightarrow> None
           | Some (None, ctx) \<Rightarrow> Some (0, ctx)
           | Some (Some l, ctx) \<Rightarrow>
               let pkt = ctrl_bytes (zero_pkt\<lparr>cmd := QRTR_TYPE_BYE, srv_service := sq_node from\<rparr>) in
               Some (0, propagate e pkt (map_for_each (services (heap ctx ! l))) ctx)))"

definition ctrl_cmd_del_client ::
    "ns_env \<Rightarrow> sockaddr_qrtr \<Rightarrow> u32 \<Rightarrow> u32 \<Rightarrow> ns_context \<Rightarrow> (int \<times> ns_context) option" where
  "ctrl_cmd_del_client e from node_id prt ctx =
     (if sq_node from \<noteq> node_id then Some (- EINVAL, ctx)
      else if sq_node from = local_node ctx \<and> sq_port from \<noteq> prt then Some (- EINVAL, ctx)
      else
        let ctx = ctx\<lparr>lookups := filter (\<lambda>lk. \<not> (sq_node (lk_sq lk) = node_id \<and> sq_port (lk_sq lk) = prt))
                                  (lookups ctx)\<rparr> in
        (case node_get e node_id ctx of
           None \<Rightarrow> None
         | Some (p, ctx) \<Rightarrow>
             let ctx = (case p of None \<Rightarrow> ctx | Some p \<Rightarrow> snd (server_del e p prt ctx)) in
             (case node_get e (local_node ctx) ctx of
                None \<Rightarrow> None
              | Some (None, ctx) \<Rightarrow> Some (0, ctx)
              | Some (Some l, ctx) \<Rightarrow>
                  let pkt = ctrl_bytes \<lparr>cmd = QRTR_TYPE_DEL_CLIENT, srv_service = node_id,
                              srv_instance = prt, srv_node = fst (env_stack e), srv_port = snd (env_stack e)\<rparr> in
                  Some (0, propagate e pkt (map_for_each (services (heap ctx ! l))) ctx))))"

definition ctrl_cmd_new_server ::
    "ns_env \<Rightarrow> sockaddr_qrtr \<Rightarrow> u32 \<Rightarrow> u32 \<Rightarrow> u32 \<Rightarrow> u32 \<Rightarrow> ns_context \<Rightarrow> (int \<times> ns_context) option" where
  "ctrl_cmd_new_server e from serv instance_id node_id prt ctx =
     (let (node_id, prt) = (if sq_node from = local_node ctx then (sq_node from, sq_port from)
                            else (node_id, prt)) in
      if sq_node from \<noteq> node_id then Some (- EINVAL, ctx)
      else
        (case server_add e serv instance_id node_id prt ctx of
           None \<Rightarrow> None
         | Some (None, ctx) \<Rightarrow> Some (- EINVAL, ctx)
         | Some (Some srv, ctx) \<Rightarrow>
             let (rc, ctx) = (if srvnode srv = local_node ctx
                              then service_announce_new e (bcast_sq ctx) srv ctx else (0, ctx)) in
             Some (rc, notify_loop e (lookups ctx) serv instance_id srv True ctx)))"

definition ctrl_cmd_del_server ::
    "ns_env \<Rightarrow> sockaddr_qrtr \<Rightarrow> u32 \<Rightarrow> u32 \<Rightarrow> u32 \<Rightarrow> u32 \<Rightarrow> ns_context \<Rightarrow> (int \<times> ns_context) option" where
  "ctrl_cmd_del_server e from serv instance_id node_id prt ctx =
     (let (node_id, prt) = (if sq_node from = local_node ctx then (sq_node from, sq_port from)
                            else (node_id, prt)) in
      if sq_node from \<noteq> node_id then Some (- EINVAL, ctx)
      else if sq_node from = local_node ctx \<and> sq_port from \<noteq> prt then Some (- EINVAL, ctx)
      else
        (case node_get e node_id ctx of
           None \<Rightarrow> None
         | Some (None, ctx) \<Rightarrow> Some (- ENOENT, ctx)
         | Some (Some p, ctx) \<Rightarrow> Some (server_del e p prt ctx)))"

fun reply_loop :: "ns_env \<Rightarrow> sockaddr_qrtr \<Rightarrow> server list \<Rightarrow> ns_context \<Rightarrow> ns_context" where
  "reply_loop e from [] ctx = ctx"
| "reply_loop e from (srv # srvs) ctx =
     reply_loop e from srvs (snd (lookup_notify e from (Some srv) True ctx))"

definition ctrl_cmd_new_lookup ::
    "ns_env \<Rightarrow> sockaddr_qrtr \<Rightarrow> u32 \<Rightarrow> u32 \<Rightarrow> ns_context \<Rightarrow> int \<times> ns_context" where
  "ctrl_cmd_new_lookup e from serv instance_id ctx =
     (if sq_node from \<noteq> local_node ctx then (- EINVAL, ctx)
      else if \<not> env_calloc e (allocs ctx) 1 then (- EINVAL, ctx\<lparr>allocs := allocs ctx + 1\<rparr>)
      else
        let lk = \<lparr>lk_service = serv, lk_inst = instance_id, lk_sq = from\<rparr>;
            ctx = ctx\<lparr>allocs := allocs ctx + 1, lookups := lookups ctx @ [lk]\<rparr>;
            f = \<lparr>f_service = serv, f_inst = instance_id, ifilter = 0\<rparr>;
            ctx = reply_loop e from (server_query f ctx) ctx in
        (0, snd (lookup_notify e from None True ctx)))"

definition ctrl_cmd_del_lookup :: "sockaddr_qrtr \<Rightarrow> u32 \<Rightarrow> u32 \<Rightarrow> ns_context \<Rightarrow> int \<times> ns_context" where
  "ctrl_cmd_del_lookup from serv instance_id ctx =
     (0, ctx\<lparr>lookups := filter (\<lambda>lk. \<not> (sq_node (lk_sq lk) = sq_node from \<and>
            sq_port (lk_sq lk) = sq_port from \<and> lk_service lk = serv \<and>
            (lk_inst lk = 0 \<or> lk_inst lk = instance_id))) (lookups ctx)\<rparr>)"

text \<open>
  What \<open>recvfrom\<close> gives: an error or nothing, or a datagram of at least one byte (the kernel cuts it at
  4096). The packet lies in a buffer on the stack, so bytes beyond its end are what the stack holds.
\<close>

datatype rx = Rx_none | Rx_packet sockaddr_qrtr "u8 list"

definition ctrl_port_fn :: "ns_env \<Rightarrow> mem \<Rightarrow> rx \<Rightarrow> ns_context \<Rightarrow> ns_context option" where
  "ctrl_port_fn e stack rx ctx =
     (case rx of
        Rx_none \<Rightarrow> Some (ctx\<lparr>sock := -1\<rparr>)
      | Rx_packet sq bytes \<Rightarrow>
          let bytes = take 4096 bytes;
              buf = wr stack 0 bytes;
              len = length bytes;
              msg = ctrl_read buf 0 in
          if len = 0 then Some (ctx\<lparr>sock := -1\<rparr>)
          else if len < 4 then Some ctx
          else if cmd msg = QRTR_TYPE_HELLO then map_option snd (ctrl_cmd_hello e sq buf len ctx)
          else if cmd msg = QRTR_TYPE_BYE then map_option snd (ctrl_cmd_bye e sq ctx)
          else if cmd msg = QRTR_TYPE_DEL_CLIENT then
            map_option snd (ctrl_cmd_del_client e sq (client_node msg) (client_port msg) ctx)
          else if cmd msg = QRTR_TYPE_NEW_SERVER then
            map_option snd (ctrl_cmd_new_server e sq (srv_service msg) (srv_instance msg)
              (srv_node msg) (srv_port msg) ctx)
          else if cmd msg = QRTR_TYPE_DEL_SERVER then
            map_option snd (ctrl_cmd_del_server e sq (srv_service msg) (srv_instance msg)
              (srv_node msg) (srv_port msg) ctx)
          else if cmd msg = QRTR_TYPE_NEW_LOOKUP then
            Some (snd (ctrl_cmd_new_lookup e sq (srv_service msg) (srv_instance msg) ctx))
          else if cmd msg = QRTR_TYPE_DEL_LOOKUP then
            Some (snd (ctrl_cmd_del_lookup sq (srv_service msg) (srv_instance msg) ctx))
          else Some ctx)"

section \<open>What is sent\<close>

text \<open>The parts of the state that sending a message does not touch.\<close>

definition same_state :: "ns_context \<Rightarrow> ns_context \<Rightarrow> bool" where
  "same_state c d \<longleftrightarrow> (\<exists>xs. d = c\<lparr>sent := xs\<rparr>)"

lemma same_state_refl [simp, intro]: "same_state c c"
proof -
  have "c = c\<lparr>sent := sent c\<rparr>" by simp
  then show ?thesis unfolding same_state_def by blast
qed

lemma same_state_trans [trans]: "same_state a b \<Longrightarrow> same_state b c \<Longrightarrow> same_state a c"
  by (auto simp: same_state_def)

lemma same_stateD:
  assumes "same_state c d"
  shows "sock d = sock c" "local_node d = local_node c" "bcast_sq d = bcast_sq c"
    "lookups d = lookups c" "nodes d = nodes c" "heap d = heap c" "allocs d = allocs c"
  using assms by (auto simp: same_state_def)

lemma same_state_sendto [simp, intro]: "same_state ctx (snd (ns_sendto e d b ctx))"
  by (auto simp: same_state_def ns_sendto_def)

lemma sent_sendto [simp]: "sent (snd (ns_sendto e d b ctx)) = sent ctx @ [(d, b)]"
  by (simp add: ns_sendto_def)

lemma announce_sent:
  "snd (service_announce_new e d srv ctx) = snd (ns_sendto e d (server_pkt QRTR_TYPE_NEW_SERVER srv) ctx)"
  "snd (service_announce_del e d srv ctx) = snd (ns_sendto e d (server_pkt QRTR_TYPE_DEL_SERVER srv) ctx)"
  by (simp_all add: service_announce_new_def service_announce_del_def)

lemma lookup_notify_sent:
  "snd (lookup_notify e to (Some srv) new ctx) =
     snd (ns_sendto e to (server_pkt (if new then QRTR_TYPE_NEW_SERVER else QRTR_TYPE_DEL_SERVER) srv) ctx)"
  "snd (lookup_notify e to None new ctx) =
     snd (ns_sendto e to (ctrl_bytes (zero_pkt\<lparr>cmd := if new then QRTR_TYPE_NEW_SERVER else QRTR_TYPE_DEL_SERVER\<rparr>)) ctx)"
  by (simp_all add: lookup_notify_def)

text \<open>The observers of a server, and the notifications they get.\<close>

definition observes :: "lookup \<Rightarrow> u32 \<Rightarrow> u32 \<Rightarrow> bool" where
  "observes lk serv instance_id \<longleftrightarrow>
     (lk_service lk = 0 \<or> lk_service lk = serv) \<and> (lk_inst lk = 0 \<or> lk_inst lk = instance_id)"

definition notifications :: "ns_context \<Rightarrow> u32 \<Rightarrow> server \<Rightarrow> (sockaddr_qrtr \<times> u8 list) list" where
  "notifications ctx c srv =
     map (\<lambda>lk. (lk_sq lk, server_pkt c srv)) (filter (\<lambda>lk. observes lk (service srv) (inst srv)) (lookups ctx))"

lemma notify_loop_spec:
  "same_state ctx (notify_loop e lks serv ins srv new ctx) \<and>
   sent (notify_loop e lks serv ins srv new ctx) = sent ctx @
     map (\<lambda>lk. (lk_sq lk, server_pkt (if new then QRTR_TYPE_NEW_SERVER else QRTR_TYPE_DEL_SERVER) srv))
       (filter (\<lambda>lk. observes lk serv ins) lks)"
proof (induction e lks serv ins srv new ctx rule: notify_loop.induct)
  case (2 e lk lks serv ins srv new ctx)
  show ?case
  proof (cases "observes lk serv ins")
    case True
    with 2(3) show ?thesis
      by (auto simp: observes_def lookup_notify_sent intro: same_state_trans [OF same_state_sendto])
  next
    case False
    with 2(1,2) show ?thesis by (auto simp: observes_def)
  qed
qed simp

lemma propagate_spec:
  "same_state ctx (propagate e pkt srvs ctx) \<and>
   sent (propagate e pkt srvs ctx) = sent ctx @
     map (\<lambda>srv. (\<lparr>sq_family = AF_QIPCRTR, sq_node = srvnode srv, sq_port = port srv\<rparr>, pkt)) srvs"
  by (induction e pkt srvs ctx rule: propagate.induct)
    (auto intro: same_state_trans [OF same_state_sendto])

lemma reply_loop_spec:
  "same_state ctx (reply_loop e from srvs ctx) \<and>
   sent (reply_loop e from srvs ctx) = sent ctx @
     map (\<lambda>srv. (from, server_pkt QRTR_TYPE_NEW_SERVER srv)) srvs"
  by (induction e "from" srvs ctx rule: reply_loop.induct)
    (auto simp: lookup_notify_sent intro: same_state_trans [OF same_state_sendto])

lemma announce_loop_same: "same_state ctx (snd (announce_loop e sq srvs ctx))"
proof (induction e sq srvs ctx rule: announce_loop.induct)
  case (2 e sq srv srvs ctx)
  obtain rc c where a: "service_announce_new e sq srv ctx = (rc, c)" by fastforce
  then have "same_state ctx c" using announce_sent(1) [of e sq srv ctx] same_state_sendto by simp
  with 2 [OF refl a [symmetric]] a show ?case
    by (auto simp: Let_def intro: same_state_trans)
qed simp

text \<open>A client's query and its later notifications select the same servers.\<close>

lemma server_match_observes:
  "server_match srv \<lparr>f_service = s, f_inst = i, ifilter = 0\<rparr> \<longleftrightarrow>
     observes \<lparr>lk_service = s, lk_inst = i, lk_sq = sq\<rparr> (service srv) (inst srv)"
  by (auto simp: server_match_def observes_def Let_def)

section \<open>Invariant\<close>

definition env_ok :: "ns_env \<Rightarrow> bool" where
  "env_ok e \<longleftrightarrow> (\<forall>i. calloc_bounded (env_calloc e i))"

definition server_ok :: "u32 \<Rightarrow> u32 \<Rightarrow> server \<Rightarrow> bool" where
  "server_ok n k srv \<longleftrightarrow> k = hash_u32 (port srv) \<and> srvnode srv = n \<and> service srv \<noteq> 0 \<and> port srv \<noteq> 0"

definition node_ok :: "node \<Rightarrow> bool" where
  "node_ok nd \<longleftrightarrow> map_wf (services nd) \<and>
     (\<forall>k srv. Item k srv \<in> set (mdata (services nd)) \<longrightarrow> server_ok (nid nd) k srv)"

definition nodes_ok :: "nat qmap \<Rightarrow> node list \<Rightarrow> bool" where
  "nodes_ok m hp \<longleftrightarrow> fresh_table m \<and>
     (\<forall>k p. map_get m k = Some p \<longrightarrow> p < length hp \<and> k = hash_u32 (nid (hp ! p))) \<and>
     (\<forall>p<length hp. map_get m (hash_u32 (nid (hp ! p))) = Some p)"

definition ns_inv :: "ns_context \<Rightarrow> bool" where
  "ns_inv ctx \<longleftrightarrow> nodes_ok (nodes ctx) (heap ctx) \<and> (\<forall>nd\<in>set (heap ctx). node_ok nd) \<and>
     (\<forall>lk\<in>set (lookups ctx). sq_node (lk_sq lk) = local_node ctx)"

text \<open>The registry: the server a lookup of node and port finds.\<close>

definition registry :: "ns_context \<Rightarrow> u32 \<Rightarrow> u32 \<Rightarrow> server option" where
  "registry ctx n prt =
     (case map_get (nodes ctx) (hash_u32 n) of
        None \<Rightarrow> None
      | Some p \<Rightarrow> map_get (services (heap ctx ! p)) (hash_u32 prt))"

lemma ns_inv_same: "same_state c d \<Longrightarrow> ns_inv d = ns_inv c"
  by (auto simp: same_state_def ns_inv_def)

lemma registry_same: "same_state c d \<Longrightarrow> registry d = registry c"
  by (rule ext, rule ext) (simp add: registry_def same_stateD cong: option.case_cong)

lemma map_create_node_ok: "node_ok \<lparr>nid = n, services = map_create\<rparr>"
  using map_create_fresh by (auto simp: node_ok_def fresh_table_def map_create_def)

text \<open>The state \<open>node_get\<close> leaves: unchanged, or with one node more.\<close>

definition node_added :: "u32 \<Rightarrow> ns_context \<Rightarrow> ns_context \<Rightarrow> bool" where
  "node_added n c d \<longleftrightarrow> heap d = heap c @ [\<lparr>nid = n, services = map_create\<rparr>] \<and>
     sock d = sock c \<and> local_node d = local_node c \<and> bcast_sq d = bcast_sq c \<and> lookups d = lookups c \<and>
     sent d = sent c \<and> map_get (nodes c) (hash_u32 n) = None \<and>
     map_get (nodes d) = (map_get (nodes c))(hash_u32 n \<mapsto> length (heap c))"

lemma nodes_ok_add:
  assumes ok: "nodes_ok m hp" and "fresh_table m'" and new: "map_get m (hash_u32 n) = None"
    and get: "map_get m' = (map_get m)(hash_u32 n \<mapsto> length hp)" and nid: "nid nd = n"
  shows "nodes_ok m' (hp @ [nd])"
  unfolding nodes_ok_def
proof (intro conjI allI impI)
  fix k p assume k: "map_get m' k = Some p"
  have "p < length (hp @ [nd]) \<and> k = hash_u32 (nid ((hp @ [nd]) ! p))"
  proof (cases "k = hash_u32 n")
    case True
    with k nid show ?thesis by (auto simp: get)
  next
    case False
    with k have "map_get m k = Some p" by (simp add: get)
    then have "p < length hp" "k = hash_u32 (nid (hp ! p))" using ok by (auto simp: nodes_ok_def)
    then show ?thesis by (simp add: nth_append)
  qed
  then show "p < length (hp @ [nd])" "k = hash_u32 (nid ((hp @ [nd]) ! p))" by auto
next
  fix p assume p: "p < length (hp @ [nd])"
  show "map_get m' (hash_u32 (nid ((hp @ [nd]) ! p))) = Some p"
  proof (cases "p < length hp")
    case True
    then have "map_get m (hash_u32 (nid (hp ! p))) = Some p" using ok by (simp add: nodes_ok_def)
    with new True show ?thesis by (auto simp: get nth_append)
  next
    case False
    with p nid show ?thesis by (simp add: get nth_append)
  qed
qed (rule assms(2))

lemma node_get_spec:
  assumes env: "env_ok e" and inv: "ns_inv ctx"
  obtains (found) p where "node_get e n ctx = Some (Some p, ctx)" "p < length (heap ctx)"
      "nid (heap ctx ! p) = n" "map_get (nodes ctx) (hash_u32 n) = Some p"
  | (added) ctx' where "node_get e n ctx = Some (Some (length (heap ctx)), ctx')"
      "node_added n ctx ctx'" "ns_inv ctx'"
  | (failed) a where "node_get e n ctx = Some (None, ctx\<lparr>allocs := a\<rparr>)" "ns_inv (ctx\<lparr>allocs := a\<rparr>)"
      "map_get (nodes ctx) (hash_u32 n) = None"
proof (cases "map_get (nodes ctx) (hash_u32 n)")
  case (Some p)
  then have "p < length (heap ctx)" "hash_u32 n = hash_u32 (nid (heap ctx ! p))"
    using inv by (auto simp: ns_inv_def nodes_ok_def)
  with Some show ?thesis by (intro found [of p]) (simp_all add: node_get_def)
next
  case None
  have inv_allocs: "ns_inv (ctx\<lparr>allocs := a\<rparr>)" for a using inv by (simp add: ns_inv_def)
  show ?thesis
  proof (cases "env_calloc e (allocs ctx) 1")
    case False
    with None have "node_get e n ctx = Some (None, ctx\<lparr>allocs := allocs ctx + 1\<rparr>)"
      by (simp add: node_get_def)
    then show ?thesis using inv_allocs None by (rule failed)
  next
    case True
    let ?p = "length (heap ctx)" and ?calloc = "env_calloc e (allocs ctx + 1)"
    have fresh: "fresh_table (nodes ctx)" using inv by (simp add: ns_inv_def nodes_ok_def)
    then have wf: "map_wf (nodes ctx)" "keys_distinct (nodes ctx)" "no_deleted (nodes ctx)"
      by (simp_all add: fresh_table_def)
    have bnd: "calloc_bounded ?calloc" using env by (simp add: env_ok_def)
    obtain rc old m where r: "map_reput ?calloc (nodes ctx) (hash_u32 n) (Some ?p) = Some (rc, old, m)"
        "rc = 0 \<or> rc = -1 \<and> m = nodes ctx"
      using map_reput_returns [OF wf(1) bnd] by blast
    show ?thesis
    proof (cases "rc = 0")
      case False
      with r True None have "node_get e n ctx = Some (None, ctx\<lparr>allocs := allocs ctx + 2\<rparr>)"
        by (simp add: node_get_def map_put_def Let_def)
      then show ?thesis using inv_allocs None by (rule failed)
    next
      case ok: True
      let ?ctx = "ctx\<lparr>nodes := m, allocs := allocs ctx + 2,
        heap := heap ctx @ [\<lparr>nid = n, services = map_create\<rparr>]\<rparr>"
      have get: "map_get m = (map_get (nodes ctx))(hash_u32 n \<mapsto> ?p)"
        using map_reput_get [OF wf(1) bnd wf(2)] r(1) ok by blast
      have "fresh_table m"
        using map_reput_wf [OF wf(1) bnd r(1)] map_reput_distinct [OF wf(1) bnd wf(2) _ r(1)]
          map_reput_no_deleted [OF wf(1) bnd wf(3) r(1)] wf(3) by (simp add: fresh_table_def)
      then have "ns_inv ?ctx"
        using inv map_create_node_ok nodes_ok_add [OF _ _ None get] by (auto simp: ns_inv_def)
      moreover have "node_added n ctx ?ctx"
        using None get by (simp add: node_added_def)
      moreover have "node_get e n ctx = Some (Some ?p, ?ctx)"
        using r(1) ok None True by (simp add: node_get_def map_put_def Let_def)
      ultimately show ?thesis by (intro added)
    qed
  qed
qed

lemma registry_allocs [simp]: "registry (ctx\<lparr>allocs := a\<rparr>) = registry ctx"
  by (rule ext, rule ext) (simp add: registry_def cong: option.case_cong)

lemma ns_inv_allocs [simp]: "ns_inv (ctx\<lparr>allocs := a\<rparr>) = ns_inv ctx"
  by (simp add: ns_inv_def)

lemma inv_lookup:
  assumes "ns_inv ctx" "map_get (nodes ctx) (hash_u32 n) = Some p"
  shows "p < length (heap ctx)" and "nid (heap ctx ! p) = n"
proof -
  have "p < length (heap ctx) \<and> hash_u32 n = hash_u32 (nid (heap ctx ! p))"
    using assms unfolding ns_inv_def nodes_ok_def by blast
  then show "p < length (heap ctx)" and "nid (heap ctx ! p) = n" by simp_all
qed

lemma registry_added:
  assumes add: "node_added n c d" and inv: "ns_inv c"
  shows "registry d = registry c"
proof (rule ext, rule ext)
  fix n' prt
  have bound: "map_get (nodes c) k = Some p \<Longrightarrow> p < length (heap c)" for k p
    using inv by (auto simp: ns_inv_def nodes_ok_def)
  have d: "heap d = heap c @ [\<lparr>nid = n, services = map_create\<rparr>]" "map_get (nodes c) (hash_u32 n) = None"
    "map_get (nodes d) = (map_get (nodes c))(hash_u32 n \<mapsto> length (heap c))"
    using add by (auto simp: node_added_def)
  show "registry d n' prt = registry c n' prt"
  proof (cases "n' = n")
    case True
    with d show ?thesis by (simp add: registry_def map_create_get)
  next
    case False
    with d bound show ?thesis
      by (auto simp: registry_def nth_append split: option.split)
  qed
qed

lemma ns_inv_set_services:
  assumes inv: "ns_inv ctx" and p: "p < length (heap ctx)"
    and ok: "node_ok \<lparr>nid = nid (heap ctx ! p), services = m\<rparr>"
  shows "ns_inv (set_services p m ctx)"
proof -
  let ?hp = "(heap ctx)[p := (heap ctx ! p)\<lparr>services := m\<rparr>]"
  have "nid (?hp ! q) = nid (heap ctx ! q)" for q
    using p by (cases "q = p") simp_all
  then have "nodes_ok (nodes ctx) ?hp"
    using inv by (simp add: ns_inv_def nodes_ok_def)
  moreover have "node_ok ((heap ctx ! p)\<lparr>services := m\<rparr>)"
    using ok by (simp add: node_ok_def)
  ultimately show ?thesis
    using inv by (auto simp: ns_inv_def set_services_def dest!: subsetD [OF set_update_subset_insert])
qed

lemma registry_set_services:
  assumes inv: "ns_inv ctx" and p: "map_get (nodes ctx) (hash_u32 n) = Some p"
  shows "registry (set_services p m ctx) = (registry ctx)(n := \<lambda>prt. map_get m (hash_u32 prt))"
proof (rule ext, rule ext)
  fix n' prt
  note inv_lookup [OF inv p]
  moreover have "q \<noteq> p" if "map_get (nodes ctx) (hash_u32 n') = Some q" "n' \<noteq> n" for q
    using inv_lookup [OF inv that(1)] inv_lookup [OF inv p] that(2) by auto
  ultimately show "registry (set_services p m ctx) n' prt =
      ((registry ctx)(n := \<lambda>prt. map_get m (hash_u32 prt))) n' prt"
    using p by (auto simp: registry_def set_services_def split: option.split)
qed

lemma inv_node:
  assumes "ns_inv ctx" "p < length (heap ctx)"
  shows "map_wf (services (heap ctx ! p))"
    and "Item k srv \<in> set (mdata (services (heap ctx ! p))) \<Longrightarrow> server_ok (nid (heap ctx ! p)) k srv"
    and "map_get (nodes ctx) (hash_u32 (nid (heap ctx ! p))) = Some p"
  using assms by (auto simp: ns_inv_def node_ok_def nodes_ok_def)

lemma registry_node:
  assumes "ns_inv ctx" "p < length (heap ctx)"
  shows "registry ctx (nid (heap ctx ! p)) prt = map_get (services (heap ctx ! p)) (hash_u32 prt)"
  using inv_node(3) [OF assms] by (simp add: registry_def)

lemma registry_ok:
  assumes inv: "ns_inv ctx" and r: "registry ctx n prt = Some srv"
  shows "server_ok n (hash_u32 prt) srv" and "port srv = prt" and "srvnode srv = n"
proof -
  obtain p where p: "map_get (nodes ctx) (hash_u32 n) = Some p"
      "map_get (services (heap ctx ! p)) (hash_u32 prt) = Some srv"
    using r by (auto simp: registry_def split: option.splits)
  note b = inv_lookup [OF inv p(1)]
  show *: "server_ok n (hash_u32 prt) srv"
    using inv_node(2) [OF inv b(1) map_get_item [OF inv_node(1) [OF inv b(1)] p(2)]] b(2) by simp
  then show "port srv = prt" and "srvnode srv = n" by (simp_all add: server_ok_def)
qed

lemma node_ok_remove:
  assumes "node_ok nd"
  shows "node_ok \<lparr>nid = nid nd, services = snd (map_remove (services nd) k)\<rparr>"
  using assms by (auto simp: node_ok_def map_remove_wf dest: map_remove_items)

text \<open>The messages about the disappearance of a server.\<close>

definition removal_msgs :: "ns_context \<Rightarrow> server \<Rightarrow> (sockaddr_qrtr \<times> u8 list) list" where
  "removal_msgs ctx srv =
     (if srvnode srv = local_node ctx then [(bcast_sq ctx, server_pkt QRTR_TYPE_DEL_SERVER srv)] else [])
     @ notifications ctx QRTR_TYPE_DEL_SERVER srv"

lemma server_del_spec:
  assumes inv: "ns_inv ctx" and p: "p < length (heap ctx)"
  shows "server_del e p prt ctx =
      (case registry ctx (nid (heap ctx ! p)) prt of
         None \<Rightarrow> (- ENOENT, ctx)
       | Some srv \<Rightarrow> (0, (set_services p (snd (map_remove (services (heap ctx ! p)) (hash_u32 prt))) ctx)
                        \<lparr>sent := sent ctx @ removal_msgs ctx srv\<rparr>))"
proof (cases "registry ctx (nid (heap ctx ! p)) prt")
  case None
  then show ?thesis using registry_node [OF inv p, of prt] by (simp add: server_del_def)
next
  case (Some srv)
  let ?c1 = "set_services p (snd (map_remove (services (heap ctx ! p)) (hash_u32 prt))) ctx"
  let ?c2 = "if srvnode srv = local_node ?c1 then snd (service_announce_del e (bcast_sq ?c1) srv ?c1) else ?c1"
  let ?c3 = "notify_loop e (lookups ?c2) (service srv) (inst srv) srv False ?c2"
  have del: "server_del e p prt ctx = (0, ?c3)"
    using Some registry_node [OF inv p, of prt] by (simp add: server_del_def Let_def)
  have c1: "local_node ?c1 = local_node ctx" "bcast_sq ?c1 = bcast_sq ctx" "lookups ?c1 = lookups ctx"
    "sent ?c1 = sent ctx" by (simp_all add: set_services_def)
  have s12: "same_state ?c1 ?c2" by (simp add: announce_sent)
  have "same_state ?c1 ?c3" using s12 notify_loop_spec same_state_trans by blast
  moreover have "sent ?c3 = sent ctx @ removal_msgs ctx srv"
    using notify_loop_spec [of ?c2] same_stateD(4) [OF s12]
    by (simp add: c1 removal_msgs_def notifications_def announce_sent)
  ultimately have "?c3 = ?c1\<lparr>sent := sent ctx @ removal_msgs ctx srv\<rparr>"
    by (auto simp: same_state_def)
  with del Some show ?thesis by simp
qed

text \<open>The parts of the state that only sending, observers and start-up change.\<close>

definition ns_frame :: "ns_context \<Rightarrow> ns_context \<Rightarrow> bool" where
  "ns_frame c d \<longleftrightarrow> sock d = sock c \<and> local_node d = local_node c \<and> bcast_sq d = bcast_sq c \<and>
     lookups d = lookups c \<and> sent d = sent c"

text \<open>No table of servers holds two entries for one port.\<close>

definition clean :: "ns_context \<Rightarrow> bool" where
  "clean ctx \<longleftrightarrow> (\<forall>nd\<in>set (heap ctx). keys_distinct (services nd))"

lemma clean_node: "clean ctx \<Longrightarrow> p < length (heap ctx) \<Longrightarrow> keys_distinct (services (heap ctx ! p))"
  by (simp add: clean_def)

lemma clean_same: "same_state c d \<Longrightarrow> clean d = clean c"
  by (simp add: clean_def same_stateD)

lemma clean_added: "node_added n c d \<Longrightarrow> clean d = clean c"
  using map_create_fresh by (auto simp: clean_def node_added_def fresh_table_def)

lemma clean_set_services:
  "clean ctx \<Longrightarrow> keys_distinct m \<Longrightarrow> clean (set_services p m ctx)"
  by (auto simp: clean_def set_services_def dest!: subsetD [OF set_update_subset_insert])

lemma frame_added: "node_added n c d \<Longrightarrow> ns_frame c d"
  by (simp add: node_added_def ns_frame_def)

lemma frame_trans: "ns_frame a b \<Longrightarrow> ns_frame b c \<Longrightarrow> ns_frame a c"
  by (simp add: ns_frame_def)

lemma frame_simps_ns [simp]:
  "ns_frame c c" "ns_frame c (d\<lparr>allocs := a\<rparr>) = ns_frame c d" "ns_frame (c\<lparr>allocs := a\<rparr>) d = ns_frame c d"
  "ns_frame c (set_services p m d) = ns_frame c d"
  by (simp_all add: ns_frame_def set_services_def)

lemma set_services_allocs: "(set_services p m ctx)\<lparr>allocs := a\<rparr> = set_services p m (ctx\<lparr>allocs := a\<rparr>)"
  by (simp add: set_services_def)

lemma clean_allocs [simp]: "clean (ctx\<lparr>allocs := a\<rparr>) = clean ctx"
  by (simp add: clean_def)

text \<open>\<open>node_get\<close> always returns, and to a lookup its effect is invisible.\<close>

lemma node_get_view:
  assumes "env_ok e" "ns_inv ctx"
  obtains (got) p ctx' where "node_get e n ctx = Some (Some p, ctx')" "ns_inv ctx'" "ns_frame ctx ctx'"
      "registry ctx' = registry ctx" "clean ctx' = clean ctx" "p < length (heap ctx')"
      "nid (heap ctx' ! p) = n" "map_get (nodes ctx') (hash_u32 n) = Some p"
      "ctx' = ctx \<or> map_get (nodes ctx) (hash_u32 n) = None"
  | (failed) ctx' where "node_get e n ctx = Some (None, ctx')" "ns_inv ctx'" "ns_frame ctx ctx'"
      "registry ctx' = registry ctx" "clean ctx' = clean ctx" "registry ctx n = (\<lambda>_. None)"
  using assms
proof (cases rule: node_get_spec [where n = n])
  case (found p)
  with assms show ?thesis by (intro got [of p ctx]) simp_all
next
  case (added ctx')
  then have "nid (heap ctx' ! length (heap ctx)) = n" "length (heap ctx) < length (heap ctx')"
    "map_get (nodes ctx') (hash_u32 n) = Some (length (heap ctx))" "map_get (nodes ctx) (hash_u32 n) = None"
    by (auto simp: node_added_def)
  with added assms registry_added clean_added frame_added show ?thesis by (intro got) auto
next
  case (failed a)
  moreover have "registry ctx n = (\<lambda>_. None)"
    using failed(3) by (simp add: registry_def fun_eq_iff)
  ultimately show ?thesis using that(2) [of "ctx\<lparr>allocs := a\<rparr>"] by simp
qed

lemma server_add_spec:
  fixes s i n prt :: u32
  assumes env: "env_ok e" and inv: "ns_inv ctx"
  defines "srv \<equiv> \<lparr>service = s, inst = i, srvnode = n, port = prt\<rparr>"
  obtains (refused) ctx' where "server_add e s i n prt ctx = Some (None, ctx')" "ns_inv ctx'"
      "ns_frame ctx ctx'" "registry ctx' = registry ctx" "clean ctx' = clean ctx"
  | (added) ctx' where "server_add e s i n prt ctx = Some (Some srv, ctx')" "ns_inv ctx'"
      "ns_frame ctx ctx'" "s \<noteq> 0" "prt \<noteq> 0" "registry ctx' n prt = Some srv"
      "clean ctx \<Longrightarrow> registry ctx' = (registry ctx)(n := (registry ctx n)(prt \<mapsto> srv))"
      "clean ctx \<Longrightarrow> registry ctx n prt = None \<Longrightarrow> clean ctx'"
proof (cases "s = 0 \<or> prt = 0 \<or> \<not> env_calloc e (allocs ctx) 1")
  case True
  then have "server_add e s i n prt ctx =
      Some (None, if s = 0 \<or> prt = 0 then ctx else ctx\<lparr>allocs := allocs ctx + 1\<rparr>)"
    by (auto simp: server_add_def)
  then show ?thesis using inv
    by (intro refused [of "if s = 0 \<or> prt = 0 then ctx else ctx\<lparr>allocs := allocs ctx + 1\<rparr>"]) simp_all
next
  case False
  then have nz: "s \<noteq> 0" "prt \<noteq> 0" "env_calloc e (allocs ctx) 1" by auto
  let ?c0 = "ctx\<lparr>allocs := allocs ctx + 1\<rparr>"
  have inv0: "ns_inv ?c0" using inv by simp
  from env inv0 show ?thesis
  proof (cases rule: node_get_view [where n = n])
    case (failed c1)
    then have "server_add e s i n prt ctx = Some (None, c1)" using nz by (simp add: server_add_def Let_def)
    with failed show ?thesis by (intro refused [of c1]) simp_all
  next
    case (got p c1)
    let ?m = "services (heap c1 ! p)"
    have ok: "node_ok (heap c1 ! p)" and wf: "map_wf ?m"
      using got inv_node(1) by (auto simp: ns_inv_def)
    have bnd: "calloc_bounded (env_calloc e (allocs c1))" using env by (simp add: env_ok_def)
    obtain rc old m where r: "map_reput (env_calloc e (allocs c1)) ?m (hash_u32 prt) (Some srv) = Some (rc, old, m)"
        "rc = 0 \<or> rc = -1 \<and> m = ?m"
      using map_reput_returns [OF wf bnd] by blast
    let ?c2 = "(set_services p m c1)\<lparr>allocs := allocs c1 + 1\<rparr>"
    have add: "server_add e s i n prt ctx = Some (if rc \<noteq> 0 then None else Some srv, ?c2)"
      using nz got(1) r(1) by (simp add: server_add_def Let_def srv_def)
    have "node_ok \<lparr>nid = nid (heap c1 ! p), services = m\<rparr>"
      unfolding node_ok_def
    proof (intro conjI allI impI; simp)
      show "map_wf m" using map_reput_wf [OF wf bnd r(1)] .
      fix k x assume "Item k x \<in> set (mdata m)"
      then have "(k, x) = (hash_u32 prt, srv) \<or> Item k x \<in> set (mdata ?m)"
        by (rule map_reput_items [OF wf bnd r(1)])
      then show "server_ok (nid (heap c1 ! p)) k x"
        using ok got(7) nz by (auto simp: node_ok_def server_ok_def srv_def)
    qed
    then have inv2: "ns_inv ?c2" using got(2,6) by (simp add: ns_inv_set_services)
    have reg: "registry ?c2 = (registry ctx)(n := \<lambda>q. map_get m (hash_u32 q))"
      using registry_set_services [OF got(2,8)] got(4) by simp
    have regn: "registry ctx n q = map_get ?m (hash_u32 q)" for q
      using registry_node [OF got(2,6)] got(4,7) by simp
    show ?thesis
    proof (cases "rc = 0")
      case False
      with r(2) have "m = ?m" by simp
      then have "?c2 = c1\<lparr>allocs := allocs c1 + 1\<rparr>" by (simp add: set_services_def)
      with add False inv2 got show ?thesis by (intro refused [of ?c2]) auto
    next
      case True
      have "registry ?c2 n prt = Some srv"
        using map_reput_get_same [OF wf bnd] r(1) True reg by simp
      moreover have "registry ?c2 = (registry ctx)(n := (registry ctx n)(prt \<mapsto> srv))" if "clean ctx"
      proof -
        have "keys_distinct ?m" using that got(5,6) clean_node by simp
        then have "map_get m = (map_get ?m)(hash_u32 prt \<mapsto> srv)"
          using map_reput_get [OF wf bnd] r(1) True by blast
        then show ?thesis unfolding reg by (auto simp: fun_eq_iff regn)
      qed
      moreover have "clean ?c2" if "clean ctx" "registry ctx n prt = None"
      proof -
        have "keys_distinct ?m" using that got(5,6) clean_node by simp
        then have "keys_distinct m"
          using map_reput_distinct [OF wf bnd _ _ r(1)] that(2) regn by simp
        then show ?thesis using that(1) got(5) by (simp add: clean_set_services)
      qed
      ultimately show ?thesis
        using add True inv2 nz got(3) by (intro added [of ?c2]) simp_all
    qed
  qed
qed

lemma ns_inv_sent [simp]: "ns_inv (ctx\<lparr>sent := xs\<rparr>) = ns_inv ctx"
  and clean_sent [simp]: "clean (ctx\<lparr>sent := xs\<rparr>) = clean ctx"
  and registry_sent [simp]: "registry (ctx\<lparr>sent := xs\<rparr>) = registry ctx"
proof -
  have "same_state ctx (ctx\<lparr>sent := xs\<rparr>)" by (auto simp: same_state_def)
  then show "ns_inv (ctx\<lparr>sent := xs\<rparr>) = ns_inv ctx" "clean (ctx\<lparr>sent := xs\<rparr>) = clean ctx"
    "registry (ctx\<lparr>sent := xs\<rparr>) = registry ctx"
    by (simp_all add: ns_inv_same clean_same registry_same)
qed

definition gone :: "nat \<Rightarrow> u32 \<Rightarrow> ns_context \<Rightarrow> ns_context" where
  "gone p prt ctx = set_services p (snd (map_remove (services (heap ctx ! p)) (hash_u32 prt))) ctx"

lemma gone_fields [simp]:
  "sock (gone p prt ctx) = sock ctx" "local_node (gone p prt ctx) = local_node ctx"
  "bcast_sq (gone p prt ctx) = bcast_sq ctx" "lookups (gone p prt ctx) = lookups ctx"
  "nodes (gone p prt ctx) = nodes ctx" "sent (gone p prt ctx) = sent ctx"
  "length (heap (gone p prt ctx)) = length (heap ctx)"
  by (simp_all add: gone_def set_services_def)

lemma gone_heap: "p < length (heap ctx) \<Longrightarrow> heap (gone p prt ctx) ! q =
    (if q = p then (heap ctx ! p)\<lparr>services := snd (map_remove (services (heap ctx ! p)) (hash_u32 prt))\<rparr>
     else heap ctx ! q)"
  by (simp add: gone_def set_services_def)

lemma gone_inv:
  assumes inv: "ns_inv ctx" and p: "p < length (heap ctx)"
  shows "ns_inv (gone p prt ctx)"
    and "clean ctx \<Longrightarrow> clean (gone p prt ctx)"
    and "clean ctx \<Longrightarrow> registry (gone p prt ctx) =
      (registry ctx)(nid (heap ctx ! p) := (registry ctx (nid (heap ctx ! p)))(prt := None))"
proof -
  have "node_ok (heap ctx ! p)" using assms by (simp add: ns_inv_def)
  then show "ns_inv (gone p prt ctx)"
    unfolding gone_def by (intro ns_inv_set_services [OF assms] node_ok_remove)
next
  assume "clean ctx"
  note wf = inv_node(1) [OF assms] clean_node [OF \<open>clean ctx\<close> p]
  show "clean (gone p prt ctx)"
    unfolding gone_def using \<open>clean ctx\<close> map_remove_distinct [OF wf] by (rule clean_set_services)
  show "registry (gone p prt ctx) =
      (registry ctx)(nid (heap ctx ! p) := (registry ctx (nid (heap ctx ! p)))(prt := None))"
    unfolding gone_def registry_set_services [OF inv inv_node(3) [OF assms]]
    by (auto simp: fun_eq_iff map_remove_get [OF wf] registry_node [OF assms])
qed

lemma server_del_gone:
  assumes "ns_inv ctx" "p < length (heap ctx)"
  shows "server_del e p prt ctx =
      (case registry ctx (nid (heap ctx ! p)) prt of
         None \<Rightarrow> (- ENOENT, ctx)
       | Some srv \<Rightarrow> (0, (gone p prt ctx)\<lparr>sent := sent ctx @ removal_msgs ctx srv\<rparr>))"
  unfolding gone_def by (rule server_del_spec [OF assms])

lemma removal_msgs_cong:
  "local_node d = local_node c \<Longrightarrow> bcast_sq d = bcast_sq c \<Longrightarrow> lookups d = lookups c \<Longrightarrow>
     removal_msgs d = removal_msgs c"
  by (rule ext) (simp add: removal_msgs_def notifications_def)

text \<open>The servers of a node in the order the iteration visits them, from a given slot on.\<close>

definition servers_from :: "server qmap \<Rightarrow> nat \<Rightarrow> server list" where
  "servers_from m i = map (\<lambda>j. sval (mdata m ! j)) (filter (\<lambda>j. is_item (mdata m ! j)) [i..<msize m])"

lemma servers_from_cong:
  assumes "msize m' = msize m" "\<And>j. i \<le> j \<Longrightarrow> mdata m' ! j = mdata m ! j"
  shows "servers_from m' i = servers_from m i"
proof -
  have "filter (\<lambda>j. is_item (mdata m' ! j)) [i..<msize m] = filter (\<lambda>j. is_item (mdata m ! j)) [i..<msize m]"
    using assms(2) by (intro filter_cong) auto
  with assms show ?thesis by (auto simp: servers_from_def)
qed

lemma servers_from_step:
  "i < msize m \<Longrightarrow> servers_from m i = (if is_item (mdata m ! i) then [sval (mdata m ! i)] else [])
     @ servers_from m (Suc i)"
  by (simp add: servers_from_def upt_conv_Cons)

lemma servers_from_end: "msize m \<le> i \<Longrightarrow> servers_from m i = []"
  by (simp add: servers_from_def)

lemma servers_from_0: "servers_from m 0 = map_for_each m"
  by (simp add: servers_from_def map_for_each_def map_iter_first_def map_iter_from_walk)

lemma find_own_slot:
  assumes "map_wf m" "keys_distinct m" "j < msize m" "mdata m ! j = Item k v"
  shows "map_find m k = Some j"
proof -
  have "map_get m k = Some v" using assms by (auto simp: map_get_Some_iff)
  then obtain j' where "map_find m k = Some j'" using assms(1) by (auto simp: map_get_find)
  moreover from this map_find_Some [OF assms(1) this] have "j' = j"
    using assms by (auto simp: keys_distinct_def)
  ultimately show ?thesis by simp
qed

lemma bye_loop_spec:
  assumes "ns_inv ctx" "clean ctx" "p < length (heap ctx)"
  shows "\<exists>m. bye_loop e p (map_iter_from (services (heap ctx ! p)) i) ctx =
      (set_services p m ctx)\<lparr>sent := sent ctx @
         concat (map (removal_msgs ctx) (servers_from (services (heap ctx ! p)) i))\<rparr> \<and>
    ns_inv (set_services p m ctx) \<and> clean (set_services p m ctx) \<and>
    msize m = msize (services (heap ctx ! p)) \<and>
    (\<forall>j<msize m. is_item (mdata m ! j) \<longleftrightarrow> j < i \<and> is_item (mdata (services (heap ctx ! p)) ! j))"
  using assms
proof (induction "msize (services (heap ctx ! p)) - i" arbitrary: i ctx)
  case 0
  let ?m = "services (heap ctx ! p)"
  have "bye_loop e p (map_iter_from ?m i) ctx = ctx" using 0 by (simp add: map_iter_from.simps)
  moreover have "set_services p ?m ctx = ctx" by (simp add: set_services_def)
  ultimately show ?case using 0 by (intro exI [of _ ?m]) (auto simp: servers_from_end)
next
  case (Suc d)
  let ?m = "services (heap ctx ! p)"
  have i: "i < msize ?m" using Suc.hyps(2) by simp
  show ?case
  proof (cases "is_item (mdata ?m ! i)")
    case True
    then obtain k srv where Item: "mdata ?m ! i = Item k srv" by (auto simp: is_item_conv)
    note wf = inv_node(1) [OF Suc.prems(1,3)] clean_node [OF Suc.prems(2,3)]
    have len: "length (mdata ?m) = msize ?m" using wf(1) by (simp add: map_wf_def)
    have k: "k = hash_u32 (port srv)"
      using inv_node(2) [OF Suc.prems(1,3), of k srv] Item i len by (auto simp: server_ok_def in_set_conv_nth)
    have find: "map_find ?m (hash_u32 (port srv)) = Some i"
      using find_own_slot [OF wf i Item] k by simp
    then have "map_get ?m (hash_u32 (port srv)) = Some srv" by (simp add: map_get_def Item)
    then have reg: "registry ctx (nid (heap ctx ! p)) (port srv) = Some srv"
      using registry_node [OF Suc.prems(1,3)] by simp
    let ?c = "(gone p (port srv) ctx)\<lparr>sent := sent ctx @ removal_msgs ctx srv\<rparr>"
    let ?m' = "snd (map_remove ?m (hash_u32 (port srv)))"
    have serv: "services (heap ?c ! p) = ?m'" "msize ?m' = msize ?m" "mdata ?m' = (mdata ?m)[i := Deleted]"
      using Suc.prems(3) map_remove_Some(2,3) [OF wf(1) find] by (simp_all add: gone_heap)
    have step: "bye_loop e p (map_iter_from ?m i) ctx = bye_loop e p (map_iter_from (services (heap ?c ! p)) (Suc i)) ?c"
      by (subst map_iter_from.simps)
        (simp add: i Item server_del_gone [OF Suc.prems(1,3)] reg Let_def map_iter_next_def)
    have pre: "ns_inv ?c" "clean ?c" "p < length (heap ?c)" "d = msize (services (heap ?c ! p)) - Suc i"
      using Suc gone_inv [OF Suc.prems(1,3)] serv by simp_all
    have rem: "servers_from ?m' (Suc i) = servers_from ?m (Suc i)"
      using serv by (intro servers_from_cong) simp_all
    obtain m where m: "bye_loop e p (map_iter_from (services (heap ?c ! p)) (Suc i)) ?c =
        (set_services p m ?c)\<lparr>sent := sent ?c @ concat (map (removal_msgs ?c) (servers_from ?m' (Suc i)))\<rparr>"
      "ns_inv (set_services p m ?c)" "clean (set_services p m ?c)" "msize m = msize ?m'"
      "\<forall>j<msize m. is_item (mdata m ! j) \<longleftrightarrow> j < Suc i \<and> is_item (mdata ?m' ! j)"
      using Suc.hyps(1) [OF pre(4,1-3)] serv by auto
    have over: "set_services p m ?c = (set_services p m ctx)\<lparr>sent := sent ctx @ removal_msgs ctx srv\<rparr>"
      using Suc.prems(3) by (simp add: set_services_def gone_def)
    have msgs: "removal_msgs ?c = removal_msgs ctx" by (rule removal_msgs_cong) simp_all
    have items: "is_item (mdata m ! j) \<longleftrightarrow> j < i \<and> is_item (mdata ?m ! j)" if "j < msize m" for j
      using m(4,5) that serv len i by (auto simp: nth_list_update less_Suc_eq)
    have "bye_loop e p (map_iter_from ?m i) ctx =
        (set_services p m ctx)\<lparr>sent := sent ctx @ concat (map (removal_msgs ctx) (servers_from ?m i))\<rparr>"
      using m(1) step over msgs rem servers_from_step [OF i] Item by simp
    moreover have "ns_inv (set_services p m ctx)" "clean (set_services p m ctx)"
      using m(2,3) over by simp_all
    ultimately show ?thesis using m(4) serv(2) items by (intro exI [of _ m]) auto
  next
    case False
    have "d = msize ?m - Suc i" using Suc.hyps(2) by simp
    from Suc.hyps(1) [OF this Suc.prems] obtain m where m:
      "bye_loop e p (map_iter_from ?m (Suc i)) ctx = (set_services p m ctx)\<lparr>sent := sent ctx @
         concat (map (removal_msgs ctx) (servers_from ?m (Suc i)))\<rparr>"
      "ns_inv (set_services p m ctx)" "clean (set_services p m ctx)" "msize m = msize ?m"
      "\<forall>j<msize m. is_item (mdata m ! j) \<longleftrightarrow> j < Suc i \<and> is_item (mdata ?m ! j)"
      by blast
    have "map_iter_from ?m i = map_iter_from ?m (Suc i)"
      using i False by (subst map_iter_from.simps) simp
    moreover have "\<forall>j<msize m. is_item (mdata m ! j) \<longleftrightarrow> j < i \<and> is_item (mdata ?m ! j)"
      using m(5) False by (auto simp: less_Suc_eq)
    ultimately show ?thesis
      using m(1-4) False servers_from_step [OF i] by (intro exI [of _ m]) simp
  qed
qed

section \<open>Every handler returns and keeps the invariant\<close>

text \<open>What all handlers keep besides the invariant: the server's own node and the broadcast address.\<close>

definition ns_keep :: "ns_context \<Rightarrow> ns_context \<Rightarrow> bool" where
  "ns_keep c d \<longleftrightarrow> ns_inv d \<and> local_node d = local_node c \<and> bcast_sq d = bcast_sq c"

lemma keep_frame: "ns_frame c d \<Longrightarrow> ns_inv d \<Longrightarrow> ns_keep c d"
  by (simp add: ns_keep_def ns_frame_def)

lemma keep_same: "same_state c d \<Longrightarrow> ns_inv c \<Longrightarrow> ns_keep c d"
  by (simp add: ns_keep_def same_stateD ns_inv_same)

lemma keep_trans: "ns_keep a b \<Longrightarrow> ns_keep b c \<Longrightarrow> ns_keep a c"
  by (simp add: ns_keep_def)

lemma keep_inv: "ns_keep a b \<Longrightarrow> ns_inv b"
  by (simp add: ns_keep_def)

lemma server_del_keep:
  assumes "ns_inv ctx" "p < length (heap ctx)"
  shows "ns_keep ctx (snd (server_del e p prt ctx))"
    and "lookups (snd (server_del e p prt ctx)) = lookups ctx"
    and "length (heap (snd (server_del e p prt ctx))) = length (heap ctx)"
  using gone_inv(1) [OF assms] assms(1)
  by (simp_all add: server_del_gone [OF assms] ns_keep_def split: option.split)

lemma bye_loop_keep:
  "ns_inv ctx \<Longrightarrow> p < length (heap ctx) \<Longrightarrow> ns_keep ctx (bye_loop e p me ctx)"
proof (induction e p me ctx rule: bye_loop.induct)
  case (2 e p me ctx)
  let ?c = "snd (server_del e p (port (sval (mdata (services (heap ctx ! p)) ! me))) ctx)"
  note k = server_del_keep [OF "2.prems"]
  have "ns_keep ?c (bye_loop e p (map_iter_next (services (heap ?c ! p)) (Some me)) ?c)"
    using keep_inv [OF k(1)] k(3) "2.prems" by (intro "2.IH") auto
  with k(1) show ?case by (auto simp: Let_def intro: keep_trans)
qed (simp add: ns_keep_def)

lemma annouce_servers_keep:
  assumes "env_ok e" "ns_inv ctx"
  shows "\<exists>rc ctx'. annouce_servers e sq ctx = Some (rc, ctx') \<and> ns_keep ctx ctx'"
  using assms
proof (cases rule: node_get_view [where n = "local_node ctx"])
  case (got p c1)
  let ?r = "announce_loop e sq (map_for_each (services (heap c1 ! p))) c1"
  have "ns_keep ctx (snd ?r)"
    using keep_trans [OF keep_frame [OF got(3,2)] keep_same [OF announce_loop_same got(2)]] .
  with got(1) show ?thesis by (cases ?r) (simp add: annouce_servers_def)
next
  case (failed c1)
  with keep_frame [OF failed(3,2)] show ?thesis by (simp add: annouce_servers_def)
qed

lemma hello_keep:
  assumes "env_ok e" "ns_inv ctx"
  shows "\<exists>rc ctx'. ctrl_cmd_hello e sq buf len ctx = Some (rc, ctx') \<and> ns_keep ctx ctx'"
proof -
  obtain rc c1 where s: "ns_sendto e sq (rd buf 0 len) ctx = (rc, c1)" by fastforce
  then have k: "ns_keep ctx c1" using keep_same [OF _ assms(2), of c1] same_state_sendto by (metis snd_conv)
  show ?thesis
    using annouce_servers_keep [OF assms(1) keep_inv [OF k], of sq] k
    by (auto simp: ctrl_cmd_hello_def s intro: keep_trans)
qed

text \<open>The last part of the handlers for departing nodes and clients: tell all local servers.\<close>

lemma propagate_keep:
  assumes "env_ok e" "ns_inv ctx" "local_node ctx = n"
  shows "(\<exists>ctx'. node_get e n ctx = Some (None, ctx') \<and> ns_keep ctx ctx') \<or>
    (\<exists>l ctx'. node_get e n ctx = Some (Some l, ctx') \<and>
       ns_keep ctx (propagate e pkt (map_for_each (services (heap ctx' ! l))) ctx'))"
  using assms(1,2)
proof (cases rule: node_get_view [where n = n])
  case (got l c1)
  have "ns_keep ctx (propagate e pkt (map_for_each (services (heap c1 ! l))) c1)"
    using keep_trans [OF keep_frame [OF got(3,2)] keep_same [OF conjunct1 [OF propagate_spec] got(2)]] .
  with got(1) show ?thesis by blast
next
  case (failed c1)
  with keep_frame [OF failed(3,2)] show ?thesis by blast
qed

lemma bye_keep:
  assumes "env_ok e" "ns_inv ctx"
  shows "\<exists>rc ctx'. ctrl_cmd_bye e from ctx = Some (rc, ctx') \<and> ns_keep ctx ctx'"
  using assms
proof (cases rule: node_get_view [where n = "sq_node from"])
  case (got p c1)
  let ?c2 = "bye_loop e p (map_iter_first (services (heap c1 ! p))) c1"
  have k: "ns_keep ctx ?c2"
    using keep_trans [OF keep_frame [OF got(3,2)] bye_loop_keep [OF got(2,6)]] .
  show ?thesis
    using propagate_keep [OF assms(1) keep_inv [OF k] refl] got(1) k
    by (force simp: ctrl_cmd_bye_def Let_def intro: keep_trans)
next
  case (failed c1)
  with keep_frame [OF failed(3,2)] show ?thesis by (simp add: ctrl_cmd_bye_def)
qed

lemma del_client_keep:
  assumes env: "env_ok e" and inv: "ns_inv ctx"
  shows "\<exists>rc ctx'. ctrl_cmd_del_client e from n prt ctx = Some (rc, ctx') \<and> ns_keep ctx ctx'"
proof (cases "sq_node from \<noteq> n \<or> sq_node from = local_node ctx \<and> sq_port from \<noteq> prt")
  case True
  with inv show ?thesis by (auto simp: ctrl_cmd_del_client_def ns_keep_def)
next
  case False
  let ?c0 = "ctx\<lparr>lookups := filter (\<lambda>lk. \<not> (sq_node (lk_sq lk) = n \<and> sq_port (lk_sq lk) = prt)) (lookups ctx)\<rparr>"
  have k0: "ns_keep ctx ?c0" using inv by (auto simp: ns_keep_def ns_inv_def)
  have "\<exists>q c1. node_get e n ?c0 = Some (q, c1) \<and>
      ns_keep ctx (case q of None \<Rightarrow> c1 | Some p \<Rightarrow> snd (server_del e p prt c1))"
    using env keep_inv [OF k0]
  proof (cases rule: node_get_view [where n = n])
    case (got p c1)
    then show ?thesis
      using keep_trans [OF k0 keep_trans [OF keep_frame [OF got(3,2)] server_del_keep(1) [OF got(2,6)]]]
      by simp
  next
    case (failed c1)
    then show ?thesis using keep_trans [OF k0 keep_frame [OF failed(3,2)]] by simp
  qed
  then obtain q c1 where q: "node_get e n ?c0 = Some (q, c1)"
    and k: "ns_keep ctx (case q of None \<Rightarrow> c1 | Some p \<Rightarrow> snd (server_del e p prt c1))" by blast
  show ?thesis
    using propagate_keep [OF env keep_inv [OF k] refl] q k False
    by (force simp: ctrl_cmd_del_client_def Let_def intro: keep_trans)
qed

lemma new_server_keep:
  assumes env: "env_ok e" and inv: "ns_inv ctx"
  shows "\<exists>rc ctx'. ctrl_cmd_new_server e from s i n prt ctx = Some (rc, ctx') \<and> ns_keep ctx ctx'"
proof -
  obtain n' prt' where a: "(if sq_node from = local_node ctx then (sq_node from, sq_port from) else (n, prt)) = (n', prt')"
    by fastforce
  show ?thesis
  proof (cases "sq_node from = n'")
    case False
    with inv a show ?thesis by (auto simp: ctrl_cmd_new_server_def Let_def ns_keep_def)
  next
    case True
    from env inv show ?thesis
    proof (cases rule: server_add_spec [where s = s and i = i and n = n' and prt = prt'])
      case (refused c1)
      with keep_frame [OF refused(3,2)] a True show ?thesis by (simp add: ctrl_cmd_new_server_def)
    next
      case (added c1)
      let ?srv = "\<lparr>service = s, inst = i, srvnode = n', port = prt'\<rparr>"
      let ?r = "if n' = local_node c1 then service_announce_new e (bcast_sq c1) ?srv c1 else (0, c1)"
      have "same_state c1 (snd ?r)" by (simp add: announce_sent)
      then have "same_state c1 (notify_loop e (lookups (snd ?r)) s i ?srv True (snd ?r))"
        using notify_loop_spec same_state_trans by blast
      from keep_trans [OF keep_frame [OF added(3,2)] keep_same [OF this added(2)]] added(1) a True
      show ?thesis by (cases ?r) (simp add: ctrl_cmd_new_server_def)
    qed
  qed
qed

lemma del_server_keep:
  assumes env: "env_ok e" and inv: "ns_inv ctx"
  shows "\<exists>rc ctx'. ctrl_cmd_del_server e from s i n prt ctx = Some (rc, ctx') \<and> ns_keep ctx ctx'"
proof -
  obtain n' prt' where a: "(if sq_node from = local_node ctx then (sq_node from, sq_port from) else (n, prt)) = (n', prt')"
    by fastforce
  show ?thesis
  proof (cases "sq_node from \<noteq> n' \<or> sq_node from = local_node ctx \<and> sq_port from \<noteq> prt'")
    case True
    with inv a show ?thesis by (auto simp: ctrl_cmd_del_server_def Let_def ns_keep_def)
  next
    case False
    from env inv show ?thesis
    proof (cases rule: node_get_view [where n = n'])
      case (got p c1)
      have "ns_keep ctx (snd (server_del e p prt' c1))"
        using keep_trans [OF keep_frame [OF got(3,2)] server_del_keep(1) [OF got(2,6)]] .
      with got(1) a False show ?thesis
        by (cases "server_del e p prt' c1") (auto simp: ctrl_cmd_del_server_def)
    next
      case (failed c1)
      with keep_frame [OF failed(3,2)] a False show ?thesis by (auto simp: ctrl_cmd_del_server_def)
    qed
  qed
qed

lemma new_lookup_keep:
  assumes inv: "ns_inv ctx"
  shows "ns_keep ctx (snd (ctrl_cmd_new_lookup e from s i ctx))"
proof -
  let ?c = "ctx\<lparr>allocs := allocs ctx + 1, lookups := lookups ctx @ [\<lparr>lk_service = s, lk_inst = i, lk_sq = from\<rparr>]\<rparr>"
  have k: "ns_keep ctx ?c" if "sq_node from = local_node ctx"
    using inv that by (auto simp: ns_keep_def ns_inv_def)
  have "same_state ?c (snd (lookup_notify e from None True (reply_loop e from srvs ?c)))" for srvs
    unfolding lookup_notify_sent using reply_loop_spec same_state_sendto by (meson same_state_trans)
  then have "sq_node from = local_node ctx \<Longrightarrow>
      ns_keep ctx (snd (lookup_notify e from None True (reply_loop e from srvs ?c)))" for srvs
    using keep_trans [OF k keep_same] keep_inv [OF k] by blast
  with inv show ?thesis by (auto simp: ctrl_cmd_new_lookup_def Let_def ns_keep_def)
qed

lemma ctrl_port_fn_keep:
  assumes "env_ok e" "ns_inv ctx"
  shows "\<exists>ctx'. ctrl_port_fn e stack rx ctx = Some ctx' \<and> ns_keep ctx ctx'"
proof (cases rx)
  case Rx_none
  with assms show ?thesis by (simp add: ctrl_port_fn_def ns_keep_def ns_inv_def)
next
  case (Rx_packet sq bytes)
  define Q where "Q r \<longleftrightarrow> (\<exists>ctx'. r = Some ctx' \<and> ns_keep ctx ctx')" for r
  have map: "Q (map_option snd r)"
    if "\<exists>rc ctx'. r = Some (rc, ctx') \<and> ns_keep ctx ctx'" for r :: "(int \<times> ns_context) option"
    using that by (auto simp: Q_def)
  have lk: "Q (Some (snd (ctrl_cmd_del_lookup sq s i ctx)))" "Q (Some (snd (ctrl_cmd_new_lookup e sq s i ctx)))" for s i
    using assms(2) new_lookup_keep [OF assms(2)]
    by (auto simp: ctrl_cmd_del_lookup_def ns_keep_def ns_inv_def Q_def)
  have nop: "Q (Some (ctx\<lparr>sock := -1\<rparr>))" "Q (Some ctx)"
    using assms(2) by (simp_all add: ns_keep_def ns_inv_def Q_def)
  have if_Q: "Q a \<Longrightarrow> Q b \<Longrightarrow> Q (if c then a else b)" for a b c by simp
  have "Q (ctrl_port_fn e stack rx ctx)"
    unfolding Rx_packet ctrl_port_fn_def rx.case Let_def
    by (intro if_Q nop lk map hello_keep bye_keep del_client_keep new_server_keep del_server_keep assms)
  then show ?thesis by (simp add: Q_def)
qed

section \<open>The servers an iteration visits\<close>

lemma servers_of_node:
  assumes inv: "ns_inv ctx" and cl: "clean ctx" and p: "p < length (heap ctx)"
  shows "set (map_for_each (services (heap ctx ! p))) = ran (registry ctx (nid (heap ctx ! p)))"
    and "distinct (map_for_each (services (heap ctx ! p)))"
proof -
  let ?m = "services (heap ctx ! p)"
  note wf = inv_node(1) [OF inv p] clean_node [OF cl p]
  have key: "k = hash_u32 (port srv)" if "j < msize ?m" "mdata ?m ! j = Item k srv" for j k srv
    using inv_node(2) [OF inv p, of k srv] that wf(1) by (auto simp: server_ok_def map_wf_def in_set_conv_nth)
  have "ran (map_get ?m) = ran (registry ctx (nid (heap ctx ! p)))"
  proof (intro subset_antisym subsetI)
    fix srv assume "srv \<in> ran (map_get ?m)"
    then obtain k where "map_get ?m k = Some srv" by (auto simp: ran_def)
    moreover from this have "k = hash_u32 (port srv)" using wf key by (auto simp: map_get_Some_iff)
    ultimately show "srv \<in> ran (registry ctx (nid (heap ctx ! p)))"
      using registry_node [OF inv p] by (auto intro!: ranI)
  next
    fix srv assume "srv \<in> ran (registry ctx (nid (heap ctx ! p)))"
    then show "srv \<in> ran (map_get ?m)"
      using registry_node [OF inv p] by (auto simp: ran_def)
  qed
  with wf show "set (map_for_each ?m) = ran (registry ctx (nid (heap ctx ! p)))"
    by (simp add: set_map_for_each_ran)
  show "distinct (map_for_each ?m)"
    using wf(2) key by (rule distinct_map_for_each)
qed

lemma nodes_visited:
  assumes inv: "ns_inv ctx"
  shows "set (map_for_each (nodes ctx)) = {..<length (heap ctx)}" and "distinct (map_for_each (nodes ctx))"
proof -
  have ok: "nodes_ok (nodes ctx) (heap ctx)" using inv by (simp add: ns_inv_def)
  then have wf: "map_wf (nodes ctx)" "keys_distinct (nodes ctx)"
    by (simp_all add: nodes_ok_def fresh_table_def)
  have "ran (map_get (nodes ctx)) = {..<length (heap ctx)}"
    using ok by (fastforce simp: nodes_ok_def ran_def)
  with wf show "set (map_for_each (nodes ctx)) = {..<length (heap ctx)}"
    by (simp add: set_map_for_each_ran)
  have "k = hash_u32 (nid (heap ctx ! p))" if "j < msize (nodes ctx)" "mdata (nodes ctx) ! j = Item k p" for j k p
  proof -
    have "map_get (nodes ctx) k = Some p" using wf that by (auto simp: map_get_Some_iff)
    then show ?thesis using ok by (simp add: nodes_ok_def)
  qed
  with wf(2) show "distinct (map_for_each (nodes ctx))" by (rule distinct_map_for_each)
qed

lemma server_query_spec:
  assumes inv: "ns_inv ctx" and cl: "clean ctx"
  shows "set (server_query f ctx) = {srv. (\<exists>n prt. registry ctx n prt = Some srv) \<and> server_match srv f}"
    and "distinct (server_query f ctx)"
proof -
  let ?srvs = "\<lambda>p. filter (\<lambda>srv. server_match srv f) (map_for_each (services (heap ctx ! p)))"
  have set: "set (?srvs p) = {srv \<in> ran (registry ctx (nid (heap ctx ! p))). server_match srv f}"
    if "p < length (heap ctx)" for p
    using servers_of_node(1) [OF inv cl that] by auto
  have node: "\<exists>p<length (heap ctx). nid (heap ctx ! p) = n" if "registry ctx n prt = Some srv" for n prt srv
    using that inv_lookup [OF inv] unfolding registry_def by (metis option.case(1) option.exhaust option.distinct(1))
  show "set (server_query f ctx) = {srv. (\<exists>n prt. registry ctx n prt = Some srv) \<and> server_match srv f}"
    unfolding server_query_def set_concat set_map nodes_visited(1) [OF inv] using set node
    by (fastforce simp: ran_def)
  have apart: "set (?srvs p) \<inter> set (?srvs q) = {}" if "p < length (heap ctx)" "q < length (heap ctx)" "p \<noteq> q" for p q
  proof -
    have "nid (heap ctx ! p) \<noteq> nid (heap ctx ! q)"
      using inv_node(3) [OF inv that(1)] inv_node(3) [OF inv that(2)] that(3) by auto
    then have "ran (registry ctx (nid (heap ctx ! p))) \<inter> ran (registry ctx (nid (heap ctx ! q))) = {}"
      by (auto simp: ran_def dest!: registry_ok(3) [OF inv])
    then show ?thesis unfolding set [OF that(1)] set [OF that(2)] by blast
  qed
  show "distinct (server_query f ctx)"
    unfolding server_query_def using nodes_visited [OF inv] servers_of_node(2) [OF inv cl] apart
    by (intro distinct_concat_map) auto
qed

section \<open>Start, main loop, exit\<close>

definition say_hello :: "ns_env \<Rightarrow> ns_context \<Rightarrow> int \<times> ns_context" where
  "say_hello e ctx =
     (let (rc, ctx) = ns_sendto e (bcast_sq ctx) (ctrl_bytes (zero_pkt\<lparr>cmd := QRTR_TYPE_HELLO\<rparr>)) ctx in
      if rc < 0 then (rc, ctx) else (0, ctx))"

text \<open>
  The start of \<open>main\<close>, from the results of \<open>socket\<close>, \<open>getsockname\<close> (with the node it reports) and
  \<open>bind\<close>; \<open>None\<close> when the program exits or goes dormant.
\<close>

definition ns_start :: "ns_env \<Rightarrow> int \<Rightarrow> int \<Rightarrow> u32 \<Rightarrow> int \<Rightarrow> ns_context option" where
  "ns_start e fd nm_rc nd bd_rc =
     (if fd < 0 \<or> nm_rc < 0 \<or> bd_rc < 0 then None
      else
        let ctx = \<lparr>sock = fd, local_node = nd,
                    bcast_sq = \<lparr>sq_family = AF_QIPCRTR, sq_node = QRTR_NODE_BCAST, sq_port = QRTR_PORT_CTRL\<rparr>,
                    lookups = [], nodes = map_create, heap = [], sent = [], allocs = 0\<rparr>;
            (rc, ctx) = say_hello e ctx in
        if rc \<noteq> 0 then None else Some ctx)"

text \<open>The loop of \<open>main\<close> over what the control socket receives.\<close>

fun ns_loop :: "ns_env \<Rightarrow> (mem \<times> rx) list \<Rightarrow> ns_context \<Rightarrow> ns_context option" where
  "ns_loop e [] ctx = Some ctx"
| "ns_loop e ((stack, rx) # rest) ctx =
     (if sock ctx < 0 then Some ctx
      else (case ctrl_port_fn e stack rx ctx of None \<Rightarrow> None | Some ctx \<Rightarrow> ns_loop e rest ctx))"

text \<open>What the exit path frees: for every node of the table its servers, then the node.\<close>

definition node_mi_free :: "ns_context \<Rightarrow> nat \<Rightarrow> server list" where
  "node_mi_free ctx p = fst (map_clear (services (heap ctx ! p)))"

definition ns_exit :: "ns_context \<Rightarrow> (nat \<times> server list) list" where
  "ns_exit ctx = map (\<lambda>p. (p, node_mi_free ctx p)) (fst (map_clear (nodes ctx)))"

inductive ns_step :: "ns_context \<Rightarrow> ns_context \<Rightarrow> bool" where
  "env_ok e \<Longrightarrow> 0 \<le> sock ctx \<Longrightarrow> ctrl_port_fn e stack rx ctx = Some ctx' \<Longrightarrow> ns_step ctx ctx'"

definition ns_init :: "ns_context \<Rightarrow> bool" where
  "ns_init ctx \<longleftrightarrow> (\<exists>e s m n b. ns_start e s m n b = Some ctx)"

lemma ns_start_inv: "ns_start e s m n b = Some ctx \<Longrightarrow> ns_inv ctx"
  by (auto simp: map_create_fresh map_create_get ns_start_def say_hello_def ns_sendto_def Let_def ns_inv_def nodes_ok_def split: if_splits)

interpretation ns: invariant_system ns_init ns_step ns_inv
proof
  show "ns_inv s" if "ns_init s" for s using that ns_start_inv by (auto simp: ns_init_def)
  show "ns_inv t" if "ns_inv s" "ns_step s t" for s t
    using that(2)
  proof cases
    case (1 e stack rx)
    with ctrl_port_fn_keep [OF 1(1) that(1), of stack rx] show ?thesis by (auto simp: ns_keep_def)
  qed
qed

end
