(* ===== verification/Registry.thy ===== *)
theory Registry
  imports NameServer
begin

text \<open>
  The properties of the name server: what each control message does to the registry of servers and
  to the observers, and which messages are sent. They are stated on the states the server can reach
  (\<open>ns.reach\<close>) in which no table holds two entries for a port (\<open>clean\<close>); a server that registers under
  an unused port keeps the state clean, and so do all removals.
\<close>

section \<open>Properties\<close>

text \<open>
  C8. Whatever messages arrive and whichever allocations and sends fail, in every
  state the name server can reach a server found under a node and port is a server of that node and
  port with a non-zero service, all observers are local, and the receive function handles the next
  message to the end.
\<close>

theorem ns_reachable:
  assumes reach: "ns.reach ctx" and env: "env_ok e"
  shows "(\<forall>n prt srv. registry ctx n prt = Some srv \<longrightarrow>
       srvnode srv = n \<and> port srv = prt \<and> service srv \<noteq> 0 \<and> prt \<noteq> 0) \<and>
    (\<forall>lk\<in>set (lookups ctx). sq_node (lk_sq lk) = local_node ctx) \<and>
    (\<exists>ctx'. ctrl_port_fn e stack rx ctx = Some ctx')"
proof -
  have inv: "ns_inv ctx" using reach by (rule ns.reach_inv)
  show ?thesis
    using registry_ok [OF inv] ctrl_port_fn_keep [OF env inv, of stack rx] inv
    by (auto simp: server_ok_def ns_inv_def)
qed

definition sample_env :: ns_env where
  "sample_env = \<lparr>env_calloc = \<lambda>i n. n \<le> 512, env_sendto = \<lambda>i. 20, env_stack = (0, 0)\<rparr>"

definition sample_ctx :: ns_context where
  "sample_ctx = the (ns_start sample_env 3 0 1 0)"

lemma sample_env_ok: "env_ok sample_env"
  by (simp add: env_ok_def sample_env_def calloc_bounded_def)

lemma sample_reach: "ns.reach sample_ctx"
proof (rule ns.reach_init)
  have "ns_start sample_env 3 0 1 0 = Some sample_ctx"
    by (simp add: sample_ctx_def ns_start_def say_hello_def ns_sendto_def Let_def sample_env_def)
  then show "ns_init sample_ctx" unfolding ns_init_def by blast
qed

lemma sample_clean: "clean sample_ctx" and sample_local: "local_node sample_ctx = 1"
  and sample_empty: "registry sample_ctx n prt = None"
  by (simp_all add: sample_ctx_def ns_start_def say_hello_def ns_sendto_def Let_def sample_env_def
      clean_def registry_def map_create_get)

theorem ns_reachable_witness:
  "\<exists>ctx'. ctrl_port_fn sample_env (\<lambda>_. 0) (Rx_packet (bcast_sq sample_ctx) [4, 0, 0, 0]) sample_ctx = Some ctx'"
  using ns_reachable [OF sample_reach sample_env_ok] by blast



text \<open>The port under which a message registers or removes a server: a local client's own.\<close>

definition own_port :: "sockaddr_qrtr \<Rightarrow> u32 \<Rightarrow> ns_context \<Rightarrow> u32" where
  "own_port from prt ctx = (if sq_node from = local_node ctx then sq_port from else prt)"


definition local_client :: sockaddr_qrtr where
  "local_client = \<lparr>sq_family = AF_QIPCRTR, sq_node = 1, sq_port = 9\<rparr>"






text \<open>The messages to all servers of the local node, in the order the table holds them.\<close>

definition to_servers :: "u8 list \<Rightarrow> server list \<Rightarrow> (sockaddr_qrtr \<times> u8 list) list" where
  "to_servers pkt = map (\<lambda>srv. (\<lparr>sq_family = AF_QIPCRTR, sq_node = srvnode srv, sq_port = port srv\<rparr>, pkt))"

lemma propagate_local:
  assumes env: "env_ok e" and inv: "ns_inv ctx" and cl: "clean ctx"
  shows "\<exists>locals ctx'. (case node_get e (local_node ctx) ctx of
        None \<Rightarrow> None
      | Some (None, c) \<Rightarrow> Some (0, c)
      | Some (Some l, c) \<Rightarrow> Some (0 :: int, propagate e pkt (map_for_each (services (heap c ! l))) c)) = Some (0, ctx') \<and>
    lookups ctx' = lookups ctx \<and> registry ctx' = registry ctx \<and> clean ctx' \<and> distinct locals \<and>
    set locals = ran (registry ctx (local_node ctx)) \<and> sent ctx' = sent ctx @ to_servers pkt locals"
  using env inv
proof (cases rule: node_get_view [where n = "local_node ctx"])
  case (got l c)
  let ?srvs = "map_for_each (services (heap c ! l))"
  let ?d = "propagate e pkt ?srvs c"
  have same: "same_state c ?d" using propagate_spec by blast
  have "sent ?d = sent ctx @ to_servers pkt ?srvs"
    using propagate_spec [of c e pkt ?srvs] got(3) by (simp add: to_servers_def ns_frame_def)
  moreover have "clean c" using got(5) cl by simp
  moreover have "lookups c = lookups ctx" using got(3) by (simp add: ns_frame_def)
  ultimately show ?thesis
    using got same_stateD(4) [OF same] registry_same [OF same] clean_same [OF same]
      servers_of_node [OF got(2) _ got(6)]
    by (intro exI [of _ ?srvs] exI [of _ ?d]) simp
next
  case (failed c)
  with cl show ?thesis
    by (intro exI [of _ "[]"] exI [of _ c]) (simp add: ns_frame_def to_servers_def)
qed





text \<open>
  The receive function accepts control packets that are too short for the fields it
  reads. A NEW\_LOOKUP message of only the four command bytes makes the sender an observer with
  whatever service and instance the stack holds behind the packet, and an empty datagram, from any
  sender, ends the main loop.
\<close>

theorem ns_short_packets:
  assumes "sq_node sq = local_node ctx" "env_calloc e (allocs ctx) 1" "0 \<le> sock ctx"
  shows "(\<exists>ctx'. ctrl_port_fn e stack (Rx_packet sq (le32 QRTR_TYPE_NEW_LOOKUP)) ctx = Some ctx' \<and>
      lookups ctx' = lookups ctx @ [\<lparr>lk_service = get32 stack 4, lk_inst = get32 stack 8, lk_sq = sq\<rparr>]) \<and>
    ns_loop e ((stack, Rx_packet any []) # rest) ctx = Some (ctx\<lparr>sock := -1\<rparr>)"
proof -
  let ?buf = "wr stack 0 (le32 QRTR_TYPE_NEW_LOOKUP)"
  have buf: "cmd (ctrl_read ?buf 0) = QRTR_TYPE_NEW_LOOKUP" "srv_service (ctrl_read ?buf 0) = get32 stack 4"
    "srv_instance (ctrl_read ?buf 0) = get32 stack 8"
    using le32.dec_wr [of stack 0] by (auto simp: ctrl_read_def rd_wr_other intro!: get32_cong)
  let ?lk = "\<lparr>lk_service = get32 stack 4, lk_inst = get32 stack 8, lk_sq = sq\<rparr>"
  let ?c = "ctx\<lparr>allocs := allocs ctx + 1, lookups := lookups ctx @ [?lk]\<rparr>"
  have "same_state ?c (snd (lookup_notify e sq None True (reply_loop e sq srvs ?c)))" for srvs
    unfolding lookup_notify_sent using reply_loop_spec same_state_sendto by (meson same_state_trans)
  from same_stateD(4) [OF this] have
    "lookups (snd (ctrl_cmd_new_lookup e sq (get32 stack 4) (get32 stack 8) ctx)) = lookups ctx @ [?lk]"
    using assms(1,2) by (simp add: ctrl_cmd_new_lookup_def Let_def)
  moreover have "ctrl_port_fn e stack (Rx_packet sq (le32 QRTR_TYPE_NEW_LOOKUP)) ctx =
      Some (snd (ctrl_cmd_new_lookup e sq (get32 stack 4) (get32 stack 8) ctx))"
    by (simp add: ctrl_port_fn_def Let_def buf)
  moreover have "ns_loop e ((stack, Rx_packet any []) # rest) ctx = Some (ctx\<lparr>sock := -1\<rparr>)"
    using assms(3) by (cases rest) (auto simp: ctrl_port_fn_def)
  ultimately show ?thesis by simp
qed

theorem ns_short_packets_witness:
  "\<exists>ctx'. ctrl_port_fn sample_env (\<lambda>_. 1) (Rx_packet local_client (le32 QRTR_TYPE_NEW_LOOKUP)) sample_ctx = Some ctx' \<and>
     lookups ctx' = lookups sample_ctx @ [\<lparr>lk_service = get32 (\<lambda>_. 1) 4, lk_inst = get32 (\<lambda>_. 1) 8, lk_sq = local_client\<rparr>]"
proof -
  have "0 \<le> sock sample_ctx" "env_calloc sample_env k 1" for k
    by (simp_all add: sample_ctx_def ns_start_def say_hello_def ns_sendto_def Let_def sample_env_def)
  moreover have "sq_node local_client = local_node sample_ctx" by (simp add: local_client_def sample_local)
  ultimately show ?thesis
    using ns_short_packets [of local_client sample_ctx sample_env "\<lambda>_. 1" local_client "[]"] by blast
qed



end
