(* ===== verification/Qmi.thy ===== *)
theory Qmi
  imports Qrtr
begin

text \<open>
  \<open>qrtr/lib/qmi.c\<close>: the table-driven encoder and decoder of QMI messages. A message is a header of
  seven bytes and a sequence of TLVs (type, 16-bit length, value); a table of
  \<open>qmi_elem_info\<close> entries says which bytes of a C structure make up which TLV.

  A table is a list of entries that ends with its terminator, and a pointer into it is the
  rest of the list; walking past the end of the list is undefined behaviour and gives \<open>None\<close>.
  The C structure and the message buffer are memories with a base address. \<open>size_t\<close> has
  64 bits, so sums with \<open>sizeof\<close> are taken in \<open>nat\<close>; the 32-bit sums before them wrap.
\<close>

section \<open>Tables\<close>

datatype qmi_elem_type =
    QMI_EOTI
  | QMI_OPT_FLAG
  | QMI_DATA_LEN
  | QMI_UNSIGNED_1_BYTE
  | QMI_UNSIGNED_2_BYTE
  | QMI_UNSIGNED_4_BYTE
  | QMI_UNSIGNED_8_BYTE
  | QMI_SIGNED_1_BYTE_ENUM
  | QMI_SIGNED_2_BYTE_ENUM
  | QMI_SIGNED_4_BYTE_ENUM
  | QMI_STRUCT
  | QMI_STRING

datatype qmi_array_type = NO_ARRAY | STATIC_ARRAY | VAR_LEN_ARRAY

datatype qmi_elem_info = Elem_info
  (data_type: qmi_elem_type)
  (elem_len: u32)
  (elem_size: u32)
  (array_type: qmi_array_type)
  (tlv_type: u8)
  (offset: nat)
  (ei_array: "qmi_elem_info list option")

primrec skip_run :: "u8 \<Rightarrow> qmi_elem_info list \<Rightarrow> qmi_elem_info list option" where
  "skip_run t [] = None"
| "skip_run t (e # es) = (if t = tlv_type e then skip_run (tlv_type e) es else Some (e # es))"

definition skip_to_next_elem :: "qmi_elem_info list \<Rightarrow> int \<Rightarrow> qmi_elem_info list option" where
  "skip_to_next_elem eis level =
     (case eis of
        [] \<Rightarrow> None
      | e # es \<Rightarrow> if level > 1 then Some es else skip_run (tlv_type e) es)"

abbreviation tab_size :: "qmi_elem_info list \<Rightarrow> nat" where
  "tab_size \<equiv> size_list size"

lemma skip_run_size: "skip_run t es = Some es' \<Longrightarrow> tab_size es' \<le> tab_size es"
proof (induction es arbitrary: t)
  case (Cons e es)
  show ?case
  proof (cases "t = tlv_type e")
    case True
    with Cons.prems have "skip_run (tlv_type e) es = Some es'" by simp
    then show ?thesis using Cons.IH [of "tlv_type e"] by simp
  next
    case False
    with Cons.prems show ?thesis by simp
  qed
qed simp

lemma skip_to_next_elem_size:
  "skip_to_next_elem (e # es) level = Some es' \<Longrightarrow> tab_size es' \<le> tab_size es"
  by (auto simp: skip_to_next_elem_def split: if_splits dest: skip_run_size)

lemma skip_any_size: "skip_to_next_elem es level = Some es' \<Longrightarrow> tab_size es' \<le> tab_size es"
  using skip_to_next_elem_size [of "hd es" "tl es" level es']
  by (cases es) (auto simp: skip_to_next_elem_def [of "[]"])

lemma nested_size: "ei_array e = Some n \<Longrightarrow> tab_size n < tab_size (e # es)"
  by (cases e) auto

lemma nested_size': "ei_array e = Some n \<Longrightarrow> tab_size n < size e"
  by (cases e) auto

text \<open>The minimum length is an \<open>int\<close> to which 32-bit and \<open>size_t\<close> amounts are added.\<close>

function min_len_loop :: "qmi_elem_info list \<Rightarrow> int \<Rightarrow> u32 \<Rightarrow> u32 option" where
  "min_len_loop [] level acc = None"
| "min_len_loop (e # es) level acc =
     (if data_type e = QMI_EOTI then Some acc
      else if data_type e = QMI_OPT_FLAG then
        (case skip_to_next_elem (e # es) level of
           None \<Rightarrow> None
         | Some es' \<Rightarrow> min_len_loop es' level acc)
      else if data_type e = QMI_DATA_LEN then
        min_len_loop es level (acc + (if elem_size e = 1 then 1 else 2))
      else
        let hdr = (if level = 1 then 3 else 0) in
        if data_type e = QMI_STRUCT then
          (case ei_array e of
             None \<Rightarrow> min_len_loop es level (acc + hdr)
           | Some n \<Rightarrow>
               (case min_len_loop n (level + 1) 0 of
                  None \<Rightarrow> None
                | Some l \<Rightarrow> min_len_loop es level (acc + l + hdr)))
        else if data_type e = QMI_STRING then
          min_len_loop es level
            (acc + (if level > 1 then if elem_len e \<le> 256 then 1 else 2 else 0)
               + elem_len e * elem_size e + hdr)
        else min_len_loop es level (acc + elem_len e * elem_size e + hdr))"
  by pat_completeness auto
termination
  by (relation "measure (\<lambda>(eis, _). tab_size eis)")
    (auto dest: skip_to_next_elem_size nested_size')

definition qmi_calc_min_msg_len :: "qmi_elem_info list option \<Rightarrow> int \<Rightarrow> int option" where
  "qmi_calc_min_msg_len eis level =
     (case eis of None \<Rightarrow> Some 0 | Some es \<Rightarrow> map_option sint (min_len_loop es level 0))"

section \<open>Encoder\<close>

text \<open>A pointer moved by a signed amount, and a local 32-bit variable seen as memory.\<close>

definition ptr_add :: "nat \<Rightarrow> int \<Rightarrow> nat" where
  "ptr_add p rc = nat (int p + rc)"

definition local32 :: "u32 \<Rightarrow> mem" where
  "local32 v = wr (\<lambda>_. 0) 0 (le32 v)"

text \<open>\<open>memcpy\<close> into the low bytes of a local 32-bit variable.\<close>

definition patch32 :: "u32 \<Rightarrow> u8 list \<Rightarrow> u32" where
  "patch32 v bs = get32 (wr (local32 v) 0 bs) 0"

primrec basic_loop ::
    "nat \<Rightarrow> u32 \<Rightarrow> mem \<Rightarrow> nat \<Rightarrow> mem \<Rightarrow> nat \<Rightarrow> u32 \<Rightarrow> int \<times> mem" where
  "basic_loop 0 sz dst d src s rc = (sint rc, dst)"
| "basic_loop (Suc n) sz dst d src s rc =
     basic_loop n sz (wr dst d (rd src s (unat sz))) (d + unat sz) src (s + unat sz) (rc + sz)"

definition qmi_encode_basic_elem ::
    "mem \<Rightarrow> nat \<Rightarrow> mem \<Rightarrow> nat \<Rightarrow> u32 \<Rightarrow> u32 \<Rightarrow> int \<times> mem" where
  "qmi_encode_basic_elem dst buf_dst src buf_src len sz =
     basic_loop (unat len) sz dst buf_dst src buf_src 0"

text \<open>
  The encoder of one nested structure is an argument: it takes the buffer, the two pointers and
  the space.
\<close>

type_synonym encoder = "mem \<Rightarrow> nat \<Rightarrow> nat \<Rightarrow> u32 \<Rightarrow> (int \<times> mem) option"

primrec struct_enc_loop ::
    "nat \<Rightarrow> encoder \<Rightarrow> u32 \<Rightarrow> u32 \<Rightarrow> mem \<Rightarrow> nat \<Rightarrow> nat \<Rightarrow> int \<Rightarrow> (int \<times> mem) option" where
  "struct_enc_loop 0 enc sz out_buf_len dst buf_dst buf_src encoded = Some (encoded, dst)"
| "struct_enc_loop (Suc n) enc sz out_buf_len dst buf_dst buf_src encoded =
     (case enc dst buf_dst buf_src (out_buf_len - word_of_int encoded) of
        None \<Rightarrow> None
      | Some (rc, dst) \<Rightarrow>
          if rc < 0 then Some (rc, dst)
          else struct_enc_loop n enc sz out_buf_len dst (ptr_add buf_dst rc)
                 (buf_src + unat sz) (encoded + rc))"

definition qmi_encode_struct_elem ::
    "encoder \<Rightarrow> qmi_elem_info \<Rightarrow> mem \<Rightarrow> nat \<Rightarrow> nat \<Rightarrow> u32 \<Rightarrow> u32 \<Rightarrow> (int \<times> mem) option" where
  "qmi_encode_struct_elem enc e dst buf_dst buf_src len out_buf_len =
     struct_enc_loop (unat len) enc (elem_size e) out_buf_len dst buf_dst buf_src 0"

definition qmi_encode_string_elem ::
    "qmi_elem_info \<Rightarrow> mem \<Rightarrow> nat \<Rightarrow> mem \<Rightarrow> nat \<Rightarrow> u32 \<Rightarrow> int \<Rightarrow> (int \<times> mem) option" where
  "qmi_encode_string_elem e dst buf_dst src buf_src out_buf_len level =
     (case strlen src buf_src of
        None \<Rightarrow> None
      | Some n \<Rightarrow>
          let string_len = of_nat n :: u32;
              string_len_sz = (if elem_len e \<le> 256 then 1 else 2) :: u32 in
          if string_len > elem_len e then Some (- EINVAL, dst)
          else if level = 1 then
            if unat string_len + 3 > unat out_buf_len then Some (- EINVAL, dst)
            else Some (qmi_encode_basic_elem dst buf_dst src buf_src string_len (elem_size e))
          else if string_len + string_len_sz > out_buf_len then Some (- EINVAL, dst)
          else
            let (rc1, dst) = qmi_encode_basic_elem dst buf_dst (local32 string_len) 0 1 string_len_sz;
                (rc2, dst) = qmi_encode_basic_elem dst (ptr_add buf_dst rc1) src buf_src
                  string_len (elem_size e) in
            Some (rc1 + rc2, dst))"

record enc_state =
  e_dst :: mem
  e_buf_dst :: nat
  e_tlv_pointer :: nat
  e_tlv_len :: u32
  e_encoded_bytes :: u32
  e_data_len_value :: u32
  e_encode_tlv :: bool

definition enc_init :: "int \<Rightarrow> mem \<Rightarrow> nat \<Rightarrow> enc_state" where
  "enc_init level dst out_buf =
     \<lparr>e_dst = dst, e_buf_dst = (if level = 1 then out_buf + 3 else out_buf),
      e_tlv_pointer = out_buf, e_tlv_len = 0, e_encoded_bytes = 0, e_data_len_value = 0,
      e_encode_tlv = False\<rparr>"

definition update_encode_variables :: "enc_state \<Rightarrow> mem \<Rightarrow> int \<Rightarrow> enc_state" where
  "update_encode_variables st dst rc =
     st\<lparr>e_dst := dst, e_buf_dst := ptr_add (e_buf_dst st) rc,
        e_encoded_bytes := e_encoded_bytes st + word_of_int rc,
        e_tlv_len := e_tlv_len st + word_of_int rc, e_encode_tlv := True\<rparr>"

text \<open>The number of elements an entry stands for, or \<open>None\<close> for an invalid length.\<close>

definition enc_data_len :: "qmi_elem_info \<Rightarrow> u32 \<Rightarrow> u32 option" where
  "enc_data_len e len =
     (case array_type e of
        NO_ARRAY \<Rightarrow> Some 1
      | STATIC_ARRAY \<Rightarrow> Some (elem_len e)
      | VAR_LEN_ARRAY \<Rightarrow> if len \<le> 0 \<or> elem_len e < len then None else Some len)"

definition data_len_size :: "qmi_elem_info \<Rightarrow> u32" where
  "data_len_size e = (if elem_size e = 1 then 1 else 2)"

definition is_basic :: "qmi_elem_type \<Rightarrow> bool" where
  "is_basic t \<longleftrightarrow> t \<in> {QMI_UNSIGNED_1_BYTE, QMI_UNSIGNED_2_BYTE, QMI_UNSIGNED_4_BYTE,
     QMI_UNSIGNED_8_BYTE, QMI_SIGNED_1_BYTE_ENUM, QMI_SIGNED_2_BYTE_ENUM, QMI_SIGNED_4_BYTE_ENUM}"

text \<open>
  The \<open>switch\<close> of \<open>qmi_encode\<close>: a result to return, or the next entry and the new state. The
  destination of the second \<open>memcpy\<close> of \<open>QMI_DATA_LEN\<close> is a 32-bit variable.
\<close>

definition encode_elem ::
    "encoder \<Rightarrow> qmi_elem_info \<Rightarrow> qmi_elem_info list \<Rightarrow> int \<Rightarrow> u32 \<Rightarrow> mem \<Rightarrow> nat \<Rightarrow> enc_state \<Rightarrow>
     ((int \<times> mem) + (qmi_elem_info list \<times> enc_state)) option" where
  "encode_elem enc e es level out_buf_len src in_c_struct st =
     (let buf_src = in_c_struct + offset e in
      if data_type e = QMI_OPT_FLAG then
        if src buf_src \<noteq> 0 then Some (Inr (es, st))
        else map_option (\<lambda>es'. Inr (es', st)) (skip_to_next_elem (e # es) level)
      else if data_type e = QMI_DATA_LEN then
        if elem_size e > 4 then None
        else
          let v = patch32 (e_data_len_value st) (rd src buf_src (unat (elem_size e)));
              sz = data_len_size e in
          if unat (sz + e_encoded_bytes st) + 3 > unat out_buf_len then Some (Inl (- EINVAL, e_dst st))
          else
            let (rc, dst) = qmi_encode_basic_elem (e_dst st) (e_buf_dst st) (local32 v) 0 1 sz;
                st = update_encode_variables (st\<lparr>e_data_len_value := v\<rparr>) dst rc in
            if v = 0 then map_option (\<lambda>es'. Inr (es', st)) (skip_to_next_elem es level)
            else Some (Inr (es, st\<lparr>e_encode_tlv := False\<rparr>))
      else if is_basic (data_type e) then
        if unat (e_data_len_value st * elem_size e + e_encoded_bytes st) + 3 > unat out_buf_len then
          Some (Inl (- EINVAL, e_dst st))
        else
          let (rc, dst) = qmi_encode_basic_elem (e_dst st) (e_buf_dst st) src buf_src
                (e_data_len_value st) (elem_size e) in
          Some (Inr (es, update_encode_variables st dst rc))
      else if data_type e = QMI_STRUCT then
        (case qmi_encode_struct_elem enc e (e_dst st) (e_buf_dst st) buf_src (e_data_len_value st)
                (out_buf_len - e_encoded_bytes st) of
           None \<Rightarrow> None
         | Some (rc, dst) \<Rightarrow>
             if rc < 0 then Some (Inl (rc, dst))
             else Some (Inr (es, update_encode_variables st dst rc)))
      else if data_type e = QMI_STRING then
        (case qmi_encode_string_elem e (e_dst st) (e_buf_dst st) src buf_src
                (out_buf_len - e_encoded_bytes st) level of
           None \<Rightarrow> None
         | Some (rc, dst) \<Rightarrow>
             if rc < 0 then Some (Inl (rc, dst))
             else Some (Inr (es, update_encode_variables st dst rc)))
      else Some (Inl (- EINVAL, e_dst st)))"

text \<open>The TLV header is stored once its value is complete; only the outermost level has headers.\<close>

definition encode_tlv_header :: "int \<Rightarrow> u8 \<Rightarrow> enc_state \<Rightarrow> enc_state" where
  "encode_tlv_header level t st =
     (if e_encode_tlv st \<and> level = 1 then
        st\<lparr>e_dst := wr (e_dst st) (e_tlv_pointer st)
             [t, ucast (e_tlv_len st AND 0xff), ucast (drop_bit 8 (e_tlv_len st) AND 0xff)],
           e_encoded_bytes := e_encoded_bytes st + 3, e_tlv_pointer := e_buf_dst st,
           e_tlv_len := 0, e_buf_dst := e_buf_dst st + 3, e_encode_tlv := False\<rparr>
      else st)"

lemma encode_elem_size:
  assumes "encode_elem enc e es level out_buf_len src b st = Some (Inr (es', st'))"
  shows "tab_size es' \<le> tab_size es"
  using assms
  by (auto simp: encode_elem_def Let_def split: if_splits prod.splits option.splits
      dest: skip_to_next_elem_size skip_any_size)

function qmi_encode_loop ::
    "qmi_elem_info list \<Rightarrow> int \<Rightarrow> u32 \<Rightarrow> mem \<Rightarrow> nat \<Rightarrow> enc_state \<Rightarrow> (int \<times> mem) option" where
  "qmi_encode_loop [] level out_buf_len src in_c_struct st = None"
| "qmi_encode_loop (e # es) level out_buf_len src in_c_struct st =
     (if data_type e = QMI_EOTI then Some (sint (e_encoded_bytes st), e_dst st)
      else
        (case enc_data_len e (e_data_len_value st) of
           None \<Rightarrow> Some (- EINVAL, e_dst st)
         | Some v \<Rightarrow>
             (case encode_elem
                     (\<lambda>dst d s len.
                        case ei_array e of
                          None \<Rightarrow> Some (0, dst)
                        | Some n \<Rightarrow> qmi_encode_loop n (level + 1) len src s (enc_init (level + 1) dst d))
                     e es level out_buf_len src in_c_struct (st\<lparr>e_data_len_value := v\<rparr>) of
                None \<Rightarrow> None
              | Some (Inl r) \<Rightarrow> Some r
              | Some (Inr (es', st')) \<Rightarrow>
                  qmi_encode_loop es' level out_buf_len src in_c_struct
                    (encode_tlv_header level (tlv_type e) st'))))"
  by pat_completeness auto
termination
proof (relation "measure (\<lambda>(eis, _). tab_size eis)", goal_cases)
  case (2 e es level out_buf_len src b st v)
  then show ?case by (auto dest: nested_size')
next
  case (3 e es level out_buf_len src b st v)
  then show ?case by (auto dest!: encode_elem_size)
qed simp

definition qmi_encode ::
    "qmi_elem_info list option \<Rightarrow> mem \<Rightarrow> nat \<Rightarrow> mem \<Rightarrow> nat \<Rightarrow> u32 \<Rightarrow> int \<Rightarrow> (int \<times> mem) option" where
  "qmi_encode eis dst out_buf src in_c_struct out_buf_len level =
     (case eis of
        None \<Rightarrow> Some (0, dst)
      | Some es \<Rightarrow> qmi_encode_loop es level out_buf_len src in_c_struct (enc_init level dst out_buf))"

section \<open>Decoder\<close>

definition qmi_decode_basic_elem ::
    "mem \<Rightarrow> nat \<Rightarrow> mem \<Rightarrow> nat \<Rightarrow> u32 \<Rightarrow> u32 \<Rightarrow> int \<times> mem" where
  "qmi_decode_basic_elem dst buf_dst src buf_src len sz =
     basic_loop (unat len) sz dst buf_dst src buf_src 0"

text \<open>The decoder of one nested structure takes the structure, the two pointers and the length.\<close>

type_synonym decoder = "mem \<Rightarrow> nat \<Rightarrow> nat \<Rightarrow> u32 \<Rightarrow> (int \<times> mem) option"

definition struct_dec_end :: "bool \<Rightarrow> u32 \<Rightarrow> int \<Rightarrow> mem \<Rightarrow> int \<Rightarrow> int \<times> mem" where
  "struct_dec_end missing tlv_len level dst decoded =
     (if (level \<le> 2 \<and> word_of_int decoded \<noteq> tlv_len) \<or>
         (level > 2 \<and> (missing \<or> word_of_int decoded > tlv_len))
      then (- EFAULT, dst) else (decoded, dst))"

primrec struct_dec_loop ::
    "nat \<Rightarrow> decoder \<Rightarrow> u32 \<Rightarrow> u32 \<Rightarrow> int \<Rightarrow> mem \<Rightarrow> nat \<Rightarrow> nat \<Rightarrow> int \<Rightarrow> (int \<times> mem) option" where
  "struct_dec_loop 0 dec sz tlv_len level dst buf_dst buf_src decoded =
     Some (struct_dec_end False tlv_len level dst decoded)"
| "struct_dec_loop (Suc n) dec sz tlv_len level dst buf_dst buf_src decoded =
     (if word_of_int decoded < tlv_len then
        (case dec dst buf_dst buf_src (tlv_len - word_of_int decoded) of
           None \<Rightarrow> None
         | Some (rc, dst) \<Rightarrow>
             if rc < 0 then Some (rc, dst)
             else struct_dec_loop n dec sz tlv_len level dst (buf_dst + unat sz)
                    (ptr_add buf_src rc) (decoded + rc))
      else Some (struct_dec_end True tlv_len level dst decoded))"

definition qmi_decode_struct_elem ::
    "decoder \<Rightarrow> qmi_elem_info \<Rightarrow> mem \<Rightarrow> nat \<Rightarrow> nat \<Rightarrow> u32 \<Rightarrow> u32 \<Rightarrow> int \<Rightarrow> (int \<times> mem) option" where
  "qmi_decode_struct_elem dec e dst buf_dst buf_src len tlv_len level =
     struct_dec_loop (unat len) dec (elem_size e) tlv_len level dst buf_dst buf_src 0"

definition qmi_decode_string_elem ::
    "qmi_elem_info \<Rightarrow> mem \<Rightarrow> nat \<Rightarrow> mem \<Rightarrow> nat \<Rightarrow> u32 \<Rightarrow> int \<Rightarrow> int \<times> mem" where
  "qmi_decode_string_elem e dst buf_dst src buf_src tlv_len level =
     (let string_len_sz = (if elem_len e \<le> 256 then 1 else 2) :: u32;
          (string_len, decoded) =
            (if level = 1 then (tlv_len, 0)
             else (patch32 0 (rd src buf_src (unat string_len_sz)), sint string_len_sz)) in
      if string_len > elem_len e then (- EINVAL, dst)
      else if string_len > tlv_len then (- EFAULT, dst)
      else
        let (rc, dst) = qmi_decode_basic_elem dst buf_dst src (ptr_add buf_src decoded)
              string_len (elem_size e) in
        (decoded + rc, wr dst (buf_dst + unat string_len) [0]))"

text \<open>
  \<open>find_ei\<close> gives the entry and the rest of the table behind it, or \<open>Some None\<close> for the null
  pointer; \<open>None\<close> is a table without terminator.
\<close>

primrec find_ei :: "qmi_elem_info list \<Rightarrow> u32 \<Rightarrow> qmi_elem_info list option option" where
  "find_ei [] t = None"
| "find_ei (e # es) t =
     (if data_type e = QMI_EOTI then Some None
      else if tlv_type e = ucast t then Some (Some (e # es))
      else find_ei es t)"

record dec_state =
  d_dst :: mem
  d_buf_src :: nat
  d_data_len_value :: u32
  d_decoded_bytes :: u32

definition update_decode_variables :: "dec_state \<Rightarrow> int \<Rightarrow> dec_state" where
  "update_decode_variables st rc =
     st\<lparr>d_buf_src := ptr_add (d_buf_src st) rc,
        d_decoded_bytes := d_decoded_bytes st + word_of_int rc\<rparr>"

definition dec_opt_flag ::
    "qmi_elem_info list \<Rightarrow> nat \<Rightarrow> dec_state \<Rightarrow> (qmi_elem_info list \<times> dec_state) option" where
  "dec_opt_flag eis out_c_struct st =
     (case eis of
        [] \<Rightarrow> None
      | e # es \<Rightarrow>
          if data_type e = QMI_OPT_FLAG then
            Some (es, st\<lparr>d_dst := wr (d_dst st) (out_c_struct + offset e) [1]\<rparr>)
          else Some (eis, st))"

definition dec_len_field ::
    "qmi_elem_info list \<Rightarrow> mem \<Rightarrow> nat \<Rightarrow> u32 \<Rightarrow> dec_state \<Rightarrow>
     (qmi_elem_info list \<times> u32 \<times> dec_state) option" where
  "dec_len_field eis src out_c_struct tlv_len st =
     (case eis of
        [] \<Rightarrow> None
      | e # es \<Rightarrow>
          if data_type e = QMI_DATA_LEN then
            let sz = data_len_size e;
                v = patch32 (d_data_len_value st) (rd src (d_buf_src st) (unat sz));
                dst = wr (d_dst st) (out_c_struct + offset e) (le32 v) in
            Some (es, tlv_len - sz,
              update_decode_variables (st\<lparr>d_dst := dst, d_data_len_value := v\<rparr>) (sint sz))
          else Some (eis, tlv_len, st))"

definition dec_data_len :: "qmi_elem_info \<Rightarrow> u32 \<Rightarrow> u32 option" where
  "dec_data_len e len =
     (case array_type e of
        NO_ARRAY \<Rightarrow> Some 1
      | STATIC_ARRAY \<Rightarrow> Some (elem_len e)
      | VAR_LEN_ARRAY \<Rightarrow> if len > elem_len e then None else Some len)"

text \<open>The \<open>switch\<close> of \<open>qmi_decode\<close>: the result of the element's decoder; negative for an error.\<close>

definition dec_switch ::
    "(qmi_elem_info list option \<Rightarrow> decoder) \<Rightarrow> qmi_elem_info \<Rightarrow> int \<Rightarrow> mem \<Rightarrow> nat \<Rightarrow> u32 \<Rightarrow>
     dec_state \<Rightarrow> (int \<times> mem) option" where
  "dec_switch dec e level src out_c_struct tlv_len st =
     (let buf_dst = out_c_struct + offset e in
      if is_basic (data_type e) then
        Some (qmi_decode_basic_elem (d_dst st) buf_dst src (d_buf_src st) (d_data_len_value st) (elem_size e))
      else if data_type e = QMI_STRUCT then
        qmi_decode_struct_elem (dec (ei_array e)) e (d_dst st) buf_dst (d_buf_src st)
          (d_data_len_value st) tlv_len (level + 1)
      else if data_type e = QMI_STRING then
        Some (qmi_decode_string_elem e (d_dst st) buf_dst src (d_buf_src st) tlv_len level)
      else Some (- EINVAL, d_dst st))"

definition decode_elem ::
    "(qmi_elem_info list option \<Rightarrow> decoder) \<Rightarrow> qmi_elem_info list \<Rightarrow> int \<Rightarrow> mem \<Rightarrow> nat \<Rightarrow> u32 \<Rightarrow>
     dec_state \<Rightarrow> ((int \<times> mem) + (qmi_elem_info list \<times> dec_state)) option" where
  "decode_elem dec eis level src out_c_struct tlv_len st =
     (case dec_opt_flag eis out_c_struct st of
        None \<Rightarrow> None
      | Some (eis, st) \<Rightarrow>
          (case dec_len_field eis src out_c_struct tlv_len st of
             None \<Rightarrow> None
           | Some (eis, tlv_len, st) \<Rightarrow>
               (case eis of
                  [] \<Rightarrow> None
                | e # es \<Rightarrow>
                    (case dec_data_len e (d_data_len_value st) of
                       None \<Rightarrow> Some (Inl (- EINVAL, d_dst st))
                     | Some v \<Rightarrow>
                         let st = st\<lparr>d_data_len_value := v\<rparr> in
                         (case dec_switch dec e level src out_c_struct tlv_len st of
                            None \<Rightarrow> None
                          | Some (rc, dst) \<Rightarrow>
                              if \<not> is_basic (data_type e) \<and> rc < 0 then Some (Inl (rc, dst))
                              else Some (Inr (es, update_decode_variables (st\<lparr>d_dst := dst\<rparr>) rc)))))))"

definition dec_init :: "mem \<Rightarrow> nat \<Rightarrow> dec_state" where
  "dec_init dst in_buf =
     \<lparr>d_dst = dst, d_buf_src = in_buf, d_data_len_value = 0, d_decoded_bytes = 0\<rparr>"

text \<open>
  The loop of \<open>qmi_decode\<close>. The 32-bit count of decoded bytes may wrap, so the loop has fuel,
  used up by one in every round and every nested call.
\<close>

primrec qmi_decode_loop ::
    "nat \<Rightarrow> qmi_elem_info list \<Rightarrow> qmi_elem_info list \<Rightarrow> int \<Rightarrow> mem \<Rightarrow> nat \<Rightarrow> u32 \<Rightarrow> dec_state \<Rightarrow>
     (int \<times> mem) option" where
  "qmi_decode_loop 0 eis temp_ei level src out_c_struct in_buf_len st = None"
| "qmi_decode_loop (Suc n) eis temp_ei level src out_c_struct in_buf_len st =
     (let dec = (\<lambda>tab dst d s len.
            case tab of
              None \<Rightarrow> if len = 0 then Some (0, dst) else None
            | Some es \<Rightarrow> qmi_decode_loop n es es (level + 1) src d len (dec_init dst s));
          element = (\<lambda>temp_ei tlv_len st.
            case decode_elem dec temp_ei level src out_c_struct tlv_len st of
              None \<Rightarrow> None
            | Some (Inl r) \<Rightarrow> Some r
            | Some (Inr (temp_ei, st)) \<Rightarrow>
                qmi_decode_loop n eis temp_ei level src out_c_struct in_buf_len st) in
      if d_decoded_bytes st < in_buf_len then
        if level = 1 then
          let p = d_buf_src st;
              t = ucast (src p) :: u32;
              tlv_len = ucast (src (p + 1)) OR push_bit 8 (ucast (src (p + 2))) :: u32;
              st = update_decode_variables st 3 in
          (case find_ei eis t of
             None \<Rightarrow> None
           | Some None \<Rightarrow>
               if t < 0x10 then Some (- EINVAL, d_dst st)
               else qmi_decode_loop n eis [] level src out_c_struct in_buf_len
                      (update_decode_variables st (sint tlv_len))
           | Some (Some temp_ei) \<Rightarrow> element temp_ei tlv_len st)
        else
          (case temp_ei of
             [] \<Rightarrow> None
           | e # es \<Rightarrow>
               if 2 \<le> level \<and> data_type e = QMI_EOTI then Some (sint (d_decoded_bytes st), d_dst st)
               else element temp_ei (in_buf_len - d_decoded_bytes st) st)
      else Some (sint (d_decoded_bytes st), d_dst st))"

definition qmi_decode ::
    "nat \<Rightarrow> qmi_elem_info list \<Rightarrow> mem \<Rightarrow> nat \<Rightarrow> mem \<Rightarrow> nat \<Rightarrow> u32 \<Rightarrow> int \<Rightarrow> (int \<times> mem) option" where
  "qmi_decode fuel eis dst out_c_struct src in_buf in_buf_len level =
     qmi_decode_loop fuel eis eis level src out_c_struct in_buf_len (dec_init dst in_buf)"

section \<open>Messages\<close>

text \<open>The packed header: type, transaction, message id and length of what follows.\<close>

record qmi_header =
  qh_type :: u8
  qh_txn_id :: u16
  qh_msg_id :: u16
  qh_msg_len :: u16

abbreviation (input) qmi_header_size :: nat where "qmi_header_size \<equiv> 7"
abbreviation (input) QMI_REQUEST :: int where "QMI_REQUEST \<equiv> 0"
abbreviation (input) QMI_RESPONSE :: int where "QMI_RESPONSE \<equiv> 2"
abbreviation (input) QMI_INDICATION :: int where "QMI_INDICATION \<equiv> 4"

definition qmi_header_bytes :: "qmi_header \<Rightarrow> u8 list" where
  "qmi_header_bytes h = qh_type h # le16 (qh_txn_id h) @ le16 (qh_msg_id h) @ le16 (qh_msg_len h)"

definition qmi_header_read :: "mem \<Rightarrow> nat \<Rightarrow> qmi_header" where
  "qmi_header_read m p = \<lparr>qh_type = m p, qh_txn_id = get16 m (p + 1), qh_msg_id = get16 m (p + 3),
     qh_msg_len = get16 m (p + 5)\<rparr>"

lemma length_qmi_header_bytes [simp, codec_simps]: "length (qmi_header_bytes h) = qmi_header_size"
  by (simp add: qmi_header_bytes_def)

lemma qmi_header_read_bytes [codec_simps]: "holds m p (qmi_header_bytes h) \<Longrightarrow> qmi_header_read m p = h"
  by (simp add: qmi_header_bytes_def qmi_header_read_def get16_le16 eval_nat_numeral)

interpretation qmi_hdr: byte_codec qmi_header_bytes qmi_header_read qmi_header_size
  by unfold_locales (simp_all add: codec_simps)

definition qmi_encode_message ::
    "qrtr_packet \<Rightarrow> int \<Rightarrow> int \<Rightarrow> int \<Rightarrow> (mem \<times> nat) option \<Rightarrow> qmi_elem_info list option \<Rightarrow>
     (int \<times> qrtr_packet) option" where
  "qmi_encode_message pkt ty msg_id txn_id c_struct ei =
     (case (if c_struct = None then qmi_calc_min_msg_len ei 1 else Some 0) of
        None \<Rightarrow> None
      | Some ret \<Rightarrow>
          if ret \<noteq> 0 then Some (- EINVAL, pkt)
          else if pkt_data_len pkt < qmi_header_size then Some (- EMSGSIZE, pkt)
          else
            (case (case c_struct of
                     None \<Rightarrow> Some (0, pkt_data pkt)
                   | Some (src, s) \<Rightarrow>
                       qmi_encode ei (pkt_data pkt) qmi_header_size src s
                         (of_nat (pkt_data_len pkt - qmi_header_size)) 1) of
               None \<Rightarrow> None
             | Some (msglen, m) \<Rightarrow>
                 if msglen < 0 then Some (msglen, pkt\<lparr>pkt_data := m\<rparr>)
                 else
                   let hdr = \<lparr>qh_type = word_of_int ty, qh_txn_id = word_of_int txn_id,
                              qh_msg_id = word_of_int msg_id, qh_msg_len = word_of_int msglen\<rparr>;
                       len = qmi_header_size + nat msglen in
                   Some (int len, pkt\<lparr>pkt_data := wr m 0 (qmi_header_bytes hdr),
                                     pkt_type := QRTR_TYPE_DATA, pkt_data_len := len\<rparr>)))"

text \<open>The subtraction is in \<open>size_t\<close>: a packet shorter than the header wraps to a huge length.\<close>

definition qmi_decode_header :: "qrtr_packet \<Rightarrow> int \<times> u32 option" where
  "qmi_decode_header pkt =
     (let qmi = qmi_header_read (pkt_data pkt) 0 in
      if unat (qh_msg_len qmi) \<noteq> unat (of_nat (pkt_data_len pkt) - 7 :: u64) then (- EINVAL, None)
      else (0, Some (ucast (qh_msg_id qmi))))"

text \<open>The result, the transaction id if it is stored, and the C structure.\<close>

definition qmi_decode_message ::
    "nat \<Rightarrow> (mem \<times> nat) option \<Rightarrow> qrtr_packet \<Rightarrow> int \<Rightarrow> int \<Rightarrow> qmi_elem_info list option \<Rightarrow>
     (int \<times> u32 option \<times> mem option) option" where
  "qmi_decode_message fuel c_struct pkt ty mid ei =
     (let hdr = qmi_header_read (pkt_data pkt) 0 in
      case (ei, c_struct) of
        (None, _) \<Rightarrow> Some (- EINVAL, None, map_option fst c_struct)
      | (_, None) \<Rightarrow> Some (- EINVAL, None, None)
      | (Some eis, Some (dst, out)) \<Rightarrow>
          if pkt_data_len pkt = 0 then Some (- EINVAL, None, Some dst)
          else if uint (qh_type hdr) \<noteq> ty then Some (- EINVAL, None, Some dst)
          else if uint (qh_msg_id hdr) \<noteq> mid then Some (- EINVAL, None, Some dst)
          else
            map_option (\<lambda>(rc, dst). (rc, Some (ucast (qh_txn_id hdr)), Some dst))
              (qmi_decode fuel eis dst out (pkt_data pkt) qmi_header_size
                 (of_nat (pkt_data_len pkt) - 7) 1))"

end
