(* ===== verification/QmiBounds.thy ===== *)
theory QmiBounds
  imports Qmi
begin

text \<open>
  Memory safety of the QMI encoder: for tables that pass the static check \<open>tab_ok\<close>, encoding always
  returns and stores nothing outside the buffer it was given; with a string inside a nested
  structure this fails.
\<close>

section \<open>Copying\<close>

lemma sint_small: "unat (w :: u32) < 2 ^ 31 \<Longrightarrow> sint w = int (unat w)"
proof -
  assume "unat w < 2 ^ 31"
  then have "int (unat w) < int (2 ^ 31)" by (rule of_nat_less_iff [THEN iffD2])
  then have "uint w < 2 ^ 31" by simp
  moreover have "- (2 ^ 31) \<le> uint w" by (rule order_trans [OF _ uint_ge_0]) simp
  ultimately show ?thesis
    using signed_take_bit_int_eq_self [of 31 "uint w"] by (simp add: sint_uint)
qed

lemma unat_of_nat_small: "k < 2 ^ 32 \<Longrightarrow> unat (of_nat k :: u32) = k"
  by (simp add: unsigned_of_nat take_bit_nat_eq_self)

lemma sint_of_nat_small: "k < 2 ^ 31 \<Longrightarrow> sint (of_nat k :: u32) = int k"
  using sint_small [of "of_nat k"] by (simp add: unat_of_nat_small)

lemma basic_loop_eq:
  "basic_loop n sz dst d src s rc =
     (sint (rc + of_nat n * sz), wr dst d (rd src s (n * unat sz)))"
proof (induction n arbitrary: dst d s rc)
  case (Suc n)
  then show ?case by (simp add: rd_add wr_append algebra_simps)
qed simp

lemma unat_mult_small: "unat (a :: u32) * unat b < 2 ^ 31 \<Longrightarrow> unat (a * b) = unat a * unat b"
  by (simp add: unat_mult_lem [symmetric])

lemma copy_elems:
  fixes len sz :: u32
  assumes "unat len * unat sz < 2 ^ 31"
  shows "basic_loop (unat len) sz dst d src s 0 =
    (int (unat len * unat sz), wr dst d (rd src s (unat len * unat sz)))"
proof -
  have "sint (len * sz) = int (unat len * unat sz)"
    using assms unat_mult_small [OF assms] sint_small [of "len * sz"] by presburger
  then show ?thesis by (simp add: basic_loop_eq del: of_nat_mult)
qed

lemma ptr_add_int [simp]: "ptr_add p (int k) = p + k"
  by (simp add: ptr_add_def)

section \<open>Tables the encoder is safe for\<close>

definition elem_ok :: "qmi_elem_info \<Rightarrow> bool" where
  "elem_ok e \<longleftrightarrow> 0 < elem_len e \<and> 0 < elem_size e \<and> unat (elem_len e) * unat (elem_size e) < 2 ^ 31 \<and>
     (data_type e = QMI_DATA_LEN \<longrightarrow> elem_size e \<le> 4) \<and> (data_type e = QMI_STRING \<longrightarrow> elem_size e = 1)"

text \<open>
  The outermost table comes with the type of its terminator, which no other entry may have, so
  that skipping an element does not run past the end. A nested table starts with an
  element that is always encoded and holds no string.
\<close>

function tab_ok :: "u8 option \<Rightarrow> qmi_elem_info list \<Rightarrow> bool" where
  "tab_ok ot [] = False"
| "tab_ok ot (e # es) =
     (if data_type e = QMI_EOTI then ot = None \<or> ot = Some (tlv_type e)
      else elem_ok e \<and> ot \<noteq> Some (tlv_type e) \<and>
        (data_type e = QMI_STRING \<longrightarrow> ot \<noteq> None) \<and>
        (data_type e = QMI_DATA_LEN \<longrightarrow> es \<noteq> [] \<and> data_type (hd es) \<noteq> QMI_EOTI) \<and>
        (data_type e = QMI_STRUCT \<longrightarrow>
           (case ei_array e of
              None \<Rightarrow> False
            | Some n \<Rightarrow> n \<noteq> [] \<and> data_type (hd n) \<noteq> QMI_OPT_FLAG \<and> data_type (hd n) \<noteq> QMI_EOTI \<and>
                tab_ok None n)) \<and>
        tab_ok ot es)"
  by pat_completeness auto
termination
  by (relation "measure (\<lambda>(_, eis). tab_size eis)") (auto dest: nested_size')

lemma skip_run_ok:
  "tab_ok (Some t) es \<Longrightarrow> u \<noteq> t \<Longrightarrow> \<exists>es'. skip_run u es = Some es' \<and> tab_ok (Some t) es'"
proof (induction es)
  case (Cons e es)
  then show ?case by (cases "u = tlv_type e") (auto split: if_splits)
qed simp

lemma skip_ok:
  assumes "tab_ok ot es" "es \<noteq> []" "data_type (hd es) \<noteq> QMI_EOTI" "ot = None \<longleftrightarrow> 1 < level"
  shows "\<exists>es'. skip_to_next_elem es level = Some es' \<and> tab_ok ot es'"
proof -
  obtain e r where es: "es = e # r" using assms(2) by (cases es) auto
  then have "tab_ok ot r" "ot \<noteq> Some (tlv_type e)" using assms(1,3) by auto
  then show ?thesis
    using assms(4) skip_run_ok [of _ r "tlv_type e"] es
    by (cases ot) (auto simp: skip_to_next_elem_def)
qed

section \<open>What an element may do to the buffer\<close>

text \<open>
  With \<open>n\<close> bytes encoded of the \<open>L\<close> available, an element stored at \<open>d\<close> has \<open>L - n - 3\<close> bytes;
  three are kept for the TLV header.
\<close>

definition same_outside :: "nat \<Rightarrow> nat \<Rightarrow> mem \<Rightarrow> mem \<Rightarrow> bool" where
  "same_outside a b m m' \<longleftrightarrow> (\<forall>x. x < a \<or> b \<le> x \<longrightarrow> m' x = m x)"

lemma same_outside_refl [simp]: "same_outside a b m m"
  by (simp add: same_outside_def)

lemma same_outside_mono:
  "same_outside a b m m' \<Longrightarrow> a' \<le> a \<Longrightarrow> b \<le> b' \<or> b \<le> a \<Longrightarrow> same_outside a' b' m m'"
  unfolding same_outside_def by (metis dual_order.strict_trans2 le_trans not_less)

lemma same_outside_trans:
  "same_outside a b m m' \<Longrightarrow> same_outside a b m' m'' \<Longrightarrow> same_outside a b m m''"
  by (simp add: same_outside_def)

lemma same_outside_wr: "a \<le> d \<Longrightarrow> d + length xs \<le> b \<Longrightarrow> same_outside a b m (wr m d xs)"
  by (auto simp: same_outside_def wr_outside)

definition elem_fits :: "nat \<Rightarrow> nat \<Rightarrow> mem \<Rightarrow> int \<times> mem \<Rightarrow> bool" where
  "elem_fits room d m r \<longleftrightarrow> same_outside d (d + (room - 3)) m (snd r) \<and>
     (0 \<le> fst r \<longrightarrow> fst r + 3 \<le> int room)"

lemma copy_fits:
  fixes len sz :: u32
  assumes "unat len * unat sz < 2 ^ 31" "unat len * unat sz + 3 \<le> room"
  shows "elem_fits room d m (basic_loop (unat len) sz m d src s 0)"
proof -
  define k where "k = unat len * unat sz"
  show ?thesis
    using assms(2) unfolding copy_elems [OF assms(1)] k_def [symmetric]
    by (simp add: elem_fits_def same_outside_wr)
qed

definition nested_fits :: "encoder \<Rightarrow> bool" where
  "nested_fits enc \<longleftrightarrow> (\<forall>m d s len. unat len < 2 ^ 31 \<longrightarrow>
     (\<exists>r. enc m d s len = Some r \<and> elem_fits (unat len) d m r \<and> fst r \<noteq> 0))"

lemma struct_loop_fits:
  assumes "nested_fits enc" "unat L < 2 ^ 31" "k = 0 \<or> k + 3 \<le> unat L"
  shows "\<exists>r. struct_enc_loop n enc sz L m (d + k) s (int k) = Some r \<and>
    same_outside d (d + (unat L - 3)) m (snd r) \<and>
    (0 \<le> fst r \<longrightarrow> (fst r = int k \<and> n = 0) \<or> int k < fst r \<and> fst r + 3 \<le> int (unat L))"
  using assms(3)
proof (induction n arbitrary: m s k)
  case (Suc n)
  have k: "k \<le> unat L" using Suc.prems by auto
  have "unat (word_of_int (int k) :: u32) = k"
    using k assms(2) by (simp add: unsigned_of_nat take_bit_nat_eq_self)
  then have room: "unat (L - word_of_int (int k)) = unat L - k"
    using k by (simp add: unat_sub word_le_nat_alt)
  then have "unat (L - word_of_int (int k)) < 2 ^ 31" using assms(2) by linarith
  with assms(1) obtain r0 where "enc m (d + k) s (L - word_of_int (int k)) = Some r0"
      "elem_fits (unat (L - word_of_int (int k))) (d + k) m r0" "fst r0 \<noteq> 0"
    unfolding nested_fits_def by blast
  then obtain rc m' where r: "enc m (d + k) s (L - word_of_int (int k)) = Some (rc, m')"
      "elem_fits (unat L - k) (d + k) m (rc, m')" "rc \<noteq> 0"
    unfolding room by (cases r0) simp
  have frame: "same_outside d (d + (unat L - 3)) m m'"
  proof (rule same_outside_mono)
    show "same_outside (d + k) (d + k + (unat L - k - 3)) m m'" using r(2) by (simp add: elem_fits_def)
  qed (use Suc.prems in auto)
  show ?case
  proof (cases "rc < 0")
    case True
    with r frame show ?thesis by simp
  next
    case False
    with r(3) have j: "rc = int (nat rc)" "0 < nat rc" by auto
    define j where "j = nat rc"
    note j = j [folded j_def]
    with r(2) k have "k + j + 3 \<le> unat L" by (simp add: elem_fits_def del: of_nat_unat)
    then obtain r' where r': "struct_enc_loop n enc sz L m' (d + (k + j)) (s + unat sz) (int (k + j)) = Some r'"
      and out: "same_outside d (d + (unat L - 3)) m' (snd r')"
      and res: "0 \<le> fst r' \<longrightarrow> (fst r' = int (k + j) \<and> n = 0) \<or> int (k + j) < fst r' \<and> fst r' + 3 \<le> int (unat L)"
      using Suc.IH [of "k + j" m' "s + unat sz"] by blast
    have "struct_enc_loop (Suc n) enc sz L m (d + k) s (int k) = Some r'"
      using r(1) j r' by (simp add: add.assoc)
    moreover have "0 \<le> fst r' \<longrightarrow> int k < fst r' \<and> fst r' + 3 \<le> int (unat L)"
      using res j(2) \<open>k + j + 3 \<le> unat L\<close> by linarith
    ultimately show ?thesis using same_outside_trans [OF frame out] by blast
  qed
qed simp

section \<open>The encoder keeps inside the buffer\<close>

abbreviation encoded :: "enc_state \<Rightarrow> nat" where
  "encoded st \<equiv> unat (e_encoded_bytes st)"

text \<open>Nested levels leave the three bytes of the outer TLV header to their caller.\<close>

definition room_end :: "int \<Rightarrow> nat \<Rightarrow> nat \<Rightarrow> nat" where
  "room_end level p L = p + (if level = 1 then L else L - 3)"

definition enc_inv :: "int \<Rightarrow> nat \<Rightarrow> nat \<Rightarrow> mem \<Rightarrow> enc_state \<Rightarrow> bool" where
  "enc_inv level p L m st \<longleftrightarrow>
     encoded st \<le> L \<and> same_outside p (room_end level p L) m (e_dst st) \<and>
     (if level = 1 then
        e_buf_dst st = p + 3 + encoded st \<and> unat (e_tlv_len st) \<le> encoded st \<and>
        e_tlv_pointer st + unat (e_tlv_len st) = p + encoded st
      else e_buf_dst st = p + encoded st \<and> (encoded st = 0 \<or> encoded st + 3 \<le> L))"

lemma unat_add_int:
  "unat (a :: u32) + k < 2 ^ 32 \<Longrightarrow> unat (a + word_of_int (int k)) = unat a + k"
  by (simp add: unat_word_ariths unsigned_of_nat take_bit_nat_eq_self)

lemma enc_inv_frame:
  assumes "enc_inv level p L m st" "elem_fits (L - encoded st) (e_buf_dst st) (e_dst st) (rc, dst)"
  shows "same_outside p (room_end level p L) m dst"
proof -
  have "same_outside p (room_end level p L) (e_dst st) dst"
  proof (rule same_outside_mono)
    show "same_outside (e_buf_dst st) (e_buf_dst st + (L - encoded st - 3)) (e_dst st) dst"
      using assms(2) by (simp add: elem_fits_def)
  qed (use assms(1) in \<open>auto simp: enc_inv_def room_end_def split: if_splits\<close>)
  with assms(1) show ?thesis unfolding enc_inv_def by (blast intro: same_outside_trans)
qed

lemma enc_inv_update:
  assumes inv: "enc_inv level p L m st" and L: "L < 2 ^ 31"
    and fits: "elem_fits (L - encoded st) (e_buf_dst st) (e_dst st) (int j, dst)"
  shows "enc_inv level p L m (update_encode_variables st dst (int j))"
    and "encoded (update_encode_variables st dst (int j)) = encoded st + j"
    and "encoded st + j + 3 \<le> L"
proof -
  show room: "encoded st + j + 3 \<le> L"
    using fits inv by (auto simp: elem_fits_def enc_inv_def simp del: of_nat_unat)
  have n: "unat (e_encoded_bytes st + word_of_int (int j)) = encoded st + j"
    using room L by (intro unat_add_int) simp
  then show "encoded (update_encode_variables st dst (int j)) = encoded st + j"
    by (simp add: update_encode_variables_def)
  have "level = 1 \<Longrightarrow> unat (e_tlv_len st + word_of_int (int j)) = unat (e_tlv_len st) + j"
    using room L inv by (intro unat_add_int) (auto simp: enc_inv_def)
  then show "enc_inv level p L m (update_encode_variables st dst (int j))"
    using enc_inv_frame [OF inv fits] inv room n
    by (auto simp: enc_inv_def update_encode_variables_def split: if_splits)
qed

definition elem_done ::
    "u8 option \<Rightarrow> int \<Rightarrow> nat \<Rightarrow> nat \<Rightarrow> mem \<Rightarrow> qmi_elem_info \<Rightarrow> enc_state \<Rightarrow>
     (int \<times> mem) + (qmi_elem_info list \<times> enc_state) \<Rightarrow> bool" where
  "elem_done ot level p L m e st r =
     (case r of
        Inl (rc, dst) \<Rightarrow> rc < 0 \<and> same_outside p (room_end level p L) m dst
      | Inr (es', st') \<Rightarrow> tab_ok ot es' \<and> enc_inv level p L m st' \<and>
          (e_encode_tlv st' \<and> level = 1 \<longrightarrow> encoded st' + 3 \<le> L) \<and> encoded st \<le> encoded st' \<and>
          (data_type e \<noteq> QMI_OPT_FLAG \<and> data_type e \<noteq> QMI_STRING \<longrightarrow> encoded st < encoded st'))"

lemma elem_done_fits:
  assumes "enc_inv level p L m st" "L < 2 ^ 31" "tab_ok ot es"
    and "elem_fits (L - encoded st) (e_buf_dst st) (e_dst st) (rc, dst)"
    and "data_type e \<noteq> QMI_STRING \<longrightarrow> rc \<noteq> 0"
  shows "rc < 0 \<Longrightarrow> elem_done ot level p L m e st (Inl (rc, dst))"
    and "\<not> rc < 0 \<Longrightarrow> elem_done ot level p L m e st (Inr (es, update_encode_variables st dst rc))"
proof -
  show "rc < 0 \<Longrightarrow> elem_done ot level p L m e st (Inl (rc, dst))"
    using enc_inv_frame [OF assms(1,4)] by (simp add: elem_done_def)
  assume "\<not> rc < 0"
  then obtain j where j: "rc = int j" by (metis nonneg_int_cases not_less)
  note up = enc_inv_update [OF assms(1,2) assms(4) [unfolded j]]
  show "elem_done ot level p L m e st (Inr (es, update_encode_variables st dst rc))"
    using up assms(3,5) unfolding j by (auto simp: elem_done_def)
qed

lemma inv_error:
  "enc_inv level p L m st \<Longrightarrow> elem_done ot level p L m e st (Inl (- EINVAL, e_dst st))"
  by (simp add: elem_done_def enc_inv_def)

lemma encode_flag_done:
  assumes "enc_inv level p (unat L) m st" "tab_ok ot (e # es)" "data_type e = QMI_OPT_FLAG"
    and "ot = None \<longleftrightarrow> 1 < level" "level = 1 \<longrightarrow> \<not> e_encode_tlv st"
  shows "\<exists>r. encode_elem enc e es level L src b st = Some r \<and> elem_done ot level p (unat L) m e st r"
proof -
  obtain es' where es': "skip_to_next_elem (e # es) level = Some es'" "tab_ok ot es'"
    using skip_ok [OF assms(2) _ _ assms(4)] assms(3) by auto
  have "tab_ok ot es" using assms(2,3) by simp
  with es' assms(1,3,5) show ?thesis by (auto simp: encode_elem_def elem_done_def)
qed

lemma encode_len_done:
  assumes inv: "enc_inv level p (unat L) m st" and L: "unat L < 2 ^ 31"
    and ok: "tab_ok ot (e # es)" "data_type e = QMI_DATA_LEN" "ot = None \<longleftrightarrow> 1 < level"
  shows "\<exists>r. encode_elem enc e es level L src b st = Some r \<and> elem_done ot level p (unat L) m e st r"
proof -
  define v where "v = patch32 (e_data_len_value st) (rd src (b + offset e) (unat (elem_size e)))"
  define sz where "sz = data_len_size e"
  define st1 where "st1 = st\<lparr>e_data_len_value := v\<rparr>"
  define d where "d = basic_loop (unat (1 :: u32)) sz (e_dst st) (e_buf_dst st) (local32 v) 0 0"
  have sz: "0 < unat sz" "unat sz \<le> 2" by (simp_all add: sz_def data_len_size_def)
  have es: "tab_ok ot es" "es \<noteq> []" "data_type (hd es) \<noteq> QMI_EOTI" "elem_size e \<le> 4"
    using ok by (simp_all add: elem_ok_def)
  then obtain es' where es': "skip_to_next_elem es level = Some es'" "tab_ok ot es'"
    using skip_ok [OF _ _ _ ok(3)] by blast
  have inv1: "enc_inv level p (unat L) m st1" using inv by (simp add: enc_inv_def st1_def)
  have d_eq: "d = (int (unat sz), snd d)"
    using sz copy_elems [of 1 sz "e_dst st"] by (simp add: d_def)
  then have cp: "qmi_encode_basic_elem (e_dst st) (e_buf_dst st) (local32 v) 0 1 sz = (int (unat sz), snd d)"
    unfolding qmi_encode_basic_elem_def d_def [symmetric] .
  have "unat (sz + e_encoded_bytes st) = unat sz + encoded st"
    using inv L sz by (intro unat_add_lem [THEN iffD1]) (auto simp: enc_inv_def)
  then consider (full) "unat (sz + e_encoded_bytes st) + 3 > unat L"
    | (room) "\<not> unat (sz + e_encoded_bytes st) + 3 > unat L" "unat sz + encoded st + 3 \<le> unat L"
    by linarith
  then show ?thesis
  proof cases
    case full
    then have "encode_elem enc e es level L src b st = Some (Inl (- EINVAL, e_dst st))"
      using ok(2) es(4) by (simp add: encode_elem_def Let_def sz_def linorder_not_less)
    then show ?thesis using inv_error [OF inv] by blast
  next
    case room
    let ?st = "update_encode_variables st1 (snd d) (int (unat sz))"
    have step: "encode_elem enc e es level L src b st =
        (if v = 0 then map_option (\<lambda>es'. Inr (es', ?st)) (skip_to_next_elem es level)
         else Some (Inr (es, ?st\<lparr>e_encode_tlv := False\<rparr>)))"
      using ok(2) es(4) room(1) cp
      by (simp add: encode_elem_def Let_def st1_def leD v_def [symmetric] sz_def [symmetric]
          del: of_nat_unat)
    have "elem_fits (unat L - encoded st1) (e_buf_dst st1) (e_dst st1) (int (unat sz), snd d)"
      using copy_fits [of 1 sz "unat L - encoded st" "e_buf_dst st" "e_dst st" "local32 v" 0] room(2) sz
        d_eq by (simp add: st1_def d_def)
    note up = enc_inv_update [OF inv1 L this]
    have "encoded st1 = encoded st" by (simp add: st1_def)
    with up sz(1) es(1) es' show ?thesis
      unfolding step by (auto simp: elem_done_def enc_inv_def)
  qed
qed

lemma encode_basic_done:
  assumes inv: "enc_inv level p (unat L) m st" and L: "unat L < 2 ^ 31"
    and ok: "tab_ok ot es" "is_basic (data_type e)" "0 < elem_size e"
    and len: "0 < e_data_len_value st" "unat (e_data_len_value st) * unat (elem_size e) < 2 ^ 31"
  shows "\<exists>r. encode_elem enc e es level L src b st = Some r \<and> elem_done ot level p (unat L) m e st r"
proof -
  let ?k = "unat (e_data_len_value st) * unat (elem_size e)"
  define d where "d = basic_loop (unat (e_data_len_value st)) (elem_size e) (e_dst st) (e_buf_dst st)
    src (b + offset e) 0"
  have d_eq: "d = (int ?k, snd d)" using copy_elems [OF len(2)] by (simp add: d_def del: of_nat_mult)
  have pos: "0 < ?k" using ok(3) len(1) by (simp add: word_less_nat_alt)
  have types: "data_type e \<noteq> QMI_OPT_FLAG" "data_type e \<noteq> QMI_DATA_LEN" "data_type e \<noteq> QMI_STRING"
    using ok(2) by (auto simp: is_basic_def)
  have "unat (e_data_len_value st * elem_size e + e_encoded_bytes st) = ?k + encoded st"
    using inv L len(2) unat_mult_small [OF len(2)]
    by (subst unat_add_lem [THEN iffD1]) (auto simp: enc_inv_def)
  then consider (full) "unat (e_data_len_value st * elem_size e + e_encoded_bytes st) + 3 > unat L"
    | (room) "\<not> unat (e_data_len_value st * elem_size e + e_encoded_bytes st) + 3 > unat L"
        "?k + encoded st + 3 \<le> unat L"
    by linarith
  then show ?thesis
  proof cases
    case full
    then have "encode_elem enc e es level L src b st = Some (Inl (- EINVAL, e_dst st))"
      using ok(2) types by (simp add: encode_elem_def Let_def)
    then show ?thesis using inv_error [OF inv] by blast
  next
    case room
    have "encode_elem enc e es level L src b st =
        Some (Inr (es, update_encode_variables st (snd d) (fst d)))"
      using ok(2) types room(1)
      by (simp add: encode_elem_def Let_def qmi_encode_basic_elem_def d_def split: prod.split)
    moreover have "elem_fits (unat L - encoded st) (e_buf_dst st) (e_dst st) (fst d, snd d)"
      using copy_fits [OF len(2)] room(2) by (simp add: d_def)
    moreover have "fst d = int ?k" using d_eq by (metis fst_conv)
    ultimately show ?thesis
      using elem_done_fits(2) [OF inv L ok(1), of "fst d" "snd d" e] pos
      by (simp del: of_nat_mult)
  qed
qed

lemma encode_struct_done:
  assumes inv: "enc_inv level p (unat L) m st" and L: "unat L < 2 ^ 31"
    and ok: "tab_ok ot es" "data_type e = QMI_STRUCT" "nested_fits enc" "0 < e_data_len_value st"
  shows "\<exists>r. encode_elem enc e es level L src b st = Some r \<and> elem_done ot level p (unat L) m e st r"
proof -
  let ?L = "L - e_encoded_bytes st"
  have room: "unat ?L = unat L - encoded st"
    using inv by (intro unat_sub) (auto simp: enc_inv_def word_le_nat_alt)
  have pos: "unat (e_data_len_value st) \<noteq> 0" using ok(4) by (simp add: word_less_nat_alt)
  from L have "unat ?L < 2 ^ 31" unfolding room by linarith
  from struct_loop_fits [OF ok(3) this, of 0 "unat (e_data_len_value st)" "elem_size e" "e_dst st"
      "e_buf_dst st" "b + offset e"]
  obtain rc dst where r: "qmi_encode_struct_elem enc e (e_dst st) (e_buf_dst st) (b + offset e)
        (e_data_len_value st) ?L = Some (rc, dst)"
      and fits: "elem_fits (unat L - encoded st) (e_buf_dst st) (e_dst st) (rc, dst)" "rc \<noteq> 0"
    using pos by (auto simp: qmi_encode_struct_elem_def elem_fits_def room simp del: of_nat_unat)
  have "encode_elem enc e es level L src b st =
      (if rc < 0 then Some (Inl (rc, dst)) else Some (Inr (es, update_encode_variables st dst rc)))"
    using r ok(2) by (simp add: encode_elem_def Let_def is_basic_def)
  then show ?thesis using elem_done_fits [OF inv L ok(1) fits(1)] fits(2) by simp
qed

lemma encode_string_done:
  assumes inv: "enc_inv level p (unat L) m st" and L: "unat L < 2 ^ 31"
    and ok: "tab_ok ot es" "data_type e = QMI_STRING" "elem_ok e" "level = 1"
    and str: "strlen src (b + offset e) = Some n"
  shows "\<exists>r. encode_elem enc e es level L src b st = Some r \<and> elem_done ot level p (unat L) m e st r"
proof -
  let ?L = "L - e_encoded_bytes st" and ?k = "of_nat n :: u32"
  have room: "unat ?L = unat L - encoded st"
    using inv by (intro unat_sub) (auto simp: enc_inv_def word_le_nat_alt)
  have sz: "elem_size e = 1" using ok(2,3) by (simp add: elem_ok_def)
  consider (bad) "?k > elem_len e \<or> unat ?k + 3 > unat ?L"
    | (good) "\<not> ?k > elem_len e" "\<not> unat ?k + 3 > unat ?L" by blast
  then show ?thesis
  proof cases
    case bad
    then have "encode_elem enc e es level L src b st = Some (Inl (- EINVAL, e_dst st))"
      using ok(2,4) str by (auto simp: encode_elem_def qmi_encode_string_elem_def Let_def is_basic_def)
    then show ?thesis using inv_error [OF inv] by blast
  next
    case good
    define d where "d = basic_loop (unat ?k) 1 (e_dst st) (e_buf_dst st) src (b + offset e) 0"
    have small: "unat ?k * unat (1 :: u32) < 2 ^ 31" using good(2) L room by simp
    have d_eq: "d = (fst d, snd d)" "fst d = int (unat ?k)"
      using copy_elems [OF small] by (simp_all add: d_def)
    then have cp: "qmi_encode_basic_elem (e_dst st) (e_buf_dst st) src (b + offset e) ?k 1 = (fst d, snd d)"
      unfolding qmi_encode_basic_elem_def d_def [symmetric] by simp
    with d_eq(2) have enc: "encode_elem enc e es level L src b st =
        Some (Inr (es, update_encode_variables st (snd d) (fst d)))" and nn: "\<not> fst d < 0"
      using good ok(2,4) str
      by (simp_all add: encode_elem_def qmi_encode_string_elem_def Let_def is_basic_def sz
          del: of_nat_unat)
    have "elem_fits (unat L - encoded st) (e_buf_dst st) (e_dst st) (fst d, snd d)"
      using copy_fits [OF small] good(2) by (simp add: d_def room)
    then show ?thesis
      using elem_done_fits(2) [OF inv L ok(1) _ _ nn] ok(2) enc by blast
  qed
qed

lemma header_inv:
  assumes "enc_inv level p L m st" "L < 2 ^ 31" "e_encode_tlv st \<and> level = 1 \<longrightarrow> encoded st + 3 \<le> L"
  shows "enc_inv level p L m (encode_tlv_header level t st)"
    and "encoded st \<le> encoded (encode_tlv_header level t st)"
    and "level = 1 \<longrightarrow> \<not> e_encode_tlv (encode_tlv_header level t st)"
proof -
  have "unat (e_encoded_bytes st + 3) = encoded st + 3" if "encoded st + 3 \<le> L"
    using that assms(2) unat_add_int [of "e_encoded_bytes st" 3] by simp
  moreover have "same_outside p (p + L) m (wr (e_dst st) (e_tlv_pointer st) [x, y, z])"
    if "encoded st + 3 \<le> L" "level = 1" for x y z
    using assms(1) that
    by (intro same_outside_trans [OF _ same_outside_wr]) (auto simp: enc_inv_def room_end_def)
  ultimately show "enc_inv level p L m (encode_tlv_header level t st)"
    and "encoded st \<le> encoded (encode_tlv_header level t st)"
    and "level = 1 \<longrightarrow> \<not> e_encode_tlv (encode_tlv_header level t st)"
    using assms(1,3) by (auto simp: encode_tlv_header_def enc_inv_def room_end_def)
qed

lemma enc_data_len_ok:
  assumes "enc_data_len e len = Some v" "elem_ok e"
  shows "0 < v" "unat v * unat (elem_size e) < 2 ^ 31"
proof -
  show "0 < v"
    using assms by (auto simp: enc_data_len_def elem_ok_def word_less_nat_alt word_le_nat_alt
        split: qmi_array_type.splits if_splits)
  have "unat v \<le> unat (elem_len e)"
    using assms by (auto simp: enc_data_len_def elem_ok_def word_less_nat_alt
        split: qmi_array_type.splits if_splits)
  then have "unat v * unat (elem_size e) \<le> unat (elem_len e) * unat (elem_size e)" by simp
  also have "\<dots> < 2 ^ 31" using assms(2) by (simp add: elem_ok_def)
  finally show "unat v * unat (elem_size e) < 2 ^ 31" .
qed

text \<open>Every string the table refers to is terminated.\<close>

definition strings_ok :: "qmi_elem_info list \<Rightarrow> mem \<Rightarrow> nat \<Rightarrow> bool" where
  "strings_ok es src b \<longleftrightarrow>
     (\<forall>e \<in> set es. data_type e = QMI_STRING \<longrightarrow> strlen src (b + offset e) \<noteq> None)"

lemma skip_run_set: "skip_run t es = Some es' \<Longrightarrow> set es' \<subseteq> set es"
  by (induction es arbitrary: t) (auto split: if_splits)

lemma skip_set: "skip_to_next_elem es level = Some es' \<Longrightarrow> set es' \<subseteq> set es"
  by (cases es) (auto simp: skip_to_next_elem_def split: if_splits dest: skip_run_set)

lemma encode_elem_set:
  assumes "encode_elem enc e es level out_buf_len src b st = Some (Inr (es', st'))"
  shows "set es' \<subseteq> set (e # es)"
  using assms
  by (auto simp: encode_elem_def Let_def split: if_splits prod.splits option.splits
      dest!: skip_set)

definition loop_fits :: "int \<Rightarrow> nat \<Rightarrow> nat \<Rightarrow> mem \<Rightarrow> nat \<Rightarrow> int \<times> mem \<Rightarrow> bool" where
  "loop_fits level p L m n r \<longleftrightarrow> same_outside p (room_end level p L) m (snd r) \<and>
     (0 \<le> fst r \<longrightarrow> int n \<le> fst r \<and> fst r \<le> int L \<and> (level \<noteq> 1 \<longrightarrow> fst r = 0 \<or> fst r + 3 \<le> int L))"

lemma loop_end:
  assumes "enc_inv level p L m st" "L < 2 ^ 31"
  shows "loop_fits level p L m (encoded st) (sint (e_encoded_bytes st), e_dst st)"
  using assms sint_small [of "e_encoded_bytes st"]
  by (auto simp: loop_fits_def enc_inv_def simp del: of_nat_unat split: if_splits)

lemma loop_fits_mono: "loop_fits level p L m n r \<Longrightarrow> n' \<le> n \<Longrightarrow> loop_fits level p L m n' r"
  by (auto simp: loop_fits_def)

lemma encode_elem_done:
  assumes inv: "enc_inv level p (unat L) m st" and L: "unat L < 2 ^ 31"
    and ok: "tab_ok ot (e # es)" "data_type e \<noteq> QMI_EOTI"
    and level: "ot = None \<longleftrightarrow> 1 < level" "1 \<le> level" "level = 1 \<longrightarrow> \<not> e_encode_tlv st"
    and len: "0 < e_data_len_value st" "unat (e_data_len_value st) * unat (elem_size e) < 2 ^ 31"
    and nested: "data_type e = QMI_STRUCT \<Longrightarrow> nested_fits enc"
    and strs: "level = 1 \<longrightarrow> strings_ok (e # es) src b"
  shows "\<exists>r. encode_elem enc e es level L src b st = Some r \<and> elem_done ot level p (unat L) m e st r"
proof -
  have e: "elem_ok e" "tab_ok ot es" using ok by auto
  consider "data_type e = QMI_OPT_FLAG" | "data_type e = QMI_DATA_LEN" | "is_basic (data_type e)"
    | "data_type e = QMI_STRUCT" | "data_type e = QMI_STRING"
    using ok(2) by (cases "data_type e") (auto simp: is_basic_def)
  then show ?thesis
  proof cases
    case 1
    then show ?thesis using encode_flag_done [OF inv ok(1)] level by simp
  next
    case 2
    then show ?thesis using encode_len_done [OF inv L ok(1)] level(1) by simp
  next
    case 3
    then show ?thesis using encode_basic_done [OF inv L e(2)] len e(1) by (simp add: elem_ok_def)
  next
    case 4
    then show ?thesis using encode_struct_done [OF inv L e(2)] nested len(1) by simp
  next
    case 5
    then have "level = 1" using ok level by auto
    moreover from this 5 obtain n where "strlen src (b + offset e) = Some n"
      using strs by (auto simp: strings_ok_def)
    ultimately show ?thesis using encode_string_done [OF inv L e(2) 5 e(1)] by blast
  qed
qed

text \<open>The encoder of one entry's nested table, as the loop passes it on.\<close>

definition sub_encoder :: "qmi_elem_info \<Rightarrow> int \<Rightarrow> mem \<Rightarrow> encoder" where
  "sub_encoder e level src = (\<lambda>dst d s len. case ei_array e of None \<Rightarrow> Some (0, dst)
     | Some n \<Rightarrow> qmi_encode_loop n (level + 1) len src s (enc_init (level + 1) dst d))"

lemma qmi_encode_loop_Cons:
  "qmi_encode_loop (e # es) level L src b st =
     (if data_type e = QMI_EOTI then Some (sint (e_encoded_bytes st), e_dst st)
      else case enc_data_len e (e_data_len_value st) of
        None \<Rightarrow> Some (- EINVAL, e_dst st)
      | Some v \<Rightarrow>
          (case encode_elem (sub_encoder e level src) e es level L src b (st\<lparr>e_data_len_value := v\<rparr>) of
             None \<Rightarrow> None
           | Some (Inl r) \<Rightarrow> Some r
           | Some (Inr (es', st')) \<Rightarrow>
               qmi_encode_loop es' level L src b (encode_tlv_header level (tlv_type e) st')))"
  by (simp only: qmi_encode_loop.simps sub_encoder_def)

definition loop_start :: "int \<Rightarrow> qmi_elem_info list \<Rightarrow> nat \<Rightarrow> nat" where
  "loop_start level eis n =
     (if level \<noteq> 1 \<and> data_type (hd eis) \<noteq> QMI_OPT_FLAG \<and> data_type (hd eis) \<noteq> QMI_EOTI
      then n + 1 else n)"

lemma sub_encoder_fits:
  assumes "ei_array e = Some n" "data_type (hd n) \<noteq> QMI_OPT_FLAG" "data_type (hd n) \<noteq> QMI_EOTI" "1 \<le> level"
    and IH: "\<And>L b p m st. unat L < 2 ^ 31 \<Longrightarrow> enc_inv (level + 1) p (unat L) m st \<Longrightarrow>
      \<exists>r. qmi_encode_loop n (level + 1) L src b st = Some r \<and>
        loop_fits (level + 1) p (unat L) m (loop_start (level + 1) n (encoded st)) r"
  shows "nested_fits (sub_encoder e level src)"
  unfolding nested_fits_def
proof (intro allI impI)
  fix m d s len assume len: "unat (len :: u32) < 2 ^ 31"
  have "enc_inv (level + 1) d (unat len) m (enc_init (level + 1) m d)"
    using assms(4) by (simp add: enc_inv_def enc_init_def)
  with IH [OF len, of d m "enc_init (level + 1) m d" s] obtain r
    where "qmi_encode_loop n (level + 1) len src s (enc_init (level + 1) m d) = Some r"
      "loop_fits (level + 1) d (unat len) m 1 r"
    using assms(2-4) by (auto simp: loop_start_def enc_init_def)
  then show "\<exists>r. sub_encoder e level src m d s len = Some r \<and> elem_fits (unat len) d m r \<and> fst r \<noteq> 0"
    using assms(1,4) by (auto simp: sub_encoder_def elem_fits_def loop_fits_def room_end_def)
qed

lemma qmi_encode_loop_fits:
  assumes "tab_ok ot eis" "ot = None \<longleftrightarrow> 1 < level" "1 \<le> level" "unat L < 2 ^ 31"
    and "enc_inv level p (unat L) m st" "level = 1 \<longrightarrow> \<not> e_encode_tlv st"
    and "level = 1 \<longrightarrow> strings_ok eis src b"
  shows "\<exists>r. qmi_encode_loop eis level L src b st = Some r \<and>
    loop_fits level p (unat L) m (loop_start level eis (encoded st)) r"
  using assms
proof (induction "tab_size eis" arbitrary: ot eis level L b p m st rule: less_induct)
  case less
  obtain e es where eis: "eis = e # es" using less.prems(1) by (cases eis) auto
  note ok = less.prems(1) [unfolded eis] and L = less.prems(4) and inv = less.prems(5)
  consider (eoti) "data_type e = QMI_EOTI"
    | (bad) "data_type e \<noteq> QMI_EOTI" "enc_data_len e (e_data_len_value st) = None"
    | (elem) v where "data_type e \<noteq> QMI_EOTI" "enc_data_len e (e_data_len_value st) = Some v"
    by blast
  then show ?case
  proof cases
    case eoti
    then show ?thesis using loop_end [OF inv L] eis by (simp add: loop_start_def)
  next
    case bad
    then show ?thesis using inv eis by (simp add: loop_fits_def enc_inv_def)
  next
    case elem
    have e: "elem_ok e" using ok elem(1) by simp
    have nested: "nested_fits (sub_encoder e level src)" if struct: "data_type e = QMI_STRUCT"
    proof -
      obtain n where n: "ei_array e = Some n" "data_type (hd n) \<noteq> QMI_OPT_FLAG"
          "data_type (hd n) \<noteq> QMI_EOTI" "tab_ok None n"
        using ok struct by (cases "ei_array e") auto
      show ?thesis
        using less.hyps [OF _ n(4), of "level + 1"] nested_size [OF n(1), of es] less.prems(3) eis
        by (intro sub_encoder_fits [OF n(1-3) less.prems(3)]) auto
    qed
    have inv': "enc_inv level p (unat L) m (st\<lparr>e_data_len_value := v\<rparr>)"
      using inv by (simp add: enc_inv_def)
    have "\<exists>r. encode_elem (sub_encoder e level src) e es level L src b (st\<lparr>e_data_len_value := v\<rparr>) = Some r \<and>
        elem_done ot level p (unat L) m e (st\<lparr>e_data_len_value := v\<rparr>) r"
      using enc_data_len_ok [OF elem(2) e] less.prems(6,7) eis
      by (intro encode_elem_done [OF inv' L ok elem(1) less.prems(2,3)] nested) simp_all
    then obtain r where r: "encode_elem (sub_encoder e level src) e es level L src b
          (st\<lparr>e_data_len_value := v\<rparr>) = Some r"
        "elem_done ot level p (unat L) m e (st\<lparr>e_data_len_value := v\<rparr>) r"
      by blast
    show ?thesis
    proof (cases r)
      case (Inl a)
      then show ?thesis
        using r elem eis by (auto simp: qmi_encode_loop_Cons elem_done_def loop_fits_def simp del: qmi_encode_loop.simps)
    next
      case (Inr a)
      obtain es' st' where a: "a = (es', st')" by (cases a)
      define st'' where "st'' = encode_tlv_header level (tlv_type e) st'"
      have d: "tab_ok ot es'" "enc_inv level p (unat L) m st'"
        "e_encode_tlv st' \<and> level = 1 \<longrightarrow> encoded st' + 3 \<le> unat L" "encoded st \<le> encoded st'"
        "data_type e \<noteq> QMI_OPT_FLAG \<and> data_type e \<noteq> QMI_STRING \<longrightarrow> encoded st < encoded st'"
        using r(2) Inr a by (auto simp: elem_done_def)
      note h = header_inv [OF d(2) L d(3), of "tlv_type e", folded st''_def]
      have "tab_size es' < tab_size eis" using encode_elem_size r(1) Inr a eis by fastforce
      moreover have "level = 1 \<longrightarrow> strings_ok es' src b"
        using encode_elem_set r(1) Inr a eis less.prems(7) unfolding strings_ok_def by blast
      ultimately obtain q where q: "qmi_encode_loop es' level L src b st'' = Some q"
          "loop_fits level p (unat L) m (loop_start level es' (encoded st'')) q"
        using less.hyps [OF _ d(1) less.prems(2,3,4) h(1,3)] by blast
      have "level \<noteq> 1 \<Longrightarrow> data_type e \<noteq> QMI_STRING" using ok elem(1) less.prems(2,3) by auto
      then have "loop_start level eis (encoded st) \<le> loop_start level es' (encoded st'')"
        using d(4,5) h(2) eis by (auto simp: loop_start_def)
      moreover have "qmi_encode_loop eis level L src b st = Some q"
        using r(1) elem eis Inr a q(1)
        by (simp add: qmi_encode_loop_Cons st''_def del: qmi_encode_loop.simps)
      ultimately show ?thesis using q(2) loop_fits_mono by blast
    qed
  qed
qed

section \<open>Properties\<close>

text \<open>
  C25. Encoding a C structure with a table that passes the static check always
  returns; no byte of the packet at or beyond its length is written; on success the length of
  the packet is what is returned and has not grown, on an error it is unchanged.
\<close>

theorem qmi_encode_in_bounds:
  assumes tab: "tab_ok (Some t) eis" and strs: "strings_ok eis src s"
    and len: "pkt_data_len pkt < 2 ^ 31"
  shows "\<exists>rc pkt'. qmi_encode_message pkt ty mid txn (Some (src, s)) (Some eis) = Some (rc, pkt') \<and>
    (\<forall>a. pkt_data_len pkt \<le> a \<longrightarrow> pkt_data pkt' a = pkt_data pkt a) \<and>
    pkt_data_len pkt' \<le> pkt_data_len pkt \<and>
    (if rc < 0 then pkt_data_len pkt' = pkt_data_len pkt
     else rc = int (pkt_data_len pkt') \<and> qmi_header_size \<le> pkt_data_len pkt')"
proof (cases "pkt_data_len pkt < qmi_header_size")
  case True
  then show ?thesis by (simp add: qmi_encode_message_def)
next
  case False
  let ?L = "of_nat (pkt_data_len pkt - qmi_header_size) :: u32"
  have L: "unat ?L = pkt_data_len pkt - qmi_header_size"
    using len by (simp add: unsigned_of_nat take_bit_nat_eq_self)
  then have small: "unat ?L < 2 ^ 31" using len by linarith
  have "enc_inv 1 qmi_header_size (unat ?L) (pkt_data pkt) (enc_init 1 (pkt_data pkt) qmi_header_size)"
    by (simp add: enc_inv_def enc_init_def)
  from qmi_encode_loop_fits [OF tab _ _ small this, of src s] strs
  obtain rc m where r: "qmi_encode (Some eis) (pkt_data pkt) qmi_header_size src s ?L 1 = Some (rc, m)"
      and fits: "loop_fits 1 qmi_header_size (unat ?L) (pkt_data pkt) 0 (rc, m)"
    by (auto simp: qmi_encode_def enc_init_def loop_start_def)
  note fits = fits [unfolded L]
  have m: "m a = pkt_data pkt a" if "pkt_data_len pkt \<le> a" for a
    using fits that False by (simp add: loop_fits_def same_outside_def room_end_def)
  show ?thesis
  proof (cases "rc < 0")
    case True
    with r False m show ?thesis by (simp add: qmi_encode_message_def)
  next
    case nonneg: False
    then have "nat rc + qmi_header_size \<le> pkt_data_len pkt"
      using fits False by (auto simp: loop_fits_def)
    with r False m nonneg show ?thesis
      by (auto simp: qmi_encode_message_def Let_def wr_outside qmi_header_bytes_def)
  qed
qed

text \<open>A message with a string, an optional word and a nested structure.\<close>

definition sample_tab :: "qmi_elem_info list" where
  "sample_tab =
     [Elem_info QMI_STRING 8 1 NO_ARRAY 1 0 None,
      Elem_info QMI_OPT_FLAG 1 1 NO_ARRAY 16 9 None,
      Elem_info QMI_UNSIGNED_4_BYTE 1 4 NO_ARRAY 16 12 None,
      Elem_info QMI_STRUCT 1 4 NO_ARRAY 2 16
        (Some [Elem_info QMI_UNSIGNED_2_BYTE 1 2 NO_ARRAY 0 0 None,
               Elem_info QMI_UNSIGNED_2_BYTE 1 2 NO_ARRAY 0 2 None,
               Elem_info QMI_EOTI 0 0 NO_ARRAY 0 0 None]),
      Elem_info QMI_EOTI 0 0 NO_ARRAY 0 0 None]"

definition sample_packet :: "nat \<Rightarrow> qrtr_packet" where
  "sample_packet n = \<lparr>pkt_type = 0, pkt_node = 0, pkt_port = 0, pkt_service = 0, pkt_instance = 0,
     pkt_version = 0, pkt_data = \<lambda>_. 0, pkt_data_len = n\<rparr>"

lemma sample_tab_ok: "tab_ok (Some 0) sample_tab"
  by (simp add: sample_tab_def elem_ok_def)

theorem qmi_encode_in_bounds_witness:
  "tab_ok (Some 0) sample_tab \<and>
   (\<exists>rc pkt'. qmi_encode_message (sample_packet 256) 2 33 1 (Some (\<lambda>_. 0, 0)) (Some sample_tab) = Some (rc, pkt') \<and>
      pkt_data_len pkt' \<le> 256)"
proof -
  have "strings_ok sample_tab (\<lambda>_. 0) 0"
    by (simp add: strings_ok_def sample_tab_def strlen.simps)
  then show ?thesis
    using qmi_encode_in_bounds [OF sample_tab_ok, of "\<lambda>_. 0" 0 "sample_packet 256" 2 33 1]
      sample_tab_ok by (auto simp: sample_packet_def)
qed

text \<open>The smallest table with a string in a nested structure.\<close>

definition nested_string_tab :: "qmi_elem_info list" where
  "nested_string_tab =
     [Elem_info QMI_STRUCT 1 256 NO_ARRAY 1 0
        (Some [Elem_info QMI_STRING 255 1 NO_ARRAY 0 0 None, Elem_info QMI_EOTI 0 0 NO_ARRAY 0 0 None]),
      Elem_info QMI_EOTI 0 0 NO_ARRAY 0 0 None]"

lemma nested_string_elem:
  assumes "strlen src s = Some n" "n \<le> 255"
  shows "qmi_encode_string_elem (Elem_info QMI_STRING 255 1 NO_ARRAY 0 0 None) m d src s (of_nat (n + 1)) 2 =
    Some (int (n + 1), wr m d (ucast (of_nat n :: u32) # rd src s n))"
proof -
  have n: "unat (of_nat n :: u32) = n"
    using assms(2) by (simp add: unsigned_of_nat take_bit_nat_eq_self)
  have "unat (255 :: u32) = 255" by simp
  then have fit: "\<not> (255 :: u32) < of_nat n" using assms(2) n unfolding word_less_nat_alt by linarith
  have len: "qmi_encode_basic_elem m d (local32 (of_nat n)) 0 1 1 = (1, wr m d [ucast (of_nat n :: u32)])"
    by (simp add: qmi_encode_basic_elem_def basic_loop_eq rd_def local32_def wr_def le32_def)
  have str: "qmi_encode_basic_elem m' (d + 1) src s (of_nat n) 1 = (int n, wr m' (d + 1) (rd src s n))" for m'
    using copy_elems [of "of_nat n" 1 m' "d + 1" src s] assms(2) n
    by (simp add: qmi_encode_basic_elem_def del: of_nat_unat)
  have "ptr_add d 1 = d + 1" using ptr_add_int [of d 1] by simp
  moreover have "wr m d (ucast (of_nat n :: u32) # rd src s n) = wr (wr m d [ucast (of_nat n :: u32)]) (d + 1) (rd src s n)"
    using wr_append [of m d "[ucast (of_nat n :: u32)]" "rd src s n"] by simp
  ultimately show ?thesis
    using assms(1) fit len str by (simp add: qmi_encode_string_elem_def Let_def add.commute [of 1])
qed

text \<open>
  The room check of a nested string does not count the TLV header: with
  a packet buffer that is three bytes too small the encoder still succeeds, stores the last three
  characters behind the end of the buffer and returns a packet longer than the buffer.
\<close>

theorem qmi_nested_string_overflow:
  assumes str: "strlen src s = Some n" and n: "3 \<le> n" "n \<le> 255" and len: "pkt_data_len pkt = n + 8"
  shows "\<exists>pkt'. qmi_encode_message pkt ty mid txn (Some (src, s)) (Some nested_string_tab) =
      Some (int n + 11, pkt') \<and>
    pkt_data_len pkt' = pkt_data_len pkt + 3 \<and>
    rd (pkt_data pkt') (pkt_data_len pkt) 3 = rd src (s + n - 3) 3"
proof -
  let ?m = "wr (pkt_data pkt) 10 (ucast (of_nat n :: u32) # rd src s n)"
  let ?t = "[1, ucast (of_nat (n + 1) AND 0xff :: u32), ucast (drop_bit 8 (of_nat (n + 1)) AND 0xff :: u32)]"
  have small: "sint (of_nat (n + 4) :: u32) = int n + 4"
    using n(2) sint_of_nat_small [of "n + 4"] by simp
  have inner: "qmi_encode_loop
       [Elem_info QMI_STRING 255 1 NO_ARRAY 0 0 None, Elem_info QMI_EOTI 0 0 NO_ARRAY 0 0 None]
       2 (of_nat (n + 1)) src s (enc_init 2 (pkt_data pkt) 10) = Some (int (n + 1), ?m)"
    using nested_string_elem [OF str n(2), of "pkt_data pkt" 10] sint_of_nat_small [of "n + 1"] n(2)
    by (simp add: enc_data_len_def encode_elem_def is_basic_def enc_init_def
        update_encode_variables_def encode_tlv_header_def)
  have "qmi_encode (Some nested_string_tab) (pkt_data pkt) 7 src s (of_nat (n + 1)) 1 =
      Some (int n + 4, wr ?m 7 ?t)"
    using inner small sint_of_nat_small [of "4 + n"] n(2)
    by (simp add: qmi_encode_def nested_string_tab_def enc_data_len_def encode_elem_def is_basic_def
        qmi_encode_struct_elem_def enc_init_def update_encode_variables_def encode_tlv_header_def)
  moreover have "rd (wr (wr ?m 7 ?t) 0 hs) (n + 8) 3 = rd src (s + n - 3) 3" if "length hs = 7" for hs
  proof (rule nth_equalityI)
    fix i assume "i < length (rd (wr (wr ?m 7 ?t) 0 hs) (n + 8) 3)"
    then have i: "i < 3" by simp
    then have "wr (wr ?m 7 ?t) 0 hs (n + 8 + i) = ?m (n + 8 + i)"
      using n(1) that by (simp add: wr_outside)
    also have "\<dots> = rd src s n ! (n + i - 3)"
      using i n(1) by (simp add: wr_def nth_Cons' algebra_simps eval_nat_numeral)
    finally show "rd (wr (wr ?m 7 ?t) 0 hs) (n + 8) 3 ! i = rd src (s + n - 3) 3 ! i"
      using i n(1) by (simp add: algebra_simps)
  qed simp
  ultimately show ?thesis
    using len by (simp add: qmi_encode_message_def Let_def qmi_header_bytes_def)
qed

theorem qmi_nested_string_overflow_witness:
  "\<exists>pkt'. qmi_encode_message (sample_packet 11) 2 33 1
      (Some (wr (\<lambda>_. 0) 0 [65, 66, 67], 0)) (Some nested_string_tab) = Some (14, pkt') \<and>
    pkt_data_len pkt' = 14 \<and> rd (pkt_data pkt') 11 3 = [65, 66, 67]"
proof -
  let ?src = "wr (\<lambda>_. 0) 0 [65, 66, 67] :: mem"
  have "strlen ?src 0 = Some 3" by (simp add: strlen_iff wr_def nth_Cons' less_Suc_eq numeral_3_eq_3)
  moreover have "rd ?src 0 3 = [65, 66, 67]" by simp
  ultimately show ?thesis
    using qmi_nested_string_overflow [of ?src 0 3 "sample_packet 11" 2 33 1]
    by (simp add: sample_packet_def del: rd_wr_same)
qed

end
