(* ===== verification/QmiDecode.thy ===== *)
theory QmiDecode
  imports QmiBounds
begin

text \<open>
  Safety of the QMI decoder for arbitrary received bytes: for tables that fit their C structure,
  decoding returns and stores nothing outside the structure.
\<close>

section \<open>Tables that fit a C structure\<close>

text \<open>The most bytes of a message that the elements of a nested table can take.\<close>

function tab_span :: "qmi_elem_info list \<Rightarrow> nat" where
  "tab_span [] = 0"
| "tab_span (e # es) =
     (if data_type e = QMI_EOTI then 0
      else
        (if data_type e = QMI_OPT_FLAG then 0
         else if data_type e = QMI_DATA_LEN then 2
         else if data_type e = QMI_STRING then unat (elem_len e) + 2
         else if data_type e = QMI_STRUCT then
           (case ei_array e of None \<Rightarrow> 0 | Some n \<Rightarrow> unat (elem_len e) * tab_span n)
         else unat (elem_len e) * unat (elem_size e)) + tab_span es)"
  by pat_completeness auto
termination
  by (relation "measure tab_size") (auto dest: nested_size')

definition entry_fits :: "nat \<Rightarrow> qmi_elem_info \<Rightarrow> bool" where
  "entry_fits S e \<longleftrightarrow> 0 < elem_len e \<and>
     (if data_type e = QMI_OPT_FLAG then offset e + 1 \<le> S
      else if data_type e = QMI_DATA_LEN then offset e + 4 \<le> S
      else if data_type e = QMI_STRING then
        elem_size e = 1 \<and> offset e + unat (elem_len e) + 1 \<le> S \<and> unat (elem_len e) < 2 ^ 30
      else offset e + unat (elem_len e) * unat (elem_size e) \<le> S \<and>
        unat (elem_len e) * unat (elem_size e) < 2 ^ 30)"

function tab_fits :: "nat \<Rightarrow> qmi_elem_info list \<Rightarrow> bool" where
  "tab_fits S [] = False"
| "tab_fits S (e # es) =
     (if data_type e = QMI_EOTI then True
      else entry_fits S e \<and>
        (data_type e = QMI_STRUCT \<longrightarrow>
           (case ei_array e of
              None \<Rightarrow> False
            | Some n \<Rightarrow> tab_fits (unat (elem_size e)) n \<and> tab_span n < 2 ^ 30 \<and>
                unat (elem_len e) * tab_span n < 2 ^ 30)) \<and>
        tab_fits S es)"
  by pat_completeness auto
termination
  by (relation "measure (\<lambda>(_, eis). tab_size eis)") (auto dest: nested_size')

section \<open>One element\<close>

text \<open>What a decoder of at most \<open>k\<close> bytes into \<open>w\<close> bytes of structure may do.\<close>

definition dec_fits :: "nat \<Rightarrow> nat \<Rightarrow> nat \<Rightarrow> mem \<Rightarrow> int \<times> mem \<Rightarrow> bool" where
  "dec_fits k w d m r \<longleftrightarrow> same_outside d (d + w) m (snd r) \<and> fst r \<le> int k"

lemma copy_dec_fits:
  fixes len sz :: u32
  assumes "unat len * unat sz < 2 ^ 31" "unat len * unat sz \<le> w"
  shows "dec_fits (unat len * unat sz) w d m (basic_loop (unat len) sz m d src s 0)"
proof -
  define k where "k = unat len * unat sz"
  show ?thesis
    using assms(2) unfolding copy_elems [OF assms(1)] k_def [symmetric]
    by (simp add: dec_fits_def same_outside_wr)
qed

definition nested_dec :: "nat \<Rightarrow> nat \<Rightarrow> decoder \<Rightarrow> bool" where
  "nested_dec k w dec \<longleftrightarrow> (\<forall>m d s len. \<exists>r. dec m d s len = Some r \<and> dec_fits k w d m r)"

lemma struct_dec_loop_fits:
  assumes dec: "nested_dec k (unat sz) dec"
  shows "same_outside d (d + i * unat sz) m0 m \<Longrightarrow> decoded \<le> int (i * k) \<Longrightarrow>
    \<exists>r. struct_dec_loop n dec sz tlv_len level m (d + i * unat sz) s decoded = Some r \<and>
      dec_fits ((i + n) * k) ((i + n) * unat sz) d m0 r"
proof (induction n arbitrary: i m s decoded)
  case 0
  then show ?case by (auto simp: dec_fits_def struct_dec_end_def simp del: of_nat_mult)
next
  case (Suc n)
  have wide: "same_outside d (d + (i + Suc n) * unat sz) m0 m'"
    if "same_outside d (d + j * unat sz) m0 m'" "j \<le> i + Suc n" for j m'
    using that(1) mult_le_mono1 [OF that(2), of "unat sz"] by (elim same_outside_mono) linarith+
  have le: "int (j * k) \<le> int ((i + Suc n) * k)" if "j \<le> i + Suc n" for j
    using that by (simp only: of_nat_le_iff mult_le_mono1)
  show ?case
  proof (cases "word_of_int decoded < tlv_len")
    case False
    then show ?thesis
      using wide [OF Suc.prems(1)] le [of i] Suc.prems(2)
      by (auto simp: dec_fits_def struct_dec_end_def simp del: of_nat_mult)
  next
    case True
    obtain rc m' where r: "dec m (d + i * unat sz) s (tlv_len - word_of_int decoded) = Some (rc, m')"
        "dec_fits k (unat sz) (d + i * unat sz) m (rc, m')"
      using dec unfolding nested_dec_def by (metis surj_pair)
    have "same_outside d (d + (i + 1) * unat sz) m m'"
    proof (rule same_outside_mono)
      show "same_outside (d + i * unat sz) (d + i * unat sz + unat sz) m m'"
        using r(2) by (simp add: dec_fits_def)
    qed (auto simp: algebra_simps)
    moreover have "same_outside d (d + (i + 1) * unat sz) m0 m"
      using Suc.prems(1) by (rule same_outside_mono) auto
    ultimately have next_m: "same_outside d (d + (i + 1) * unat sz) m0 m'"
      by (rule same_outside_trans [rotated])
    show ?thesis
    proof (cases "rc < 0")
      case neg: True
      then have "rc \<le> int ((i + Suc n) * k)" by (meson less_imp_le of_nat_0_le_iff order_trans)
      with True neg r wide [OF next_m] show ?thesis
        by (simp add: dec_fits_def del: of_nat_mult)
    next
      case False
      have "decoded + rc \<le> int ((i + 1) * k)"
        using Suc.prems(2) r(2) by (simp add: dec_fits_def algebra_simps)
      from Suc.IH [OF next_m this] show ?thesis
        using True False r(1) by (simp add: algebra_simps)
    qed
  qed
qed

lemma tab_span_Cons: "data_type e \<noteq> QMI_EOTI \<Longrightarrow> tab_span (e # es) = tab_span [e] + tab_span es"
  by simp

abbreviation decoded :: "dec_state \<Rightarrow> nat" where
  "decoded st \<equiv> unat (d_decoded_bytes st)"

definition dec_inv :: "nat \<Rightarrow> nat \<Rightarrow> mem \<Rightarrow> dec_state \<Rightarrow> bool" where
  "dec_inv out S m st \<longleftrightarrow> same_outside out (out + S) m (d_dst st)"

lemma dec_inv_wr:
  assumes "dec_inv out S m st" "p + length bs \<le> S"
  shows "dec_inv out S m (st\<lparr>d_dst := wr (d_dst st) (out + p) bs\<rparr>)"
  using assms unfolding dec_inv_def
  by (auto intro!: same_outside_trans [OF _ same_outside_wr])

text \<open>Progress from one entry of the table to a later one.\<close>

definition dec_next :: "nat \<Rightarrow> nat \<Rightarrow> mem \<Rightarrow> qmi_elem_info list \<Rightarrow> dec_state \<Rightarrow> qmi_elem_info list \<Rightarrow> dec_state \<Rightarrow> bool" where
  "dec_next out S m eis st eis' st' \<longleftrightarrow>
     tab_fits S eis' \<and> set eis' \<subseteq> set eis \<and> tab_size eis' \<le> tab_size eis \<and> dec_inv out S m st' \<and>
     decoded st \<le> decoded st' \<and> decoded st' + tab_span eis' \<le> decoded st + tab_span eis"

lemma dec_next_refl: "tab_fits S eis \<Longrightarrow> dec_inv out S m st \<Longrightarrow> dec_next out S m eis st eis st"
  by (simp add: dec_next_def)

lemma dec_next_trans:
  "dec_next out S m eis st eis' st' \<Longrightarrow> dec_next out S m eis' st' eis'' st'' \<Longrightarrow>
   dec_next out S m eis st eis'' st''"
  by (auto simp: dec_next_def)

lemma dec_opt_flag_fits:
  assumes "tab_fits S eis" "dec_inv out S m st"
  shows "\<exists>eis' st'. dec_opt_flag eis out st = Some (eis', st') \<and> dec_next out S m eis st eis' st' \<and>
    d_data_len_value st' = d_data_len_value st"
proof -
  obtain e es where eis: "eis = e # es" using assms(1) by (cases eis) auto
  show ?thesis
  proof (cases "data_type e = QMI_OPT_FLAG")
    case True
    then have "offset e + length [1 :: u8] \<le> S" "tab_fits S es"
      using assms(1) eis by (auto simp: entry_fits_def)
    with dec_inv_wr [OF assms(2)] True show ?thesis
      by (auto simp: dec_opt_flag_def dec_next_def eis)
  next
    case False
    then show ?thesis using assms by (simp add: dec_opt_flag_def eis dec_next_refl)
  qed
qed

lemma dec_len_field_fits:
  assumes "tab_fits S eis" "dec_inv out S m st" "decoded st + tab_span eis < 2 ^ 32"
  shows "\<exists>eis' tl st'. dec_len_field eis src out tlv_len st = Some (eis', tl, st') \<and>
    dec_next out S m eis st eis' st'"
proof -
  obtain e es where eis: "eis = e # es" using assms(1) by (cases eis) auto
  show ?thesis
  proof (cases "data_type e = QMI_DATA_LEN")
    case True
    define sz where "sz = data_len_size e"
    have sz: "unat sz \<le> 2" by (simp add: sz_def data_len_size_def)
    have fits: "offset e + length (le32 v) \<le> S" "tab_fits S es" for v
      using assms(1) eis True by (auto simp: entry_fits_def)
    have "unat (d_decoded_bytes st + word_of_int (sint sz)) = decoded st + unat sz"
      using sz assms(3) True eis sint_small [of sz] unat_add_int [of "d_decoded_bytes st" "unat sz"]
      by (simp del: of_nat_unat)
    then show ?thesis
      using True fits dec_inv_wr [OF assms(2) fits(1)] sz
      by (auto simp: dec_len_field_def eis dec_next_def update_decode_variables_def Let_def
          dec_inv_def sz_def [symmetric])
  next
    case False
    then show ?thesis using assms by (simp add: dec_len_field_def eis dec_next_refl)
  qed
qed

lemma dec_data_len_le:
  assumes "dec_data_len e len = Some v" "0 < elem_len e"
  shows "unat v \<le> unat (elem_len e)"
  using assms by (auto simp: dec_data_len_def word_less_nat_alt split: qmi_array_type.splits if_splits)

lemma string_dec_fits:
  assumes "entry_fits S e" "data_type e = QMI_STRING"
  shows "dec_fits (tab_span [e]) (S - offset e) d m (qmi_decode_string_elem e m d src s tlv_len level)"
proof -
  define sz where "sz = (if elem_len e \<le> 256 then 1 else 2 :: u32)"
  define str where "str = (if level = 1 then tlv_len else patch32 0 (rd src s (unat sz)))"
  define k where "k = (if level = 1 then 0 else sint sz)"
  have e: "elem_size e = 1" "offset e + unat (elem_len e) + 1 \<le> S" "unat (elem_len e) < 2 ^ 30"
    using assms by (auto simp: entry_fits_def)
  have k: "k \<le> 2" by (simp add: k_def sz_def)
  have dec: "qmi_decode_string_elem e m d src s tlv_len level =
      (if str > elem_len e then (- EINVAL, m) else if str > tlv_len then (- EFAULT, m)
       else let (rc, m') = basic_loop (unat str) 1 m d src (ptr_add s k) 0 in
         (k + rc, wr m' (d + unat str) [0]))"
    by (simp add: qmi_decode_string_elem_def qmi_decode_basic_elem_def Let_def str_def k_def sz_def e(1))
  show ?thesis
  proof (cases "str \<le> elem_len e \<and> str \<le> tlv_len")
    case False
    then show ?thesis unfolding dec by (auto simp: dec_fits_def not_less assms(2))
  next
    case True
    then have le: "unat str \<le> unat (elem_len e)" by (simp add: word_le_nat_alt)
    with e(3) have "unat str * unat (1 :: u32) < 2 ^ 31" by simp
    then have copy: "basic_loop (unat str) 1 m d src (ptr_add s k) 0 =
        (int (unat str), wr m d (rd src (ptr_add s k) (unat str)))"
      using copy_elems [of str 1 m d src "ptr_add s k"] by simp
    have "same_outside d (d + (S - offset e)) m
        (wr (wr m d (rd src (ptr_add s k) (unat str))) (d + unat str) [0])"
      using le e(2) by (intro same_outside_trans [OF same_outside_wr same_outside_wr]) auto
    moreover have "k + int (unat str) \<le> int (tab_span [e])"
      using k le assms(2) by (simp del: of_nat_unat)
    ultimately show ?thesis
      using True unfolding dec copy by (simp add: dec_fits_def not_less del: of_nat_unat tab_span.simps)
  qed
qed

lemma dec_switch_fits:
  assumes tab: "tab_fits S (e # es)" "data_type e \<noteq> QMI_EOTI"
    and v: "unat (d_data_len_value st) \<le> unat (elem_len e)"
    and dec: "\<And>n. data_type e = QMI_STRUCT \<Longrightarrow> ei_array e = Some n \<Longrightarrow>
      tab_fits (unat (elem_size e)) n \<Longrightarrow> tab_span n < 2 ^ 30 \<Longrightarrow> nested_dec (tab_span n) (unat (elem_size e)) (dec (Some n))"
  shows "\<exists>rc dst. dec_switch dec e level src out tlv_len st = Some (rc, dst) \<and>
    dec_fits (tab_span [e]) (S - offset e) (out + offset e) (d_dst st) (rc, dst) \<and>
    (is_basic (data_type e) \<longrightarrow> 0 \<le> rc)"
proof -
  let ?v = "unat (d_data_len_value st)" and ?sz = "unat (elem_size e)"
  have mono: "?v * k \<le> unat (elem_len e) * k" for k using v by (rule mult_le_mono1)
  have fits: "entry_fits S e" using tab by simp
  consider (flag) "data_type e = QMI_OPT_FLAG \<or> data_type e = QMI_DATA_LEN"
    | (basic) "is_basic (data_type e)" | (struct) "data_type e = QMI_STRUCT"
    | (string) "data_type e = QMI_STRING"
    using tab(2) by (cases "data_type e") (auto simp: is_basic_def)
  then show ?thesis
  proof cases
    case flag
    then show ?thesis by (auto simp: dec_switch_def is_basic_def dec_fits_def)
  next
    case basic
    then have types: "data_type e \<notin> {QMI_EOTI, QMI_OPT_FLAG, QMI_DATA_LEN, QMI_STRING, QMI_STRUCT}"
      by (auto simp: is_basic_def)
    then have e: "offset e + unat (elem_len e) * ?sz \<le> S" "unat (elem_len e) * ?sz < 2 ^ 30"
        "tab_span [e] = unat (elem_len e) * ?sz"
      using fits by (auto simp: entry_fits_def)
    have small: "?v * ?sz < 2 ^ 31" by (rule le_less_trans [OF mono]) (use e(2) in simp)
    have room: "?v * ?sz \<le> S - offset e" by (rule order_trans [OF mono]) (use e(1) in linarith)
    define r where "r = basic_loop ?v (elem_size e) (d_dst st) (out + offset e) src (d_buf_src st) 0"
    have "dec_fits (?v * ?sz) (S - offset e) (out + offset e) (d_dst st) (fst r, snd r)"
      using copy_dec_fits [OF small room] by (simp add: r_def)
    then have "dec_fits (tab_span [e]) (S - offset e) (out + offset e) (d_dst st) (fst r, snd r)"
      using mono [of ?sz] e(3) unfolding dec_fits_def by (metis fst_conv of_nat_le_iff order_trans)
    moreover have "0 \<le> fst r" unfolding r_def copy_elems [OF small] by simp
    moreover have "dec_switch dec e level src out tlv_len st = Some (fst r, snd r)"
      using basic by (simp add: dec_switch_def r_def qmi_decode_basic_elem_def)
    ultimately show ?thesis by blast
  next
    case struct
    then obtain n where n: "ei_array e = Some n" "tab_fits ?sz n" "tab_span n < 2 ^ 30"
      using tab by (cases "ei_array e") auto
    have e: "offset e + unat (elem_len e) * ?sz \<le> S" using fits struct by (simp add: entry_fits_def)
    from struct_dec_loop_fits [OF dec [OF struct n], of "out + offset e" 0 "d_dst st" "d_dst st" 0 ?v
        tlv_len "level + 1" "d_buf_src st"]
    obtain rc dst where r: "dec_switch dec e level src out tlv_len st = Some (rc, dst)"
        "dec_fits (?v * tab_span n) (?v * ?sz) (out + offset e) (d_dst st) (rc, dst)"
      using struct n(1) by (auto simp: dec_switch_def is_basic_def qmi_decode_struct_elem_def)
    have "same_outside (out + offset e) (out + offset e + (S - offset e)) (d_dst st) dst"
    proof (rule same_outside_mono)
      show "same_outside (out + offset e) (out + offset e + ?v * ?sz) (d_dst st) dst"
        using r(2) by (simp add: dec_fits_def)
    qed (use mono [of ?sz] e in linarith)+
    moreover have "rc \<le> int (tab_span [e])"
    proof -
      have "rc \<le> int (?v * tab_span n)" using r(2) by (simp add: dec_fits_def)
      also have "\<dots> \<le> int (unat (elem_len e) * tab_span n)" using mono by (simp only: of_nat_le_iff)
      also have "unat (elem_len e) * tab_span n = tab_span [e]" using struct n(1) by simp
      finally show ?thesis .
    qed
    ultimately show ?thesis
      using r(1) struct by (simp add: dec_fits_def is_basic_def)
  next
    case string
    then show ?thesis
      using string_dec_fits [OF fits string, of "out + offset e" "d_dst st" src "d_buf_src st" tlv_len level]
      by (simp add: dec_switch_def is_basic_def) (metis surj_pair)
  qed
qed

text \<open>The decoder of nested tables is fit for every table that the entries refer to.\<close>

definition sub_tables_ok :: "(qmi_elem_info list option \<Rightarrow> decoder) \<Rightarrow> qmi_elem_info list \<Rightarrow> bool" where
  "sub_tables_ok dec eis \<longleftrightarrow>
     (\<forall>e \<in> set eis. \<forall>n. ei_array e = Some n \<and> tab_fits (unat (elem_size e)) n \<and> tab_span n < 2 ^ 30 \<longrightarrow>
        nested_dec (tab_span n) (unat (elem_size e)) (dec (Some n)))"

lemma decode_elem_fits:
  assumes tab: "tab_fits S eis" and inv: "dec_inv out S m st" and small: "decoded st + tab_span eis < 2 ^ 32"
    and dec: "sub_tables_ok dec eis"
  shows "\<exists>r. decode_elem dec eis level src out tlv_len st = Some r \<and>
    (case r of Inl (rc, dst) \<Rightarrow> rc < 0 \<and> same_outside out (out + S) m dst
     | Inr (eis', st') \<Rightarrow> dec_next out S m eis st eis' st' \<and> tab_size eis' < tab_size eis)"
proof -
  obtain eis1 st1 where f: "dec_opt_flag eis out st = Some (eis1, st1)" "dec_next out S m eis st eis1 st1"
    using dec_opt_flag_fits [OF tab inv] by blast
  then have 1: "tab_fits S eis1" "dec_inv out S m st1" "decoded st1 + tab_span eis1 < 2 ^ 32"
    using small by (auto simp: dec_next_def)
  obtain eis2 tl st2 where l: "dec_len_field eis1 src out tlv_len st1 = Some (eis2, tl, st2)"
      "dec_next out S m eis1 st1 eis2 st2"
    using dec_len_field_fits [OF 1] by blast
  note nx = dec_next_trans [OF f(2) l(2)]
  then have 2: "tab_fits S eis2" "dec_inv out S m st2" "decoded st2 + tab_span eis2 < 2 ^ 32" "set eis2 \<subseteq> set eis"
    using small by (auto simp: dec_next_def)
  obtain e es where eis2: "eis2 = e # es" using 2(1) by (cases eis2) auto
  consider (bad) "dec_data_len e (d_data_len_value st2) = None"
    | (eoti) v where "dec_data_len e (d_data_len_value st2) = Some v" "data_type e = QMI_EOTI"
    | (elem) v where "dec_data_len e (d_data_len_value st2) = Some v" "data_type e \<noteq> QMI_EOTI"
    by blast
  then show ?thesis
  proof cases
    case bad
    then show ?thesis using f(1) l(1) 2(2) by (simp add: decode_elem_def eis2 dec_inv_def)
  next
    case eoti
    then show ?thesis
      using f(1) l(1) 2(2) by (simp add: decode_elem_def eis2 dec_switch_def is_basic_def dec_inv_def)
  next
    case elem
    define st3 where "st3 = st2\<lparr>d_data_len_value := v\<rparr>"
    have e: "entry_fits S e" "tab_fits S es" using 2(1) elem(2) by (auto simp: eis2)
    have off: "offset e \<le> S" using e(1) by (auto simp: entry_fits_def split: if_splits)
    have "unat (d_data_len_value st3) \<le> unat (elem_len e)"
      using dec_data_len_le [OF elem(1)] e(1) by (simp add: entry_fits_def st3_def)
    then obtain rc dst where sw: "dec_switch dec e level src out tl st3 = Some (rc, dst)"
        "dec_fits (tab_span [e]) (S - offset e) (out + offset e) (d_dst st3) (rc, dst)"
        "is_basic (data_type e) \<longrightarrow> 0 \<le> rc"
      using dec_switch_fits [OF 2(1) [unfolded eis2] elem(2), of st3 dec level src out tl]
        dec 2(4) eis2 unfolding sub_tables_ok_def by auto
    have "same_outside out (out + S) (d_dst st2) dst"
    proof (rule same_outside_mono)
      show "same_outside (out + offset e) (out + offset e + (S - offset e)) (d_dst st2) dst"
        using sw(2) by (simp add: dec_fits_def st3_def)
    qed (use off in auto)
    with 2(2) have frame: "same_outside out (out + S) m dst"
      unfolding dec_inv_def by (blast intro: same_outside_trans)
    have step: "decode_elem dec eis level src out tlv_len st =
        (if \<not> is_basic (data_type e) \<and> rc < 0 then Some (Inl (rc, dst))
         else Some (Inr (es, update_decode_variables (st3\<lparr>d_dst := dst\<rparr>) rc)))"
      using f(1) l(1) elem(1) sw(1) by (simp add: decode_elem_def eis2 st3_def Let_def)
    show ?thesis
    proof (cases "rc < 0")
      case True
      then show ?thesis using step sw(3) frame by auto
    next
      case False
      then obtain j where j: "rc = int j" by (metis nonneg_int_cases not_less)
      have le: "j \<le> tab_span [e]" using sw(2) unfolding dec_fits_def j by simp
      note sp = tab_span_Cons [OF elem(2), of es, folded eis2]
      have "unat (d_decoded_bytes st2 + word_of_int (int j)) = decoded st2 + j"
        using 2(3) le sp by (intro unat_add_int) linarith
      then have "dec_next out S m eis2 st2 es (update_decode_variables (st3\<lparr>d_dst := dst\<rparr>) rc)"
        using e(2) frame le sp
        by (simp add: dec_next_def dec_inv_def update_decode_variables_def st3_def j eis2 subset_insertI
            del: tab_span.simps)
      moreover have "tab_size es < tab_size eis" using nx by (simp add: dec_next_def eis2)
      ultimately show ?thesis using step False dec_next_trans [OF nx] by auto
    qed
  qed
qed

section \<open>The loops\<close>

text \<open>The decoder of nested tables that a round with remaining fuel \<open>k\<close> uses, and what follows an element.\<close>

definition sub_decoder :: "nat \<Rightarrow> int \<Rightarrow> mem \<Rightarrow> qmi_elem_info list option \<Rightarrow> decoder" where
  "sub_decoder k level src = (\<lambda>tab dst d s len.
     case tab of
       None \<Rightarrow> if len = 0 then Some (0, dst) else None
     | Some es \<Rightarrow> qmi_decode_loop k es es (level + 1) src d len (dec_init dst s))"

definition after_elem ::
    "nat \<Rightarrow> qmi_elem_info list \<Rightarrow> int \<Rightarrow> mem \<Rightarrow> nat \<Rightarrow> u32 \<Rightarrow>
     ((int \<times> mem) + (qmi_elem_info list \<times> dec_state)) option \<Rightarrow> (int \<times> mem) option" where
  "after_elem k eis level src out L r =
     (case r of
        None \<Rightarrow> None
      | Some (Inl r) \<Rightarrow> Some r
      | Some (Inr (temp_ei, st)) \<Rightarrow> qmi_decode_loop k eis temp_ei level src out L st)"

lemma decode_round_nested:
  assumes "2 \<le> level"
  shows "qmi_decode_loop (Suc k) eis (e # es) level src out L st =
    (if d_decoded_bytes st < L \<and> data_type e \<noteq> QMI_EOTI then
       after_elem k eis level src out L
         (decode_elem (sub_decoder k level src) (e # es) level src out (L - d_decoded_bytes st) st)
     else Some (sint (d_decoded_bytes st), d_dst st))"
  using assms by (auto simp: sub_decoder_def after_elem_def Let_def)

definition tlv_length :: "mem \<Rightarrow> nat \<Rightarrow> u32" where
  "tlv_length src p = ucast (src (p + 1)) OR push_bit 8 (ucast (src (p + 2)))"

lemma decode_round_top:
  "qmi_decode_loop (Suc k) eis temp_ei 1 src out L st =
    (if d_decoded_bytes st < L then
       let p = d_buf_src st; st' = update_decode_variables st 3 in
       (case find_ei eis (ucast (src p)) of
          None \<Rightarrow> None
        | Some None \<Rightarrow>
            if (ucast (src p) :: u32) < 0x10 then Some (- EINVAL, d_dst st)
            else qmi_decode_loop k eis [] 1 src out L (update_decode_variables st' (sint (tlv_length src p)))
        | Some (Some temp_ei) \<Rightarrow>
            after_elem k eis 1 src out L
              (decode_elem (sub_decoder k 1 src) temp_ei 1 src out (tlv_length src p) st'))
     else Some (sint (d_decoded_bytes st), d_dst st))"
  by (simp add: sub_decoder_def after_elem_def Let_def tlv_length_def update_decode_variables_def
      cong: option.case_cong)

lemma nested_in_table: "e \<in> set eis \<Longrightarrow> ei_array e = Some n \<Longrightarrow> tab_size n < tab_size eis"
  by (rule size_list_estimation [of e]) (auto dest: nested_size')

lemma nested_loop_fits:
  assumes "2 \<le> level" "tab_fits S temp_ei" "dec_inv out S m st"
    and "decoded st + tab_span temp_ei \<le> B" "B < 2 ^ 30" "tab_size temp_ei < fuel"
  shows "\<exists>r. qmi_decode_loop fuel eis temp_ei level src out L st = Some r \<and> dec_fits B S out m r"
  using assms
proof (induction fuel arbitrary: eis temp_ei level out L st S m B)
  case (Suc k)
  obtain e es where ei: "temp_ei = e # es" using Suc.prems(2) by (cases temp_ei) auto
  show ?case
  proof (cases "d_decoded_bytes st < L \<and> data_type e \<noteq> QMI_EOTI")
    case False
    have "sint (d_decoded_bytes st) \<le> int B"
      using Suc.prems(4,5) sint_small [of "d_decoded_bytes st"] by (simp del: of_nat_unat)
    then show ?thesis
      using False Suc.prems(3) unfolding ei decode_round_nested [OF Suc.prems(1)]
      by (auto simp: dec_fits_def dec_inv_def)
  next
    case True
    have "nested_dec (tab_span n) (unat (elem_size f)) (sub_decoder k level src (Some n))"
      if "f \<in> set temp_ei" "ei_array f = Some n" "tab_fits (unat (elem_size f)) n" "tab_span n < 2 ^ 30" for f n
      unfolding nested_dec_def sub_decoder_def
      using Suc.IH [of "level + 1" "unat (elem_size f)" n] Suc.prems(1,6) nested_in_table [OF that(1,2)] that(3,4)
      by (simp add: dec_init_def dec_inv_def)
    then have dec: "sub_tables_ok (sub_decoder k level src) temp_ei" by (simp add: sub_tables_ok_def)
    have "decoded st + tab_span temp_ei < 2 ^ 32" using Suc.prems(4,5) by simp
    from decode_elem_fits [OF Suc.prems(2,3) this dec]
    obtain r where r: "decode_elem (sub_decoder k level src) temp_ei level src out
          (L - d_decoded_bytes st) st = Some r"
        "case r of Inl (rc, dst) \<Rightarrow> rc < 0 \<and> same_outside out (out + S) m dst
         | Inr (eis', st') \<Rightarrow> dec_next out S m temp_ei st eis' st' \<and> tab_size eis' < tab_size temp_ei"
      by meson
    have step: "qmi_decode_loop (Suc k) eis temp_ei level src out L st = after_elem k eis level src out L (Some r)"
      using True r(1) unfolding ei decode_round_nested [OF Suc.prems(1)] by simp
    show ?thesis
    proof (cases r)
      case (Inl a)
      then have "fst a < 0" "same_outside out (out + S) m (snd a)" using r(2) by (auto split: prod.splits)
      then show ?thesis unfolding step Inl by (simp add: after_elem_def dec_fits_def)
    next
      case (Inr a)
      obtain eis' st' where a: "a = (eis', st')" by (cases a)
      have nx: "dec_next out S m temp_ei st eis' st'" "tab_size eis' < tab_size temp_ei"
        using r(2) Inr a by auto
      have "\<exists>r. qmi_decode_loop k eis eis' level src out L st' = Some r \<and> dec_fits B S out m r"
        using nx Suc.prems(1,4,5,6) by (intro Suc.IH) (auto simp: dec_next_def)
      then show ?thesis unfolding step Inr a by (simp add: after_elem_def)
    qed
  qed
qed simp

lemma find_ei_fits:
  assumes "tab_fits S eis"
  shows "find_ei eis t = Some None \<or>
    (\<exists>suf. find_ei eis t = Some (Some suf) \<and> tab_fits S suf \<and> set suf \<subseteq> set eis \<and>
       tab_size suf \<le> tab_size eis \<and> tab_span suf \<le> tab_span eis)"
  using assms
proof (induction eis)
  case (Cons e es)
  consider "data_type e = QMI_EOTI" | "data_type e \<noteq> QMI_EOTI" "tlv_type e = ucast t"
    | "data_type e \<noteq> QMI_EOTI" "tlv_type e \<noteq> ucast t" by blast
  then show ?case
  proof cases
    case 3
    then show ?thesis
      using Cons tab_span_Cons [OF 3(1), of es] by (auto simp del: tab_span.simps)
  qed (use Cons.prems in auto)
qed simp

lemma tlv_length_small: "unat (tlv_length src p) < 2 ^ 16"
proof -
  have "tlv_length src p = ucast (get16 src (p + 1))"
    unfolding tlv_length_def get16_def by (rule bit_word_eqI) (auto simp: bit_simps dest: bit_imp_le_length)
  moreover have "unat (get16 src (p + 1)) < 2 ^ 16"
    using unsigned_less [of "get16 src (p + 1)", where ?'a = nat] by simp
  ultimately show ?thesis by (simp add: unsigned_ucast_eq take_bit_nat_eq_self)
qed

lemma skip_tlv:
  assumes "dec_inv out S m st" "decoded st < 2 ^ 31"
  shows "decoded (update_decode_variables st (sint (tlv_length src p))) = decoded st + unat (tlv_length src p)"
    and "dec_inv out S m (update_decode_variables st (sint (tlv_length src p)))"
proof -
  have "sint (tlv_length src p) = int (unat (tlv_length src p))"
    using tlv_length_small [of src p] by (intro sint_small) simp
  then show "decoded (update_decode_variables st (sint (tlv_length src p))) = decoded st + unat (tlv_length src p)"
    using unat_add_int [of "d_decoded_bytes st" "unat (tlv_length src p)"] assms(2) tlv_length_small [of src p]
    by (simp add: update_decode_variables_def del: of_nat_unat)
  show "dec_inv out S m (update_decode_variables st (sint (tlv_length src p)))"
    using assms(1) by (simp add: dec_inv_def update_decode_variables_def)
qed

lemma sub_decoder_ok:
  assumes "tab_size eis \<le> k" "set suf \<subseteq> set eis" "1 \<le> level"
  shows "sub_tables_ok (sub_decoder k level src) suf"
  unfolding sub_tables_ok_def
proof (intro ballI allI impI)
  fix f n assume f: "f \<in> set suf"
    and n: "ei_array f = Some n \<and> tab_fits (unat (elem_size f)) n \<and> tab_span n < 2 ^ 30"
  have "tab_size n < k" using nested_in_table [of f eis n] assms(1,2) f n by auto
  then show "nested_dec (tab_span n) (unat (elem_size f)) (sub_decoder k level src (Some n))"
    unfolding nested_dec_def sub_decoder_def
    using nested_loop_fits [of "level + 1" "unat (elem_size f)" n _ _ _ "tab_span n" k] n assms(3)
    by (simp add: dec_init_def dec_inv_def)
qed

definition top_done :: "nat \<Rightarrow> nat \<Rightarrow> mem \<Rightarrow> u32 \<Rightarrow> int \<times> mem \<Rightarrow> bool" where
  "top_done out S m L r \<longleftrightarrow> same_outside out (out + S) m (snd r) \<and>
     (0 \<le> fst r \<longrightarrow> int (unat L) \<le> fst r)"

lemma top_loop_fits:
  assumes "tab_fits S eis" "tab_span eis < 2 ^ 29" "unat L < 2 ^ 30" "dec_inv out S m st"
    and "decoded st < 2 ^ 31 - 3" "unat L - decoded st + tab_size eis < fuel"
  shows "\<exists>r. qmi_decode_loop fuel eis temp_ei 1 src out L st = Some r \<and> top_done out S m L r"
  using assms(4-6)
proof (induction fuel arbitrary: temp_ei st)
  case (Suc k)
  show ?case
  proof (cases "d_decoded_bytes st < L")
    case False
    have "int (unat L) \<le> sint (d_decoded_bytes st)"
      using False Suc.prems(2) sint_small [of "d_decoded_bytes st"]
      by (simp add: word_less_nat_alt del: of_nat_unat)
    then show ?thesis
      using False Suc.prems(1) unfolding decode_round_top by (auto simp: top_done_def dec_inv_def)
  next
    case True
    then have lt: "decoded st < unat L" by (simp add: word_less_nat_alt)
    define p where "p = d_buf_src st"
    define st1 where "st1 = update_decode_variables st 3"
    have dec1: "decoded st1 = decoded st + 3"
      using lt assms(3) unat_add_int [of "d_decoded_bytes st" 3]
      by (simp add: st1_def update_decode_variables_def)
    have inv1: "dec_inv out S m st1"
      using Suc.prems(1) by (simp add: dec_inv_def st1_def update_decode_variables_def)
    have step: "qmi_decode_loop (Suc k) eis temp_ei 1 src out L st =
        (case find_ei eis (ucast (src p)) of
          None \<Rightarrow> None
        | Some None \<Rightarrow>
            if (ucast (src p) :: u32) < 0x10 then Some (- EINVAL, d_dst st)
            else qmi_decode_loop k eis [] 1 src out L (update_decode_variables st1 (sint (tlv_length src p)))
        | Some (Some temp_ei) \<Rightarrow>
            after_elem k eis 1 src out L
              (decode_elem (sub_decoder k 1 src) temp_ei 1 src out (tlv_length src p) st1))"
      by (simp only: decode_round_top Let_def p_def st1_def True if_True)
    consider (unknown) "find_ei eis (ucast (src p)) = Some None"
      | (known) suf where "find_ei eis (ucast (src p)) = Some (Some suf)" "tab_fits S suf"
          "set suf \<subseteq> set eis" "tab_size suf \<le> tab_size eis" "tab_span suf \<le> tab_span eis"
      using find_ei_fits [OF assms(1)] by blast
    then show ?thesis
    proof cases
      case unknown
      define st2 where "st2 = update_decode_variables st1 (sint (tlv_length src p))"
      have "decoded st2 = decoded st1 + unat (tlv_length src p)" "dec_inv out S m st2"
        using skip_tlv [OF inv1, of src p] dec1 lt assms(3) by (simp_all add: st2_def)
      then have "\<exists>r. qmi_decode_loop k eis [] 1 src out L st2 = Some r \<and> top_done out S m L r"
        using tlv_length_small [of src p] dec1 lt assms(3) Suc.prems(3) by (intro Suc.IH) auto
      then show ?thesis
        using unknown Suc.prems(1) unfolding step by (auto simp: st2_def top_done_def dec_inv_def)
    next
      case known
      have dec: "sub_tables_ok (sub_decoder k 1 src) suf"
        using Suc.prems(3) known(3) by (intro sub_decoder_ok [of eis]) auto
      have "decoded st1 + tab_span suf < 2 ^ 32" using dec1 lt assms(2,3) known(5) by simp
      from decode_elem_fits [OF known(2) inv1 this dec]
      obtain r where r: "decode_elem (sub_decoder k 1 src) suf 1 src out (tlv_length src p) st1 = Some r"
          "case r of Inl (rc, dst) \<Rightarrow> rc < 0 \<and> same_outside out (out + S) m dst
           | Inr (eis', st') \<Rightarrow> dec_next out S m suf st1 eis' st' \<and> tab_size eis' < tab_size suf"
        by meson
      show ?thesis
      proof (cases r)
        case (Inl a)
        then have "fst a < 0" "same_outside out (out + S) m (snd a)" using r(2) by (auto split: prod.splits)
        then show ?thesis using step known(1) r(1) Inl by (simp add: after_elem_def top_done_def)
      next
        case (Inr a)
        obtain eis' st' where a: "a = (eis', st')" by (cases a)
        have nx: "dec_next out S m suf st1 eis' st'" using r(2) Inr a by auto
        have "\<exists>r. qmi_decode_loop k eis eis' 1 src out L st' = Some r \<and> top_done out S m L r"
          using nx dec1 lt assms(2,3) known(5) Suc.prems(3)
          by (intro Suc.IH) (auto simp: dec_next_def)
        then show ?thesis using step known(1) r(1) Inr a by (simp add: after_elem_def)
      qed
    qed
  qed
qed simp

section \<open>Properties\<close>

lemma header_ok_length:
  assumes "fst (qmi_decode_header pkt) = 0" "pkt_data_len pkt < 2 ^ 64"
  shows "qmi_header_size \<le> pkt_data_len pkt"
proof -
  define x where "x = unat (qh_msg_len (qmi_header_read (pkt_data pkt) 0))"
  have x: "x < 2 ^ 16"
    using unsigned_less [of "qh_msg_len (qmi_header_read (pkt_data pkt) 0)", where ?'a = nat]
    by (simp add: x_def)
  have "x = unat (of_nat (pkt_data_len pkt) - 7 :: u64)"
    using assms(1) by (simp add: qmi_decode_header_def Let_def x_def split: if_splits)
  then have "(of_nat x :: u64) = of_nat (pkt_data_len pkt) - 7" by simp
  then have "(of_nat (x + 7) :: u64) = of_nat (pkt_data_len pkt)" by simp
  then have "unat (of_nat (x + 7) :: u64) = unat (of_nat (pkt_data_len pkt) :: u64)" by simp
  moreover have "unat (of_nat k :: u64) = k" if "k < 2 ^ 64" for k
    using that by (simp add: unsigned_of_nat take_bit_nat_eq_self)
  ultimately have "x + 7 = pkt_data_len pkt" using x assms(2) by (simp del: of_nat_add)
  then show ?thesis by simp
qed

lemma decode_message_fits:
  assumes hdr: "fst (qmi_decode_header pkt) = 0" and len: "pkt_data_len pkt < 2 ^ 30"
    and tab: "tab_fits S eis" "tab_span eis < 2 ^ 29"
    and fuel: "pkt_data_len pkt + tab_size eis < fuel"
  shows "\<exists>rc txn m'. qmi_decode_message fuel (Some (m, out)) pkt ty mid (Some eis) = Some (rc, txn, Some m') \<and>
    (\<forall>a. a < out \<or> out + S \<le> a \<longrightarrow> m' a = m a) \<and>
    (0 \<le> rc \<longrightarrow> int (pkt_data_len pkt) \<le> rc + int qmi_header_size \<and>
       txn = Some (ucast (qh_txn_id (qmi_header_read (pkt_data pkt) 0))))"
proof -
  let ?L = "of_nat (pkt_data_len pkt) - 7 :: u32"
  have le: "qmi_header_size \<le> pkt_data_len pkt" using header_ok_length [OF hdr] len by simp
  then have L_eq: "?L = of_nat (pkt_data_len pkt - qmi_header_size)" by (simp add: of_nat_diff)
  have L: "unat ?L = pkt_data_len pkt - qmi_header_size"
    unfolding L_eq using len by (intro unat_of_nat_small) simp
  have "\<exists>r. qmi_decode_loop fuel eis eis 1 (pkt_data pkt) out ?L (dec_init m qmi_header_size) = Some r \<and>
      top_done out S m ?L r"
    using tab len fuel L by (intro top_loop_fits) (simp_all add: dec_init_def dec_inv_def)
  then obtain rc m' where "qmi_decode fuel eis m out (pkt_data pkt) qmi_header_size ?L 1 = Some (rc, m')"
      "same_outside out (out + S) m m'" "0 \<le> rc \<longrightarrow> int (pkt_data_len pkt - qmi_header_size) \<le> rc"
    unfolding qmi_decode_def top_done_def L by auto
  then show ?thesis
    using le by (auto simp: qmi_decode_message_def Let_def same_outside_def)
qed

text \<open>
  C24. Whatever a peer sends, decoding a packet whose header has been accepted returns,
  with the fuel of its length and the size of the table, and stores nothing outside the C
  structure of \<open>S\<close> bytes that the table fits. If it succeeds, the whole message has been consumed and
  the transaction id stored.
\<close>

theorem qmi_decode_safe:
  assumes hdr: "fst (qmi_decode_header pkt) = 0" and len: "pkt_data_len pkt < 2 ^ 30"
    and tab: "tab_fits S eis" "tab_span eis < 2 ^ 29"
    and fuel: "pkt_data_len pkt + tab_size eis < fuel"
  shows "\<exists>rc txn m'. qmi_decode_message fuel (Some (m, out)) pkt ty mid (Some eis) = Some (rc, txn, Some m') \<and>
    (\<forall>a. a < out \<or> out + S \<le> a \<longrightarrow> m' a = m a) \<and>
    (0 \<le> rc \<longrightarrow> int (pkt_data_len pkt) \<le> rc + int qmi_header_size \<and>
       txn = Some (ucast (qh_txn_id (qmi_header_read (pkt_data pkt) 0))))"
  using assms by (rule decode_message_fits)

text \<open>A request with the optional word of the sample table and a TLV the table does not know.\<close>

definition sample_request :: qrtr_packet where
  "sample_request = (sample_packet 16)\<lparr>pkt_data := wr (\<lambda>_. 0) 0
     (qmi_header_bytes \<lparr>qh_type = 0, qh_txn_id = 7, qh_msg_id = 33, qh_msg_len = 9\<rparr> @
      [16, 4, 0, 1, 2, 3, 4, 99, 0])\<rparr>"

theorem qmi_decode_safe_witness:
  "\<exists>rc txn m'. qmi_decode_message (17 + tab_size sample_tab) (Some (\<lambda>_. 0, 100)) sample_request 0 33
       (Some sample_tab) = Some (rc, txn, Some m') \<and> (\<forall>a. a < 100 \<or> 120 \<le> a \<longrightarrow> m' a = 0)"
proof -
  have "holds (pkt_data sample_request) 0
      (qmi_header_bytes \<lparr>qh_type = 0, qh_txn_id = 7, qh_msg_id = 33, qh_msg_len = 9\<rparr> @ [16, 4, 0, 1, 2, 3, 4, 99, 0])"
    by (simp add: sample_request_def del: holds_append)
  then have "qmi_header_read (pkt_data sample_request) 0 =
      \<lparr>qh_type = 0, qh_txn_id = 7, qh_msg_id = 33, qh_msg_len = 9\<rparr>"
    by (intro qmi_hdr.dec_enc) simp
  then have hdr: "fst (qmi_decode_header sample_request) = 0"
    by (simp add: qmi_decode_header_def Let_def sample_request_def sample_packet_def)
  have tab: "tab_fits 20 sample_tab" "tab_span sample_tab < 2 ^ 29"
    by (simp_all add: sample_tab_def entry_fits_def)
  show ?thesis
    using qmi_decode_safe [OF hdr _ tab, of "17 + tab_size sample_tab" "\<lambda>_. 0" 100 0 33]
    by (auto simp: sample_request_def sample_packet_def)
qed

end
