(* ===== verification/QmiRoundtrip.thy ===== *)
theory QmiRoundtrip
  imports QmiDecode
begin

text \<open>
  The encoder and the decoder fit together: for messages whose fields are plain values, fixed
  arrays, structures of these, or strings, each possibly optional, the decoder restores every field
  the encoder has written. The encoder is first shown to produce exactly the sequence of
  TLVs that the table describes.
\<close>

section \<open>Messages as lists of fields\<close>

datatype field = Field (flag: "nat option") (entry: qmi_elem_info)

definition flag_entry :: "u8 \<Rightarrow> nat \<Rightarrow> qmi_elem_info" where
  "flag_entry t off = Elem_info QMI_OPT_FLAG 1 1 NO_ARRAY t off None"

definition terminator :: qmi_elem_info where
  "terminator = Elem_info QMI_EOTI 0 0 NO_ARRAY 0 0 None"

definition group :: "field \<Rightarrow> qmi_elem_info list" where
  "group f = (case flag f of None \<Rightarrow> [] | Some off \<Rightarrow> [flag_entry (tlv_type (entry f)) off]) @ [entry f]"

definition message_tab :: "field list \<Rightarrow> qmi_elem_info list" where
  "message_tab fs = concat (map group fs) @ [terminator]"

definition present :: "mem \<Rightarrow> nat \<Rightarrow> field \<Rightarrow> bool" where
  "present src b f \<longleftrightarrow> (case flag f of None \<Rightarrow> True | Some off \<Rightarrow> src (b + off) \<noteq> 0)"

definition plain :: "qmi_elem_info \<Rightarrow> bool" where
  "plain e \<longleftrightarrow> is_basic (data_type e) \<and> array_type e \<noteq> VAR_LEN_ARRAY \<and> elem_ok e"

definition count :: "qmi_elem_info \<Rightarrow> u32" where
  "count e = (if array_type e = NO_ARRAY then 1 else elem_len e)"

definition width :: "qmi_elem_info \<Rightarrow> nat" where
  "width e = unat (count e) * unat (elem_size e)"

definition members :: "qmi_elem_info \<Rightarrow> qmi_elem_info list" where
  "members e = (case ei_array e of None \<Rightarrow> [] | Some n \<Rightarrow> takeWhile (\<lambda>x. data_type x \<noteq> QMI_EOTI) n)"

definition apart :: "nat \<times> nat \<Rightarrow> nat \<times> nat \<Rightarrow> bool" where
  "apart r q \<longleftrightarrow> fst r + snd r \<le> fst q \<or> fst q + snd q \<le> fst r"

definition simple_struct :: "qmi_elem_info \<Rightarrow> bool" where
  "simple_struct e \<longleftrightarrow> data_type e = QMI_STRUCT \<and> array_type e = NO_ARRAY \<and>
     ei_array e = Some (members e @ [terminator]) \<and> members e \<noteq> [] \<and> list_all plain (members e) \<and>
     list_all (\<lambda>n. offset n + width n \<le> unat (elem_size e)) (members e) \<and>
     sorted_wrt apart (map (\<lambda>n. (offset n, width n)) (members e))"

definition simple_string :: "qmi_elem_info \<Rightarrow> bool" where
  "simple_string e \<longleftrightarrow> data_type e = QMI_STRING \<and> array_type e = NO_ARRAY \<and> elem_ok e"

definition simple :: "qmi_elem_info \<Rightarrow> bool" where
  "simple e \<longleftrightarrow> plain e \<or> simple_struct e \<or> simple_string e"

text \<open>The bytes a field takes in the structure.\<close>

definition extent :: "qmi_elem_info \<Rightarrow> nat" where
  "extent e = (if data_type e = QMI_STRUCT then unat (elem_size e)
     else if data_type e = QMI_STRING then unat (elem_len e) + 1 else width e)"

definition regions :: "field \<Rightarrow> (nat \<times> nat) list" where
  "regions f = (case flag f of None \<Rightarrow> [] | Some off \<Rightarrow> [(off, 1)]) @ [(offset (entry f), extent (entry f))]"

text \<open>The value of the field's TLV, and that a structure holds the same field as another.\<close>

definition payload :: "mem \<Rightarrow> nat \<Rightarrow> qmi_elem_info \<Rightarrow> u8 list" where
  "payload src b e =
     (let a = b + offset e in
      if data_type e = QMI_STRUCT then concat (map (\<lambda>n. rd src (a + offset n) (width n)) (members e))
      else if data_type e = QMI_STRING then rd src a (the (strlen src a))
      else rd src a (width e))"

definition restored :: "mem \<Rightarrow> nat \<Rightarrow> mem \<Rightarrow> nat \<Rightarrow> qmi_elem_info \<Rightarrow> bool" where
  "restored src b m out e \<longleftrightarrow>
     (let a = b + offset e; d = out + offset e in
      if data_type e = QMI_STRUCT then
        (\<forall>n \<in> set (members e). rd m (d + offset n) (width n) = rd src (a + offset n) (width n))
      else if data_type e = QMI_STRING then
        strlen m d = strlen src a \<and> rd m d (the (strlen src a)) = rd src a (the (strlen src a))
      else rd m d (width e) = rd src a (width e))"

definition tlv :: "u8 \<Rightarrow> u8 list \<Rightarrow> u8 list" where
  "tlv t bs = [t, ucast (of_nat (length bs) AND 0xff :: u32),
     ucast (drop_bit 8 (of_nat (length bs)) AND 0xff :: u32)] @ bs"

definition stream :: "mem \<Rightarrow> nat \<Rightarrow> field list \<Rightarrow> u8 list" where
  "stream src b fs = concat (map (\<lambda>f. tlv (tlv_type (entry f)) (payload src b (entry f)))
     (filter (present src b) fs))"

section \<open>The encoder writes the stream\<close>

lemma plain_width: "plain e \<Longrightarrow> width e < 2 ^ 31 \<and> 0 < width e"
proof -
  assume p: "plain e"
  have "enc_data_len e 0 = Some (count e)"
    using p by (cases "array_type e") (auto simp: enc_data_len_def count_def plain_def)
  moreover have "elem_ok e" using p by (simp add: plain_def)
  ultimately show ?thesis
    using enc_data_len_ok [of e 0 "count e"]
    by (auto simp: width_def elem_ok_def word_less_nat_alt)
qed

lemma enc_data_len_simple: "simple e \<Longrightarrow> enc_data_len e v = Some (count e)"
  by (cases "array_type e")
    (auto simp: simple_def plain_def simple_struct_def simple_string_def enc_data_len_def count_def)

lemma plain_types:
  "plain e \<Longrightarrow> data_type e \<notin> {QMI_EOTI, QMI_OPT_FLAG, QMI_DATA_LEN, QMI_STRUCT, QMI_STRING}"
  by (auto simp: plain_def is_basic_def)

lemma plain_copy:
  "plain e \<Longrightarrow> basic_loop (unat (count e)) (elem_size e) m d src s 0 = (int (width e), wr m d (rd src s (width e)))"
  using copy_elems [of "count e" "elem_size e"] plain_width [of e] unfolding width_def by simp

text \<open>What encoding an element does when the value \<open>bs\<close> fits, with \<open>L\<close> bytes available.\<close>

definition stored ::
    "qmi_elem_info list \<Rightarrow> nat \<Rightarrow> u8 list \<Rightarrow> enc_state \<Rightarrow> (int \<times> mem) + (qmi_elem_info list \<times> enc_state) \<Rightarrow> bool" where
  "stored es L bs st r \<longleftrightarrow> (\<exists>rc m. rc < 0 \<and> r = Inl (rc, m)) \<or>
     (encoded st + length bs + 3 \<le> L \<and>
      r = Inr (es, update_encode_variables st (wr (e_dst st) (e_buf_dst st) bs) (int (length bs))))"

lemma encode_plain:
  assumes "plain e" "e_data_len_value st = count e" "encoded st \<le> unat L" "unat L < 2 ^ 31"
  shows "\<exists>r. encode_elem enc e es level L src b st = Some r \<and>
    stored es (unat L) (rd src (b + offset e) (width e)) st r"
proof -
  have w: "unat (count e * elem_size e) = width e"
    using plain_width [OF assms(1)] unat_mult_small [of "count e" "elem_size e"] by (simp add: width_def)
  have "unat (count e * elem_size e + e_encoded_bytes st) = width e + encoded st"
    using w plain_width [OF assms(1)] assms(3,4)
    by (subst unat_add_lem [THEN iffD1]) auto
  moreover have "is_basic (data_type e)" using assms(1) by (simp add: plain_def)
  ultimately show ?thesis
    using plain_types [OF assms(1)] assms(2) plain_copy [OF assms(1)]
    by (auto simp: encode_elem_def Let_def qmi_encode_basic_elem_def stored_def)
qed

lemma stored_encoded:
  assumes "encoded st + length bs + 3 \<le> L" "L < 2 ^ 31"
  shows "encoded (update_encode_variables st m (int (length bs))) = encoded st + length bs"
  using unat_add_int [of "e_encoded_bytes st" "length bs"] assms by (simp add: update_encode_variables_def)

lemma encode_members:
  assumes "list_all plain ns" "unat L < 2 ^ 31" "encoded st \<le> unat L"
  shows "\<exists>rc m. qmi_encode_loop (ns @ [terminator]) 2 L src a st = Some (rc, m) \<and>
    (rc < 0 \<or>
     rc = int (encoded st + length (concat (map (\<lambda>n. rd src (a + offset n) (width n)) ns))) \<and>
     (ns \<noteq> [] \<longrightarrow> rc + 3 \<le> int (unat L)) \<and>
     m = wr (e_dst st) (e_buf_dst st) (concat (map (\<lambda>n. rd src (a + offset n) (width n)) ns)))"
  using assms
proof (induction ns arbitrary: st)
  case Nil
  then have "sint (e_encoded_bytes st) = int (encoded st)" by (intro sint_small) simp
  then show ?case by (simp add: terminator_def del: of_nat_unat)
next
  case (Cons n ns)
  let ?bs = "rd src (a + offset n) (width n)"
  let ?v = "st\<lparr>e_data_len_value := count n\<rparr>"
  have n: "plain n" "data_type n \<noteq> QMI_EOTI" using Cons.prems(1) plain_types [of n] by auto
  obtain r where r: "encode_elem (sub_encoder n 2 src) n (ns @ [terminator]) 2 L src a ?v = Some r"
      "stored (ns @ [terminator]) (unat L) ?bs ?v r"
    using encode_plain [OF n(1), of ?v L "sub_encoder n 2 src" "ns @ [terminator]" 2 src a] Cons.prems(2,3)
    by auto
  have loop: "qmi_encode_loop ((n # ns) @ [terminator]) 2 L src a st =
      (case r of Inl q \<Rightarrow> Some q | Inr (es', st') \<Rightarrow> qmi_encode_loop es' 2 L src a st')"
    using n r(1) enc_data_len_simple [of n "e_data_len_value st"]
    by (auto simp: qmi_encode_loop_Cons simple_def encode_tlv_header_def simp del: qmi_encode_loop.simps
        split: sum.split)
  from r(2) consider (err) rc m where "rc < 0" "r = Inl (rc, m)"
    | (ok) "encoded st + width n + 3 \<le> unat L"
        "r = Inr (ns @ [terminator], update_encode_variables ?v (wr (e_dst st) (e_buf_dst st) ?bs) (int (width n)))"
    unfolding stored_def by auto
  then show ?case
  proof cases
    case err
    then show ?thesis unfolding loop by auto
  next
    case ok
    let ?st = "update_encode_variables ?v (wr (e_dst st) (e_buf_dst st) ?bs) (int (width n))"
    have enc: "encoded ?st = encoded st + width n"
      using stored_encoded [of ?v ?bs "unat L"] ok(1) Cons.prems(2) by simp
    have dst: "e_dst ?st = wr (e_dst st) (e_buf_dst st) ?bs" "e_buf_dst ?st = e_buf_dst st + width n"
      by (simp_all add: update_encode_variables_def)
    obtain rc m where q: "qmi_encode_loop (ns @ [terminator]) 2 L src a ?st = Some (rc, m)"
      "rc < 0 \<or> rc = int (encoded ?st + length (concat (map (\<lambda>n. rd src (a + offset n) (width n)) ns))) \<and>
         (ns \<noteq> [] \<longrightarrow> rc + 3 \<le> int (unat L)) \<and>
         m = wr (e_dst ?st) (e_buf_dst ?st) (concat (map (\<lambda>n. rd src (a + offset n) (width n)) ns))"
      using Cons.IH [of ?st] Cons.prems(1,2) ok(1) enc by auto
    have "ns = [] \<Longrightarrow> int (encoded st + width n) + 3 \<le> int (unat L)" using ok(1) by linarith
    then show ?thesis
      using q unfolding loop ok(2)
      by (auto simp: enc dst wr_append simp del: of_nat_unat)
  qed
qed

lemma encode_simple_struct:
  assumes e: "simple_struct e" and dl: "e_data_len_value st = count e"
    and L: "encoded st \<le> unat L" "unat L < 2 ^ 31"
  shows "\<exists>r. encode_elem (sub_encoder e 1 src) e es 1 L src b st = Some r \<and>
    stored es (unat L) (payload src b e) st r"
proof -
  let ?bs = "payload src b e" and ?a = "b + offset e" and ?L = "L - e_encoded_bytes st"
  have room: "unat ?L = unat L - encoded st"
    using L(1) by (intro unat_sub) (auto simp: word_le_nat_alt)
  have t: "data_type e = QMI_STRUCT" "ei_array e = Some (members e @ [terminator])" "members e \<noteq> []"
      "list_all plain (members e)" "count e = 1"
    using e by (auto simp: simple_struct_def count_def)
  have small: "unat ?L < 2 ^ 31" using room L(2) by linarith
  obtain rc m where q: "qmi_encode_loop (members e @ [terminator]) 2 ?L src ?a
        (enc_init 2 (e_dst st) (e_buf_dst st)) = Some (rc, m)"
      "rc < 0 \<or> rc = int (length ?bs) \<and> rc + 3 \<le> int (unat ?L) \<and> m = wr (e_dst st) (e_buf_dst st) ?bs"
    using encode_members [OF t(4) small, of "enc_init 2 (e_dst st) (e_buf_dst st)" src ?a] t(1,3)
    by (auto simp: enc_init_def payload_def Let_def simp del: of_nat_unat)
  have "encode_elem (sub_encoder e 1 src) e es 1 L src b st =
      (if rc < 0 then Some (Inl (rc, m)) else Some (Inr (es, update_encode_variables st m rc)))"
    using q(1) t dl
    by (simp add: encode_elem_def is_basic_def qmi_encode_struct_elem_def sub_encoder_def Let_def)
  then show ?thesis
    using q(2) room L(1) by (auto simp: stored_def simp del: of_nat_unat)
qed

lemma encode_simple_string:
  assumes e: "simple_string e" and str: "strlen src (b + offset e) = Some n" "n < 2 ^ 32"
    and L: "encoded st \<le> unat L" "unat L < 2 ^ 31"
  shows "\<exists>r. encode_elem enc e es 1 L src b st = Some r \<and> stored es (unat L) (payload src b e) st r \<and>
    (isl r \<or> n \<le> unat (elem_len e))"
proof -
  let ?L = "L - e_encoded_bytes st" and ?k = "of_nat n :: u32"
  have room: "unat ?L = unat L - encoded st"
    using L(1) by (intro unat_sub) (auto simp: word_le_nat_alt)
  have t: "data_type e = QMI_STRING" "elem_size e = 1" using e by (auto simp: simple_string_def elem_ok_def)
  have n: "unat ?k = n" using str(2) by (rule unat_of_nat_small)
  have pl: "payload src b e = rd src (b + offset e) n" using t(1) str(1) by (simp add: payload_def)
  show ?thesis
  proof (cases "?k > elem_len e \<or> n + 3 > unat ?L")
    case True
    then have "encode_elem enc e es 1 L src b st = Some (Inl (- EINVAL, e_dst st))"
      using t(1) str(1) n by (auto simp: encode_elem_def qmi_encode_string_elem_def Let_def is_basic_def)
    then show ?thesis by (auto simp: stored_def)
  next
    case False
    then have le: "n \<le> unat (elem_len e)" "encoded st + n + 3 \<le> unat L"
      using n room L(1) by (auto simp: word_less_nat_alt)
    have "basic_loop (unat ?k) 1 (e_dst st) (e_buf_dst st) src (b + offset e) 0 =
        (int n, wr (e_dst st) (e_buf_dst st) (rd src (b + offset e) n))"
      using copy_elems [of ?k 1 "e_dst st" "e_buf_dst st" src "b + offset e"] le(2) L(2) n
      by (simp del: of_nat_unat)
    then have "encode_elem enc e es 1 L src b st =
        Some (Inr (es, update_encode_variables st (wr (e_dst st) (e_buf_dst st) (payload src b e)) (int n)))"
      using False t str(1) n pl
      by (simp add: encode_elem_def qmi_encode_string_elem_def qmi_encode_basic_elem_def Let_def is_basic_def)
    then show ?thesis using le pl by (simp add: stored_def)
  qed
qed

text \<open>Every string of the structure is terminated.\<close>

definition string_here :: "mem \<Rightarrow> nat \<Rightarrow> qmi_elem_info \<Rightarrow> bool" where
  "string_here src b e \<longleftrightarrow>
     (data_type e = QMI_STRING \<longrightarrow> (\<exists>n < 2 ^ 32. strlen src (b + offset e) = Some n))"

text \<open>A string that is encoded is no longer than its entry allows.\<close>

definition string_fits :: "mem \<Rightarrow> nat \<Rightarrow> qmi_elem_info \<Rightarrow> bool" where
  "string_fits src b e \<longleftrightarrow> (data_type e = QMI_STRING \<longrightarrow> the (strlen src (b + offset e)) \<le> unat (elem_len e))"

lemma encode_simple:
  assumes "simple e" "e_data_len_value st = count e" "encoded st \<le> unat L" "unat L < 2 ^ 31"
    and "string_here src b e"
  shows "\<exists>r. encode_elem (sub_encoder e 1 src) e es 1 L src b st = Some r \<and>
    stored es (unat L) (payload src b e) st r \<and> (isl r \<or> string_fits src b e)"
proof -
  consider (plain) "plain e" | (struct) "simple_struct e" | (string) "simple_string e"
    using assms(1) by (auto simp: simple_def)
  then show ?thesis
  proof cases
    case plain
    moreover have "payload src b e = rd src (b + offset e) (width e)" "data_type e \<noteq> QMI_STRING"
      using plain_types [OF plain] by (auto simp: payload_def)
    ultimately show ?thesis
      using encode_plain [OF plain assms(2-4), of "sub_encoder e 1 src" es 1 src b]
      by (auto simp: string_fits_def)
  next
    case struct
    then show ?thesis
      using encode_simple_struct [OF struct assms(2-4), of src es b]
      by (auto simp: simple_struct_def string_fits_def)
  next
    case string
    then have "data_type e = QMI_STRING" by (simp add: simple_string_def)
    with assms(5) obtain n where n: "strlen src (b + offset e) = Some n" "n < 2 ^ 32"
      by (auto simp: string_here_def)
    with encode_simple_string [OF string n assms(3,4), of "sub_encoder e 1 src" es] show ?thesis
      by (auto simp: string_fits_def)
  qed
qed

text \<open>The state between two TLVs of the outermost level.\<close>

definition between :: "nat \<Rightarrow> nat \<Rightarrow> mem \<Rightarrow> enc_state \<Rightarrow> bool" where
  "between p n m st \<longleftrightarrow> e_dst st = m \<and> e_buf_dst st = p + n + 3 \<and> e_tlv_pointer st = p + n \<and>
     e_tlv_len st = 0 \<and> encoded st = n \<and> \<not> e_encode_tlv st"

lemma wr_header: "wr (wr m (a + 3) bs) a [x, y, z] = wr m a ([x, y, z] @ bs)"
  unfolding wr_append by (subst wr_commute) (simp_all add: eval_nat_numeral)

lemma tlv_between:
  assumes "between p n m st" "n + length bs + 3 \<le> L" "L < 2 ^ 31"
  shows "between p (n + length (tlv t bs)) (wr m (p + n) (tlv t bs))
    (encode_tlv_header 1 t (update_encode_variables st (wr (e_dst st) (e_buf_dst st) bs) (int (length bs))))"
proof -
  have n: "unat (e_encoded_bytes st + of_nat (length bs)) = n + length bs"
    using unat_add_int [of "e_encoded_bytes st" "length bs"] assms by (simp add: between_def)
  then have "unat (e_encoded_bytes st + of_nat (length bs) + 3) = n + length bs + 3"
    using unat_add_int [of "e_encoded_bytes st + of_nat (length bs)" 3] assms(2,3) by simp
  then show ?thesis
    using assms(1) wr_header [of m "p + n" bs]
    by (simp add: between_def encode_tlv_header_def update_encode_variables_def tlv_def add.assoc)
qed

abbreviation ftype :: "field \<Rightarrow> u8" where
  "ftype f \<equiv> tlv_type (entry f)"

definition message_ok :: "field list \<Rightarrow> bool" where
  "message_ok fs \<longleftrightarrow> list_all (\<lambda>f. simple (entry f)) fs \<and> distinct (map ftype fs) \<and> 0 \<notin> set (map ftype fs)"

lemma message_ok_Cons [simp]:
  "message_ok (f # fs) \<longleftrightarrow> simple (entry f) \<and> ftype f \<noteq> 0 \<and> ftype f \<notin> set (map ftype fs) \<and> message_ok fs"
  by (auto simp: message_ok_def)

lemma group_type: "e \<in> set (group f) \<Longrightarrow> tlv_type e = ftype f"
  by (auto simp: group_def flag_entry_def split: option.splits)

lemma group_not_Nil [simp]: "group f \<noteq> []"
  by (simp add: group_def)

lemma message_tab_Cons: "message_tab (f # fs) = group f @ message_tab fs"
  by (simp add: message_tab_def)

lemma message_tab_hd: "t \<noteq> 0 \<Longrightarrow> t \<notin> set (map ftype fs) \<Longrightarrow> skip_run t (message_tab fs) = Some (message_tab fs)"
proof (cases fs)
  case (Cons f gs)
  assume "t \<notin> set (map ftype fs)"
  moreover obtain e r where "group f = e # r" by (cases "group f") auto
  ultimately show ?thesis
    using group_type [of e f] Cons by (auto simp: message_tab_Cons)
qed (auto simp: message_tab_def terminator_def)

lemma skip_group:
  assumes "flag f = Some off" "ftype f \<noteq> 0" "ftype f \<notin> set (map ftype fs)"
  shows "skip_to_next_elem (group f @ message_tab fs) 1 = Some (message_tab fs)"
  using assms message_tab_hd [OF assms(2,3)]
  by (simp add: group_def skip_to_next_elem_def flag_entry_def)

lemma simple_not_EOTI: "simple e \<Longrightarrow> data_type e \<noteq> QMI_EOTI"
  using plain_types [of e] by (auto simp: simple_def simple_struct_def simple_string_def)

lemma encode_entry:
  assumes e: "simple e" "string_here src b e" and st: "between p n m st" "n \<le> unat L" "unat L < 2 ^ 31"
  shows "(\<exists>rc m'. rc < 0 \<and> qmi_encode_loop (e # es) 1 L src b st = Some (rc, m')) \<or>
    (\<exists>st'. qmi_encode_loop (e # es) 1 L src b st = qmi_encode_loop es 1 L src b st' \<and>
       n + length (tlv (tlv_type e) (payload src b e)) \<le> unat L \<and> string_fits src b e \<and>
       between p (n + length (tlv (tlv_type e) (payload src b e)))
         (wr m (p + n) (tlv (tlv_type e) (payload src b e))) st')"
proof -
  let ?v = "st\<lparr>e_data_len_value := count e\<rparr>" and ?bs = "payload src b e"
  have v: "between p n m ?v" using st(1) by (simp add: between_def)
  obtain r where r: "encode_elem (sub_encoder e 1 src) e es 1 L src b ?v = Some r"
      "stored es (unat L) ?bs ?v r" "isl r \<or> string_fits src b e"
    using encode_simple [OF e(1) _ _ st(3) e(2), of ?v es] v st(2) by (auto simp: between_def)
  have loop: "qmi_encode_loop (e # es) 1 L src b st =
      (case r of Inl q \<Rightarrow> Some q
       | Inr (es', st') \<Rightarrow> qmi_encode_loop es' 1 L src b (encode_tlv_header 1 (tlv_type e) st'))"
    using r(1) enc_data_len_simple [OF e(1)] simple_not_EOTI [OF e(1)]
    by (auto simp: qmi_encode_loop_Cons simp del: qmi_encode_loop.simps split: sum.split)
  from r(2) show ?thesis
    unfolding stored_def
  proof (elim disjE conjE exE)
    fix rc m' assume "rc < 0" "r = Inl (rc, m')"
    then show ?thesis unfolding loop by auto
  next
    assume fit: "encoded ?v + length ?bs + 3 \<le> unat L"
      and r': "r = Inr (es, update_encode_variables ?v (wr (e_dst ?v) (e_buf_dst ?v) ?bs) (int (length ?bs)))"
    have n: "n + length ?bs + 3 \<le> unat L" using fit v by (simp add: between_def)
    show ?thesis
      using tlv_between [OF v n st(3), of "tlv_type e"] n r(3) unfolding loop r'
      by (auto simp: tlv_def)
  qed
qed

lemma encode_flag:
  "qmi_encode_loop (flag_entry t off # es) 1 L src b st =
     (if src (b + off) \<noteq> 0 then qmi_encode_loop es 1 L src b (encode_tlv_header 1 t (st\<lparr>e_data_len_value := 1\<rparr>))
      else case skip_to_next_elem (flag_entry t off # es) 1 of
        None \<Rightarrow> None
      | Some es' \<Rightarrow> qmi_encode_loop es' 1 L src b (encode_tlv_header 1 t (st\<lparr>e_data_len_value := 1\<rparr>)))"
  by (simp add: flag_entry_def enc_data_len_def encode_elem_def split: option.split)

lemma between_flag:
  "between p n m st \<Longrightarrow> between p n m (encode_tlv_header 1 t (st\<lparr>e_data_len_value := 1\<rparr>))"
  by (simp add: between_def encode_tlv_header_def)

lemma encode_stream:
  assumes "message_ok fs" "\<forall>f \<in> set fs. string_here src b (entry f)"
    and "between p n m st" "n \<le> unat L" "unat L < 2 ^ 31"
  shows "\<exists>rc m'. qmi_encode_loop (message_tab fs) 1 L src b st = Some (rc, m') \<and>
    (rc < 0 \<or> rc = int (n + length (stream src b fs)) \<and> m' = wr m (p + n) (stream src b fs) \<and>
       n + length (stream src b fs) \<le> unat L \<and>
       (\<forall>f \<in> set fs. present src b f \<longrightarrow> string_fits src b (entry f)))"
  using assms(1-4)
proof (induction fs arbitrary: n m st)
  case Nil
  then have "sint (e_encoded_bytes st) = int n" using assms(5) sint_small [of "e_encoded_bytes st"]
    by (simp add: between_def)
  then show ?case using Nil by (simp add: message_tab_def terminator_def stream_def between_def)
next
  case (Cons f fs)
  define st1 where "st1 = (case flag f of None \<Rightarrow> st
    | Some off \<Rightarrow> encode_tlv_header 1 (ftype f) (st\<lparr>e_data_len_value := 1\<rparr>))"
  have st1: "between p n m st1" using Cons.prems(3) between_flag by (simp add: st1_def split: option.split)
  have ok: "simple (entry f)" "ftype f \<noteq> 0" "ftype f \<notin> set (map ftype fs)" "message_ok fs"
      "string_here src b (entry f)" using Cons.prems(1,2) by auto
  show ?case
  proof (cases "present src b f")
    case False
    then obtain off where off: "flag f = Some off" "src (b + off) = 0"
      by (auto simp: present_def split: option.splits)
    then have "qmi_encode_loop (message_tab (f # fs)) 1 L src b st = qmi_encode_loop (message_tab fs) 1 L src b st1"
      using skip_group [OF off(1) ok(2,3)]
      by (simp add: message_tab_Cons group_def encode_flag st1_def del: qmi_encode_loop.simps)
    with Cons.IH [OF ok(4) _ st1 Cons.prems(4)] Cons.prems(2) False show ?thesis
      by (auto simp: stream_def)
  next
    case True
    then have step: "qmi_encode_loop (message_tab (f # fs)) 1 L src b st =
        qmi_encode_loop (entry f # message_tab fs) 1 L src b st1"
      by (auto simp: message_tab_Cons group_def encode_flag st1_def present_def
          simp del: qmi_encode_loop.simps split: option.splits)
    let ?t = "tlv (ftype f) (payload src b (entry f))"
    have st: "stream src b (f # fs) = ?t @ stream src b fs" using True by (simp add: stream_def)
    from encode_entry [OF ok(1,5) st1 Cons.prems(4) assms(5), of "message_tab fs"] show ?thesis
    proof (elim disjE exE conjE)
      fix rc m' assume "rc < 0" "qmi_encode_loop (entry f # message_tab fs) 1 L src b st1 = Some (rc, m')"
      then show ?thesis unfolding step by blast
    next
      fix st' assume nx: "qmi_encode_loop (entry f # message_tab fs) 1 L src b st1 =
            qmi_encode_loop (message_tab fs) 1 L src b st'"
          "n + length ?t \<le> unat L" "string_fits src b (entry f)" "between p (n + length ?t) (wr m (p + n) ?t) st'"
      from Cons.IH [OF ok(4) _ nx(4,2)] Cons.prems(2) nx(3) show ?thesis
        unfolding step nx(1) st by (auto simp: wr_append add.assoc)
    qed
  qed
qed

section \<open>The decoder restores the fields\<close>

lemma dec_data_len_simple: "simple e \<Longrightarrow> dec_data_len e v = Some (count e)"
  by (cases "array_type e")
    (auto simp: simple_def plain_def simple_struct_def simple_string_def dec_data_len_def count_def)

lemma member_types: "plain n \<Longrightarrow> data_type n \<noteq> QMI_OPT_FLAG \<and> data_type n \<noteq> QMI_DATA_LEN \<and> data_type n \<noteq> QMI_EOTI"
  using plain_types by auto

lemma decode_plain:
  assumes "plain n"
  shows "decode_elem dec (n # es) level src out tlv_len st =
    Some (Inr (es, update_decode_variables
      (st\<lparr>d_data_len_value := count n,
          d_dst := wr (d_dst st) (out + offset n) (rd src (d_buf_src st) (width n))\<rparr>) (int (width n))))"
  using member_types [OF assms] dec_data_len_simple [of n] assms plain_copy [OF assms]
  by (simp add: decode_elem_def dec_opt_flag_def dec_len_field_def dec_switch_def simple_def
      qmi_decode_basic_elem_def plain_def)

text \<open>Decoding a list of members from the bytes \<open>bs\<close> of the message.\<close>

lemma decode_members:
  assumes "list_all plain ns" "sorted_wrt apart (map (\<lambda>n. (offset n, width n)) ns)"
    and "holds src (d_buf_src st) (concat (map (\<lambda>n. rd s (a + offset n) (width n)) ns))"
    and "decoded st + length (concat (map (\<lambda>n. rd s (a + offset n) (width n)) ns)) = unat L"
    and "unat L < 2 ^ 31" "length ns < fuel"
    and "\<forall>n \<in> set ns. offset n + width n \<le> S"
  shows "\<exists>m. qmi_decode_loop fuel eis (ns @ [terminator]) 2 src out L st = Some (int (unat L), m) \<and>
    same_outside out (out + S) (d_dst st) m \<and>
    (\<forall>n \<in> set ns. rd m (out + offset n) (width n) = rd s (a + offset n) (width n)) \<and>
    (\<forall>p w. (\<forall>n \<in> set ns. apart (offset n, width n) (p, w)) \<longrightarrow> rd m (out + p) w = rd (d_dst st) (out + p) w)"
  using assms
proof (induction ns arbitrary: st fuel)
  case Nil
  then obtain k where "fuel = Suc k" by (cases fuel) auto
  moreover have "sint (d_decoded_bytes st) = int (unat L)"
    using Nil.prems(4,5) sint_small [of "d_decoded_bytes st"] by simp
  ultimately show ?case
    using decode_round_nested [of 2 k eis terminator "[]" src out L st]
    by (simp add: terminator_def del: qmi_decode_loop.simps)
next
  case (Cons n ns)
  obtain k where k: "fuel = Suc k" "length ns < k" using Cons.prems(6) by (cases fuel) auto
  have n: "plain n" "list_all plain ns" "data_type n \<noteq> QMI_EOTI" "0 < width n"
    using Cons.prems(1) member_types [of n] plain_width [of n] by auto
  let ?bs = "rd s (a + offset n) (width n)"
  let ?rest = "concat (map (\<lambda>n. rd s (a + offset n) (width n)) ns)"
  define st' where "st' = update_decode_variables
      (st\<lparr>d_data_len_value := count n,
          d_dst := wr (d_dst st) (out + offset n) ?bs\<rparr>) (int (width n))"
  have "holds src (d_buf_src st) ?bs" and rest: "holds src (d_buf_src st + width n) ?rest"
    using Cons.prems(3) by simp_all
  then have here: "rd src (d_buf_src st) (width n) = ?bs"
    using holds_iff_rd [of src "d_buf_src st" ?bs] by simp
  have "d_buf_src st' = d_buf_src st + width n" by (simp add: st'_def update_decode_variables_def)
  with rest have there: "holds src (d_buf_src st') ?rest" by simp
  have dec: "decoded st' = decoded st + width n"
    using Cons.prems(4,5) unat_add_int [of "d_decoded_bytes st" "width n"]
    by (simp add: st'_def update_decode_variables_def)
  have lt: "d_decoded_bytes st < L" using Cons.prems(4) n(4) by (simp add: word_less_nat_alt)
  have step: "qmi_decode_loop fuel eis ((n # ns) @ [terminator]) 2 src out L st =
      qmi_decode_loop k eis (ns @ [terminator]) 2 src out L st'"
    using decode_round_nested [of 2 k eis n "ns @ [terminator]" src out L st] lt n(3)
      decode_plain [OF n(1)] here
    by (simp add: k(1) after_elem_def st'_def del: qmi_decode_loop.simps)
  obtain m where m: "qmi_decode_loop k eis (ns @ [terminator]) 2 src out L st' = Some (int (unat L), m)"
      "same_outside out (out + S) (d_dst st') m"
      "\<forall>n \<in> set ns. rd m (out + offset n) (width n) = rd s (a + offset n) (width n)"
      "\<forall>p w. (\<forall>n \<in> set ns. apart (offset n, width n) (p, w)) \<longrightarrow> rd m (out + p) w = rd (d_dst st') (out + p) w"
    using Cons.IH [OF n(2) _ there _ Cons.prems(5) k(2)] Cons.prems(2,4,7) dec by auto
  have d: "d_dst st' = wr (d_dst st) (out + offset n) ?bs" by (simp add: st'_def update_decode_variables_def)
  have "rd m (out + offset n) (width n) = rd (d_dst st') (out + offset n) (width n)"
    using m(4) Cons.prems(2) by (auto simp: apart_def)
  then have own: "rd m (out + offset n) (width n) = ?bs" by (simp add: d)
  have frame: "same_outside out (out + S) (d_dst st) m"
  proof (rule same_outside_trans)
    show "same_outside out (out + S) (d_dst st) (d_dst st')"
      unfolding d using Cons.prems(7) by (intro same_outside_wr) auto
  qed (rule m(2))
  have other: "rd (d_dst st') (out + p) w = rd (d_dst st) (out + p) w" if "apart (offset n, width n) (p, w)" for p w
    unfolding d using that by (intro rd_wr_other) (auto simp: apart_def)
  show ?case
    unfolding step using m own frame other by auto
qed

text \<open>One field, from a TLV whose value is the payload that was encoded from the structure at \<open>b\<close>.\<close>

definition field_decoded :: "mem \<Rightarrow> nat \<Rightarrow> nat \<Rightarrow> qmi_elem_info \<Rightarrow> mem \<Rightarrow> int \<times> mem \<Rightarrow> bool" where
  "field_decoded s b out e m r \<longleftrightarrow> fst r = int (length (payload s b e)) \<and>
     same_outside (out + offset e) (out + offset e + extent e) m (snd r) \<and> restored s b (snd r) out e"

lemma switch_struct:
  assumes e: "simple_struct e" and src: "holds src (d_buf_src st) (payload s b e)"
    and len: "unat tlv_len = length (payload s b e)" "length (payload s b e) < 2 ^ 16"
    and v: "d_data_len_value st = count e" and fuel: "length (members e) < k"
  shows "\<exists>r. dec_switch (sub_decoder k 1 src) e 1 src out tlv_len st = Some r \<and>
    field_decoded s b out e (d_dst st) r"
proof -
  let ?ns = "members e" and ?a = "b + offset e" and ?d = "out + offset e"
  have t: "data_type e = QMI_STRUCT" "ei_array e = Some (?ns @ [terminator])" "list_all plain ?ns" "?ns \<noteq> []"
      "sorted_wrt apart (map (\<lambda>n. (offset n, width n)) ?ns)" "count e = 1"
      "\<forall>n \<in> set ?ns. offset n + width n \<le> unat (elem_size e)"
    using e by (auto simp: simple_struct_def count_def list_all_iff)
  have pl: "payload s b e = concat (map (\<lambda>n. rd s (?a + offset n) (width n)) ?ns)"
    using t(1) by (simp add: payload_def)
  have pos: "0 < length (payload s b e)"
    using t(3,4) plain_width unfolding pl by (cases ?ns) auto
  have "\<exists>m. qmi_decode_loop k (?ns @ [terminator]) (?ns @ [terminator]) 2 src ?d tlv_len
        (dec_init (d_dst st) (d_buf_src st)) = Some (int (unat tlv_len), m) \<and>
      same_outside ?d (?d + unat (elem_size e)) (d_dst (dec_init (d_dst st) (d_buf_src st))) m \<and>
      (\<forall>n \<in> set ?ns. rd m (?d + offset n) (width n) = rd s (?a + offset n) (width n)) \<and>
      (\<forall>p w. (\<forall>n \<in> set ?ns. apart (offset n, width n) (p, w)) \<longrightarrow>
         rd m (?d + p) w = rd (d_dst (dec_init (d_dst st) (d_buf_src st))) (?d + p) w)"
    using len src fuel t(7) by (intro decode_members t(3,5)) (simp_all add: dec_init_def pl)
  then obtain m where m: "qmi_decode_loop k (?ns @ [terminator]) (?ns @ [terminator]) 2 src ?d tlv_len
        (dec_init (d_dst st) (d_buf_src st)) = Some (int (unat tlv_len), m)"
      "same_outside ?d (?d + unat (elem_size e)) (d_dst st) m"
      "\<forall>n \<in> set ?ns. rd m (?d + offset n) (width n) = rd s (?a + offset n) (width n)"
    by (auto simp: dec_init_def)
  have "0 < tlv_len" using pos len(1) by (simp add: word_less_nat_alt)
  then have "dec_switch (sub_decoder k 1 src) e 1 src out tlv_len st = Some (int (unat tlv_len), m)"
    using m(1) t(1,2,6) v
    by (simp add: dec_switch_def is_basic_def qmi_decode_struct_elem_def sub_decoder_def struct_dec_end_def
        del: qmi_decode_loop.simps)
  then show ?thesis
    using m(2,3) len(1) t(1) by (auto simp: field_decoded_def restored_def extent_def Let_def)
qed

lemma switch_string:
  assumes e: "simple_string e" and src: "holds src (d_buf_src st) (payload s b e)"
    and len: "unat tlv_len = length (payload s b e)" "length (payload s b e) < 2 ^ 16"
    and str: "strlen s (b + offset e) = Some n" "n \<le> unat (elem_len e)"
  shows "\<exists>r. dec_switch dec e 1 src out tlv_len st = Some r \<and> field_decoded s b out e (d_dst st) r"
proof -
  let ?d = "out + offset e" and ?bs = "payload s b e"
  have t: "data_type e = QMI_STRING" "elem_size e = 1" using e by (auto simp: simple_string_def elem_ok_def)
  have pl: "?bs = rd s (b + offset e) n" using t(1) str(1) by (simp add: payload_def)
  then have n: "unat tlv_len = n" "n < 2 ^ 16" using len by simp_all
  have bs: "rd src (d_buf_src st) n = ?bs" using src by (simp add: holds_iff_rd pl)
  let ?m = "wr (wr (d_dst st) ?d ?bs) (?d + n) [0]"
  have "basic_loop (unat tlv_len) 1 (d_dst st) ?d src (d_buf_src st) 0 = (int n, wr (d_dst st) ?d ?bs)"
    using copy_elems [of tlv_len 1 "d_dst st" ?d src "d_buf_src st"] n bs by (simp del: of_nat_unat)
  moreover have "\<not> elem_len e < tlv_len" using str(2) n by (simp add: word_less_nat_alt)
  moreover have "ptr_add (d_buf_src st) 0 = d_buf_src st" by (simp add: ptr_add_def)
  ultimately have sw: "dec_switch dec e 1 src out tlv_len st = Some (int n, ?m)"
    using t n(1) by (simp add: dec_switch_def is_basic_def qmi_decode_string_elem_def
        qmi_decode_basic_elem_def Let_def)
  have out: "same_outside ?d (?d + extent e) (d_dst st) ?m"
    using str(2) t(1) pl
    by (intro same_outside_trans [OF same_outside_wr same_outside_wr]) (auto simp: extent_def)
  have rd_m: "rd ?m ?d n = ?bs" by (subst rd_wr_other) (auto simp: pl)
  have "strlen ?m ?d = Some n"
    unfolding strlen_iff
  proof (intro conjI allI impI)
    fix i assume "i < n"
    then have "?m (?d + i) = s (b + offset e + i)" using rd_m pl by (metis nth_rd)
    with \<open>i < n\<close> str(1) show "?m (?d + i) \<noteq> 0" by (simp add: strlen_iff)
  qed (simp add: wr_def)
  then show ?thesis
    using sw out rd_m str(1) t(1) pl by (auto simp: field_decoded_def restored_def Let_def)
qed

lemma switch_simple:
  assumes e: "simple e" and src: "holds src (d_buf_src st) (payload s b e)"
    and len: "unat tlv_len = length (payload s b e)" "length (payload s b e) < 2 ^ 16"
    and v: "d_data_len_value st = count e" and fuel: "length (members e) < k"
    and str: "string_here s b e" "string_fits s b e"
  shows "\<exists>r. dec_switch (sub_decoder k 1 src) e 1 src out tlv_len st = Some r \<and>
    field_decoded s b out e (d_dst st) r"
proof -
  consider (plain) "plain e" | (struct) "simple_struct e" | (string) "simple_string e"
    using e by (auto simp: simple_def)
  then show ?thesis
  proof cases
    case plain
    then have t: "payload s b e = rd s (b + offset e) (width e)" "extent e = width e" "is_basic (data_type e)"
        "data_type e \<noteq> QMI_STRUCT" "data_type e \<noteq> QMI_STRING"
      using plain_types [OF plain] by (auto simp: payload_def extent_def plain_def)
    have "rd src (d_buf_src st) (width e) = payload s b e" using src t(1) by (simp add: holds_iff_rd)
    then have "dec_switch (sub_decoder k 1 src) e 1 src out tlv_len st =
        Some (int (width e), wr (d_dst st) (out + offset e) (payload s b e))"
      using t(3) v plain_copy [OF plain] by (simp add: dec_switch_def qmi_decode_basic_elem_def)
    then show ?thesis
      using t by (auto simp: field_decoded_def restored_def Let_def intro: same_outside_wr)
  next
    case struct
    then show ?thesis using switch_struct assms by blast
  next
    case string
    then have "data_type e = QMI_STRING" by (simp add: simple_string_def)
    then obtain n where "strlen s (b + offset e) = Some n" "n \<le> unat (elem_len e)"
      using str by (auto simp: string_here_def string_fits_def)
    then show ?thesis using switch_string [OF string src len] by blast
  qed
qed

text \<open>A structure holds a field, and memory outside a list of regions is left alone.\<close>

definition field_here :: "mem \<Rightarrow> nat \<Rightarrow> mem \<Rightarrow> nat \<Rightarrow> field \<Rightarrow> bool" where
  "field_here s b m out f \<longleftrightarrow> restored s b m out (entry f) \<and>
     (case flag f of None \<Rightarrow> True | Some off \<Rightarrow> m (out + off) = 1)"

definition outside :: "nat \<Rightarrow> (nat \<times> nat) list \<Rightarrow> nat \<Rightarrow> bool" where
  "outside out rs a \<longleftrightarrow> (\<forall>r \<in> set rs. a < out + fst r \<or> out + fst r + snd r \<le> a)"

lemma rd_cong: "(\<And>i. i < n \<Longrightarrow> m' (p + i) = m (p + i)) \<Longrightarrow> rd m' p n = rd m p n"
  by (simp add: rd_def)

lemma restored_cong:
  assumes e: "simple e" "string_fits s b e" "string_here s b e"
    and same: "\<And>i. i < extent e \<Longrightarrow> m' (out + offset e + i) = m (out + offset e + i)"
    and "restored s b m out e"
  shows "restored s b m' out e"
proof -
  consider (plain) "plain e" | (struct) "simple_struct e" | (string) "simple_string e"
    using e(1) by (auto simp: simple_def)
  then show ?thesis
  proof cases
    case plain
    then have "extent e = width e" "data_type e \<noteq> QMI_STRUCT" "data_type e \<noteq> QMI_STRING"
      using plain_types [OF plain] by (auto simp: extent_def)
    then show ?thesis using assms(5) same rd_cong [of "width e" m' "out + offset e" m]
      by (simp add: restored_def Let_def)
  next
    case struct
    have "rd m' (out + offset e + offset n) (width n) = rd m (out + offset e + offset n) (width n)"
      if "n \<in> set (members e)" for n
    proof (rule rd_cong)
      fix i assume "i < width n"
      moreover have "offset n + width n \<le> extent e"
        using struct that by (auto simp: simple_struct_def extent_def list_all_iff)
      ultimately show "m' (out + offset e + offset n + i) = m (out + offset e + offset n + i)"
        using same [of "offset n + i"] by (simp add: add.assoc)
    qed
    then show ?thesis using assms(5) struct by (simp add: restored_def simple_struct_def Let_def)
  next
    case string
    then have t: "data_type e = QMI_STRING" by (simp add: simple_string_def)
    then obtain n where n: "strlen s (b + offset e) = Some n" "n \<le> unat (elem_len e)"
      using e(2,3) by (auto simp: string_here_def string_fits_def)
    then have "strlen m (out + offset e) = Some n" using assms(5) t by (simp add: restored_def Let_def)
    moreover have "m' (out + offset e + i) = m (out + offset e + i)" if "i \<le> n" for i
      using same [of i] that n(2) t by (simp add: extent_def)
    ultimately have "strlen m' (out + offset e) = Some n"
        "rd m' (out + offset e) n = rd m (out + offset e) n"
      by (auto simp: strlen_iff intro!: rd_cong)
    then show ?thesis using assms(5) t n(1) by (simp add: restored_def Let_def)
  qed
qed

lemma tlv_length_tlv:
  assumes "holds src p (tlv t bs)" "length bs < 2 ^ 16"
  shows "src p = t" "unat (tlv_length src p) = length bs" "holds src (p + 3) bs"
proof -
  let ?k = "of_nat (length bs) :: u32"
  have mask: "(0xff :: u32) = mask 8" by (simp add: mask_eq_exp_minus_1)
  have b: "src p = t" "src (p + 1) = ucast (?k AND 0xff)" "src (p + 2) = ucast (drop_bit 8 ?k AND 0xff)"
    "holds src (p + 3) bs"
    using assms(1) by (simp_all add: tlv_def eval_nat_numeral)
  have k: "unat ?k = length bs" using assms(2) by (intro unat_of_nat_small) simp
  then have above: "\<not> bit ?k i" if "16 \<le> i" for i
    using bit_above [of ?k 16 i] assms(2) that by simp
  have "tlv_length src p = ?k"
    unfolding tlv_length_def b mask
  proof (rule bit_word_eqI)
    fix i assume i: "i < LENGTH(32)"
    consider "i < 8" | "8 \<le> i" "i < 16" | "16 \<le> i" by linarith
    then show "bit (ucast (ucast (?k AND mask 8) :: u8) OR
        push_bit 8 (ucast (ucast (drop_bit 8 ?k AND mask 8) :: u8)) :: u32) i = bit ?k i"
      by cases (use i above in \<open>auto simp: bit_simps simp del: of_nat_unat\<close>)
  qed
  with k b show "src p = t" "unat (tlv_length src p) = length bs" "holds src (p + 3) bs" by simp_all
qed

lemma find_group:
  assumes "f \<in> set fs" "distinct (map ftype fs)" "list_all (\<lambda>f. simple (entry f)) fs"
  shows "\<exists>rest. find_ei (message_tab fs) (ucast (ftype f)) = Some (Some (group f @ rest))"
  using assms
proof (induction fs)
  case (Cons g fs)
  have u: "ucast (ucast (ftype f) :: u32) = ftype f" by (rule bit_word_eqI) (auto simp: bit_simps)
  have eoti: "data_type e \<noteq> QMI_EOTI" if "e \<in> set (group g)" for e
    using Cons.prems(3) that simple_not_EOTI by (auto simp: group_def flag_entry_def split: option.splits)
  show ?case
  proof (cases "g = f")
    case True
    obtain e r where "group f = e # r" by (cases "group f") auto
    then show ?thesis
      using eoti [of e] group_type [of e f] True u by (auto simp: message_tab_Cons)
  next
    case False
    then have "ftype g \<noteq> ftype f" "f \<in> set fs" using Cons.prems(1,2) by auto
    moreover have "find_ei (es @ xs) (ucast (ftype f)) = find_ei xs (ucast (ftype f))"
      if "\<forall>e \<in> set es. data_type e \<noteq> QMI_EOTI \<and> tlv_type e \<noteq> ftype f" for es xs
      using that u by (induction es) auto
    ultimately have "find_ei (message_tab (g # fs)) (ucast (ftype f)) = find_ei (message_tab fs) (ucast (ftype f))"
      using eoti group_type [of _ g] by (auto simp: message_tab_Cons)
    then show ?thesis using Cons.IH Cons.prems \<open>f \<in> set fs\<close> by simp
  qed
qed simp

definition with_flag :: "nat \<Rightarrow> field \<Rightarrow> mem \<Rightarrow> mem" where
  "with_flag out f m = (case flag f of None \<Rightarrow> m | Some off \<Rightarrow> wr m (out + off) [1])"

lemma decode_group:
  assumes f: "simple (entry f)"
    and sw: "dec_switch dec (entry f) 1 src out tlv_len
        (st\<lparr>d_dst := with_flag out f (d_dst st), d_data_len_value := count (entry f)\<rparr>) = Some (rc, m)" "0 \<le> rc"
  shows "decode_elem dec (group f @ rest) 1 src out tlv_len st =
    Some (Inr (rest, update_decode_variables
      (st\<lparr>d_data_len_value := count (entry f), d_dst := m\<rparr>) rc))"
proof -
  have t: "data_type (entry f) \<noteq> QMI_OPT_FLAG" "data_type (entry f) \<noteq> QMI_DATA_LEN"
    using f plain_types [of "entry f"] by (auto simp: simple_def simple_struct_def simple_string_def)
  have "dec_opt_flag (group f @ rest) out st = Some (entry f # rest, st\<lparr>d_dst := with_flag out f (d_dst st)\<rparr>)"
    using t by (auto simp: group_def dec_opt_flag_def flag_entry_def with_flag_def split: option.splits)
  then show ?thesis
    using t sw dec_data_len_simple [OF f]
    by (simp add: decode_elem_def dec_len_field_def Let_def)
qed

lemma field_after:
  assumes f: "simple (entry f)" "sorted_wrt apart (regions f)"
    and r: "field_decoded s b out (entry f) (with_flag out f m) (rc, m')"
  shows "field_here s b m' out f" and "outside out (regions f) a \<Longrightarrow> m' a = m a"
proof -
  let ?e = "entry f"
  have same: "m' a = with_flag out f m a" if "a < out + offset ?e \<or> out + offset ?e + extent ?e \<le> a" for a
    using r that by (auto simp: field_decoded_def same_outside_def)
  have "m' (out + off) = 1" if "flag f = Some off" for off
  proof -
    have "apart (off, 1) (offset ?e, extent ?e)" using f(2) that by (simp add: regions_def)
    then have "m' (out + off) = with_flag out f m (out + off)" by (intro same) (auto simp: apart_def)
    then show ?thesis using that by (simp add: with_flag_def wr_def)
  qed
  then show "field_here s b m' out f" using r by (auto simp: field_here_def field_decoded_def split: option.split)
  assume "outside out (regions f) a"
  then have "a < out + offset ?e \<or> out + offset ?e + extent ?e \<le> a"
    and "\<And>off. flag f = Some off \<Longrightarrow> a < out + off \<or> out + off + 1 \<le> a"
    by (auto simp: outside_def regions_def)
  then show "m' a = m a" using same by (auto simp: with_flag_def wr_def split: option.split)
qed

text \<open>What is known of a field before it is decoded.\<close>

definition field_ready :: "mem \<Rightarrow> nat \<Rightarrow> nat \<Rightarrow> field \<Rightarrow> bool" where
  "field_ready s b k f \<longleftrightarrow> string_here s b (entry f) \<and> string_fits s b (entry f) \<and>
     sorted_wrt apart (regions f) \<and> length (members (entry f)) < k \<and> length (payload s b (entry f)) < 2 ^ 16"

lemma decode_field:
  assumes fs: "message_ok fs" "f \<in> set fs" and ready: "field_ready s b k f"
    and src: "holds src (d_buf_src st) (tlv (ftype f) (payload s b (entry f)))"
    and L: "decoded st + length (tlv (ftype f) (payload s b (entry f))) \<le> unat L" "unat L < 2 ^ 31"
  shows "\<exists>temp' st'. qmi_decode_loop (Suc k) (message_tab fs) temp 1 src out L st =
      qmi_decode_loop k (message_tab fs) temp' 1 src out L st' \<and>
    d_buf_src st' = d_buf_src st + length (tlv (ftype f) (payload s b (entry f))) \<and>
    decoded st' = decoded st + length (tlv (ftype f) (payload s b (entry f))) \<and>
    field_here s b (d_dst st') out f \<and>
    (\<forall>a. outside out (regions f) a \<longrightarrow> d_dst st' a = d_dst st a)"
proof -
  let ?bs = "payload s b (entry f)" and ?p = "d_buf_src st"
  have simp_f: "simple (entry f)" using fs by (auto simp: message_ok_def list_all_iff)
  note hd = tlv_length_tlv [OF src] and rdy = ready [unfolded field_ready_def]
  have bs: "src ?p = ftype f" "unat (tlv_length src ?p) = length ?bs" "holds src (?p + 3) ?bs"
    using hd rdy by auto
  have tl: "length (tlv (ftype f) ?bs) = length ?bs + 3" by (simp add: tlv_def)
  have lt: "d_decoded_bytes st < L" using L(1) tl by (simp add: word_less_nat_alt)
  define st1 where "st1 = update_decode_variables st 3"
  have st1: "d_buf_src st1 = ?p + 3" "decoded st1 = decoded st + 3" "d_dst st1 = d_dst st"
    using L tl ptr_add_int [of ?p 3] unat_add_int [of "d_decoded_bytes st" 3]
    by (simp_all add: st1_def update_decode_variables_def)
  obtain rest where rest: "find_ei (message_tab fs) (ucast (src ?p)) = Some (Some (group f @ rest))"
    using find_group [OF fs(2)] fs(1) bs(1) by (auto simp: message_ok_def)
  have "\<exists>r. dec_switch (sub_decoder k 1 src) (entry f) 1 src out (tlv_length src ?p)
        (st1\<lparr>d_dst := with_flag out f (d_dst st1), d_data_len_value := count (entry f)\<rparr>) = Some r \<and>
      field_decoded s b out (entry f)
        (d_dst (st1\<lparr>d_dst := with_flag out f (d_dst st1), d_data_len_value := count (entry f)\<rparr>)) r"
    using rdy bs st1(1) by (intro switch_simple [OF simp_f]) simp_all
  then obtain rc m where r: "dec_switch (sub_decoder k 1 src) (entry f) 1 src out (tlv_length src ?p)
        (st1\<lparr>d_dst := with_flag out f (d_dst st1), d_data_len_value := count (entry f)\<rparr>) = Some (rc, m)"
      "field_decoded s b out (entry f) (with_flag out f (d_dst st)) (rc, m)"
    using st1(3) by auto
  have rc: "rc = int (length ?bs)" using r(2) by (simp add: field_decoded_def)
  define st' where "st' = update_decode_variables (st1\<lparr>d_data_len_value := count (entry f), d_dst := m\<rparr>) rc"
  have "qmi_decode_loop (Suc k) (message_tab fs) temp 1 src out L st =
      qmi_decode_loop k (message_tab fs) rest 1 src out L st'"
    using lt rest decode_group [OF simp_f r(1), of rest] rc
    unfolding decode_round_top by (simp add: after_elem_def st'_def st1_def)
  moreover have "d_dst st' = m" "d_buf_src st' = ?p + length (tlv (ftype f) ?bs)"
      "decoded st' = decoded st + length (tlv (ftype f) ?bs)"
    using st1 tl L rc unat_add_int [of "d_decoded_bytes st1" "length ?bs"]
    by (simp_all add: st'_def update_decode_variables_def)
  ultimately show ?thesis
    using field_after [OF simp_f _ r(2)] rdy by metis
qed

lemma decode_stream:
  assumes fs: "message_ok fs" "set gs \<subseteq> set fs" "sorted_wrt apart (concat (map regions gs))"
    and ready: "\<forall>f \<in> set gs. field_ready s b K f"
    and src: "holds src (d_buf_src st) (concat (map (\<lambda>f. tlv (ftype f) (payload s b (entry f))) gs))"
    and L: "decoded st + length (concat (map (\<lambda>f. tlv (ftype f) (payload s b (entry f))) gs)) = unat L"
      "unat L < 2 ^ 31" and fuel: "K + length gs < fuel"
  shows "\<exists>m. qmi_decode_loop fuel (message_tab fs) temp 1 src out L st = Some (int (unat L), m) \<and>
    (\<forall>f \<in> set gs. field_here s b m out f) \<and>
    (\<forall>a. outside out (concat (map regions gs)) a \<longrightarrow> m a = d_dst st a)"
  using fs(2,3) ready src L(1) fuel
proof (induction gs arbitrary: st temp fuel)
  case Nil
  then obtain k where "fuel = Suc k" by (cases fuel) auto
  moreover have "sint (d_decoded_bytes st) = int (unat L)"
    using Nil.prems(5) L(2) sint_small [of "d_decoded_bytes st"] by simp
  ultimately show ?case
    using Nil.prems(5) decode_round_top [of k "message_tab fs" temp src out L st]
    by (simp add: word_less_nat_alt del: qmi_decode_loop.simps)
next
  case (Cons f gs)
  let ?t = "tlv (ftype f) (payload s b (entry f))"
  let ?rs = "concat (map (\<lambda>f. tlv (ftype f) (payload s b (entry f))) gs)"
  obtain k where k: "fuel = Suc k" "K + length gs < k" using Cons.prems(6) by (cases fuel) auto
  have f: "f \<in> set fs" "field_ready s b K f" "holds src (d_buf_src st) ?t" "decoded st + length ?t \<le> unat L"
    using Cons.prems by auto
  then have "field_ready s b k f" using k(2) by (simp add: field_ready_def)
  from decode_field [OF fs(1) f(1) this f(3,4) L(2), of temp out] obtain temp' st' where
    st': "qmi_decode_loop fuel (message_tab fs) temp 1 src out L st =
        qmi_decode_loop k (message_tab fs) temp' 1 src out L st'"
      "d_buf_src st' = d_buf_src st + length ?t" "decoded st' = decoded st + length ?t"
      "field_here s b (d_dst st') out f" "\<forall>a. outside out (regions f) a \<longrightarrow> d_dst st' a = d_dst st a"
    unfolding k(1) by blast
  have gs: "sorted_wrt apart (concat (map regions gs))"
    and sep: "\<And>r q. r \<in> set (regions f) \<Longrightarrow> q \<in> set (concat (map regions gs)) \<Longrightarrow> apart r q"
    using Cons.prems(2) by (auto simp: sorted_wrt_append)
  have "holds src (d_buf_src st') ?rs" "decoded st' + length ?rs = unat L"
    using Cons.prems(4,5) st'(2,3) by simp_all
  then obtain m where m: "qmi_decode_loop k (message_tab fs) temp' 1 src out L st' = Some (int (unat L), m)"
      "\<forall>f \<in> set gs. field_here s b m out f"
      "\<forall>a. outside out (concat (map regions gs)) a \<longrightarrow> m a = d_dst st' a"
    using Cons.IH [OF _ gs _ _ _ k(2), of st' temp'] Cons.prems(1,3) by auto
  have kept: "m (out + off + i) = d_dst st' (out + off + i)" if "(off, w) \<in> set (regions f)" "i < w" for off w i
  proof -
    have "outside out (concat (map regions gs)) (out + off + i)"
      unfolding outside_def
    proof
      fix q assume "q \<in> set (concat (map regions gs))"
      with sep [OF that(1)] have "apart (off, w) q" by blast
      then show "out + off + i < out + fst q \<or> out + fst q + snd q \<le> out + off + i"
        using that(2) by (auto simp: apart_def)
    qed
    with m(3) show ?thesis by blast
  qed
  have "restored s b m out (entry f)"
  proof (rule restored_cong)
    show "simple (entry f)" using fs(1) f(1) by (simp add: message_ok_def list_all_iff)
    show "restored s b (d_dst st') out (entry f)" using st'(4) by (simp add: field_here_def)
    show "m (out + offset (entry f) + i) = d_dst st' (out + offset (entry f) + i)" if "i < extent (entry f)" for i
      using kept [of "offset (entry f)" "extent (entry f)" i] that by (simp add: regions_def)
  qed (use f(2) in \<open>simp_all add: field_ready_def\<close>)
  moreover have "m (out + off) = 1" if "flag f = Some off" for off
    using kept [of off 1 0] st'(4) that by (simp add: regions_def field_here_def)
  ultimately have "field_here s b m out f" by (auto simp: field_here_def split: option.split)
  moreover have "m a = d_dst st a" if "outside out (concat (map regions (f # gs))) a" for a
  proof -
    have "outside out (regions f) a" "outside out (concat (map regions gs)) a"
      using that by (auto simp: outside_def)
    then show ?thesis using m(3) st'(5) by simp
  qed
  ultimately show ?case using m(1,2) st'(1) by auto
qed

section \<open>The round trip\<close>

lemma apart_sym: "apart r q \<longleftrightarrow> apart q r"
  by (auto simp: apart_def)

lemma regions_apart:
  "sorted_wrt apart (concat (map regions fs)) \<Longrightarrow> f \<in> set fs \<Longrightarrow> g \<in> set fs \<Longrightarrow> f \<noteq> g \<Longrightarrow>
   r \<in> set (regions f) \<Longrightarrow> q \<in> set (regions g) \<Longrightarrow> apart r q"
  by (induction fs) (auto simp: sorted_wrt_append dest: apart_sym [THEN iffD1])

lemma regions_filter:
  "sorted_wrt apart (concat (map regions fs)) \<Longrightarrow> sorted_wrt apart (concat (map regions (filter P fs)))"
  by (induction fs) (auto simp: sorted_wrt_append)

lemma regions_own: "sorted_wrt apart (concat (map regions fs)) \<Longrightarrow> f \<in> set fs \<Longrightarrow> sorted_wrt apart (regions f)"
  by (induction fs) (auto simp: sorted_wrt_append)

lemma payload_length:
  assumes "f \<in> set fs" "present src b f"
  shows "length (payload src b (entry f)) + 3 \<le> length (stream src b fs)"
  using assms by (induction fs) (auto simp: stream_def tlv_def)

text \<open>What \<open>qmi_encode_message\<close> stores, when it succeeds.\<close>

lemma encode_message_bytes:
  assumes fs: "message_ok fs" "\<forall>f \<in> set fs. string_here src b (entry f)" and len: "pkt_data_len pkt < 2 ^ 16"
    and enc: "qmi_encode_message pkt ty mid txn (Some (src, b)) (Some (message_tab fs)) = Some (rc, pkt')" "0 \<le> rc"
  shows "pkt_data_len pkt' = qmi_header_size + length (stream src b fs)" "rc = int (pkt_data_len pkt')"
    and "holds (pkt_data pkt') 0 (qmi_header_bytes \<lparr>qh_type = word_of_int ty, qh_txn_id = word_of_int txn,
      qh_msg_id = word_of_int mid, qh_msg_len = of_nat (length (stream src b fs))\<rparr>)"
    and "holds (pkt_data pkt') qmi_header_size (stream src b fs)"
    and "\<forall>f \<in> set fs. present src b f \<longrightarrow> string_fits src b (entry f)"
    and "length (stream src b fs) < 2 ^ 16"
proof -
  let ?L = "of_nat (pkt_data_len pkt - qmi_header_size) :: u32" and ?s = "stream src b fs"
  have L: "unat ?L = pkt_data_len pkt - qmi_header_size"
    using len by (intro unat_of_nat_small) simp
  have init: "between qmi_header_size 0 (pkt_data pkt) (enc_init 1 (pkt_data pkt) qmi_header_size)"
    by (simp add: between_def enc_init_def)
  obtain r m where r: "qmi_encode (Some (message_tab fs)) (pkt_data pkt) qmi_header_size src b ?L 1 = Some (r, m)"
      "r < 0 \<or> r = int (length ?s) \<and> m = wr (pkt_data pkt) qmi_header_size ?s \<and> length ?s \<le> unat ?L \<and>
         (\<forall>f \<in> set fs. present src b f \<longrightarrow> string_fits src b (entry f))"
  proof -
    have "unat ?L < 2 ^ 31" using L len by simp
    from encode_stream [OF fs init _ this] that show ?thesis by (auto simp: qmi_encode_def)
  qed
  have long: "\<not> pkt_data_len pkt < qmi_header_size" using enc by (auto simp: qmi_encode_message_def)
  then have nonneg: "\<not> r < 0" using enc r(1) by (auto simp: qmi_encode_message_def)
  with r(2) have ok: "r = int (length ?s)" "m = wr (pkt_data pkt) qmi_header_size ?s" "length ?s \<le> unat ?L"
      "\<forall>f \<in> set fs. present src b f \<longrightarrow> string_fits src b (entry f)" by auto
  show "\<forall>f \<in> set fs. present src b f \<longrightarrow> string_fits src b (entry f)" by (rule ok(4))
  let ?h = "qmi_header_bytes \<lparr>qh_type = word_of_int ty, qh_txn_id = word_of_int txn,
      qh_msg_id = word_of_int mid, qh_msg_len = of_nat (length ?s)\<rparr>"
  have pkt': "rc = int (qmi_header_size + length ?s)"
      "pkt' = pkt\<lparr>pkt_data := wr m 0 ?h, pkt_type := QRTR_TYPE_DATA, pkt_data_len := qmi_header_size + length ?s\<rparr>"
    using enc(1) r(1) long nonneg ok(1) by (simp_all add: qmi_encode_message_def Let_def)
  then show "pkt_data_len pkt' = qmi_header_size + length ?s" "rc = int (pkt_data_len pkt')" by simp_all
  show "holds (pkt_data pkt') 0 ?h" by (simp add: pkt'(2))
  show "holds (pkt_data pkt') qmi_header_size ?s"
    by (simp add: pkt'(2) ok(2) holds_wr_other)
  show "length ?s < 2 ^ 16" using ok(3) L len by linarith
qed

lemma encoded_decodes:
  assumes fs: "message_ok fs" "sorted_wrt apart (concat (map regions fs))"
    and strs: "\<forall>f \<in> set fs. string_here src b (entry f)"
    and enc: "qmi_encode_message pkt ty mid txn (Some (src, b)) (Some (message_tab fs)) = Some (rc, pkt')"
      "0 \<le> rc" "pkt_data_len pkt < 2 ^ 16"
    and got: "pkt_data_len p = pkt_data_len pkt'" "rd (pkt_data p) 0 (pkt_data_len p) = rd (pkt_data pkt') 0 (pkt_data_len p)"
    and ids: "0 \<le> ty" "ty < 2 ^ 8" "0 \<le> mid" "mid < 2 ^ 16"
    and fuel: "\<forall>f \<in> set fs. length (members (entry f)) + length fs + 2 < fuel" "length fs + 2 < fuel"
  shows "qmi_decode_header p = (0, Some (word_of_int mid)) \<and>
    (\<exists>m'. qmi_decode_message fuel (Some (m, out)) p ty mid (Some (message_tab fs)) =
       Some (rc - 7, Some (ucast (word_of_int txn :: u16)), Some m') \<and>
     (\<forall>f \<in> set fs. if present src b f then field_here src b m' out f
        else \<forall>(off, w) \<in> set (regions f). rd m' (out + off) w = rd m (out + off) w))"
proof -
  let ?s = "stream src b fs" and ?gs = "filter (present src b) fs"
  let ?h = "\<lparr>qh_type = word_of_int ty, qh_txn_id = word_of_int txn, qh_msg_id = word_of_int mid,
    qh_msg_len = of_nat (length ?s)\<rparr>"
  note e = encode_message_bytes [OF fs(1) strs enc(3,1,2)]
  have b: "pkt_data_len p = qmi_header_size + length ?s" "rc = int (pkt_data_len p)"
      "holds (pkt_data p) 0 (qmi_header_bytes ?h)" "holds (pkt_data p) qmi_header_size ?s"
      "\<forall>f \<in> set fs. present src b f \<longrightarrow> string_fits src b (entry f)" "length ?s < 2 ^ 16"
    using e(1-6) got(1) rd_sub [OF got(2), of 0 qmi_header_size] rd_sub [OF got(2), of qmi_header_size "length ?s"]
    by (simp_all add: holds_iff_rd)
  have hdr: "qmi_header_read (pkt_data p) 0 = ?h" using b(3) by (rule qmi_hdr.dec_enc)
  have ids': "uint (word_of_int ty :: u8) = ty" "uint (word_of_int mid :: u16) = mid"
    using ids by (simp_all add: uint_word_of_int_eq take_bit_int_eq_self)
  have L: "(of_nat (pkt_data_len p) - 7 :: u32) = of_nat (length ?s)" "(of_nat (pkt_data_len p) - 7 :: u64) = of_nat (length ?s)"
    by (simp_all add: b(1))
  have small: "unat (of_nat (length ?s) :: u32) = length ?s" using b(6) by (intro unat_of_nat_small) simp
  have "ucast (word_of_int mid :: u16) = (word_of_int mid :: u32)"
    using ids(3,4) by (simp add: word_eq_iff_unsigned [where ?'a = int] unsigned_ucast_eq uint_word_of_int_eq
        take_bit_int_eq_self)
  then have accepted: "qmi_decode_header p = (0, Some (word_of_int mid))"
    using b(6) by (simp add: qmi_decode_header_def Let_def hdr L(2) unsigned_of_nat take_bit_nat_eq_self)
  have "\<exists>m'. qmi_decode_loop fuel (message_tab fs) (message_tab fs) 1 (pkt_data p) out
        (of_nat (length ?s)) (dec_init m qmi_header_size) = Some (int (unat (of_nat (length ?s) :: u32)), m') \<and>
      (\<forall>f \<in> set ?gs. field_here src b m' out f) \<and>
      (\<forall>a. outside out (concat (map regions ?gs)) a \<longrightarrow> m' a = d_dst (dec_init m qmi_header_size) a)"
  proof (rule decode_stream [OF fs(1) _ regions_filter [OF fs(2)], where K = "fuel - length fs - 1"])
    show "\<forall>f \<in> set ?gs. field_ready src b (fuel - length fs - 1) f"
      using strs b(5,6) regions_own [OF fs(2)] fuel payload_length [of _ fs src b]
      by (fastforce simp: field_ready_def)
    show "fuel - length fs - 1 + length ?gs < fuel"
      using length_filter_le [of "present src b" fs] fuel(2) by linarith
  qed (use b(4,6) small in \<open>auto simp: dec_init_def stream_def\<close>)
  then obtain m' where m': "qmi_decode fuel (message_tab fs) m out (pkt_data p) qmi_header_size
        (of_nat (length ?s)) 1 = Some (int (length ?s), m')"
      "\<forall>f \<in> set ?gs. field_here src b m' out f"
      "\<forall>a. outside out (concat (map regions ?gs)) a \<longrightarrow> m' a = m a"
    unfolding small by (auto simp: qmi_decode_def dec_init_def)
  have absent: "rd m' (out + off) w = rd m (out + off) w"
    if f: "f \<in> set fs" "\<not> present src b f" "(off, w) \<in> set (regions f)" for f off w
  proof (rule rd_cong)
    fix i assume i: "i < w"
    have "outside out (concat (map regions ?gs)) (out + off + i)"
      using regions_apart [OF fs(2) f(1) _ _ f(3)] f(2) i by (fastforce simp: outside_def apart_def)
    then show "m' (out + off + i) = m (out + off + i)" using m'(3) by blast
  qed
  have "qmi_decode_message fuel (Some (m, out)) p ty mid (Some (message_tab fs)) =
      Some (rc - 7, Some (ucast (word_of_int txn :: u16)), Some m')"
    using m'(1) b(1,2) by (simp add: qmi_decode_message_def Let_def hdr ids' L(1))
  then show ?thesis using accepted m'(2) absent by auto
qed

text \<open>
  C23. A message of plain values, fixed arrays, structures and strings that was encoded
  with its table is accepted and decoded with the same table by whoever receives its bytes: the decoder
  consumes exactly the message, reports the transaction id, restores every field that is present, sets the flags of
  optional ones, and leaves the place of absent fields as it was.
\<close>

theorem qmi_roundtrip:
  assumes fs: "message_ok fs" "sorted_wrt apart (concat (map regions fs))"
    and strs: "\<forall>f \<in> set fs. string_here src b (entry f)"
    and enc: "qmi_encode_message pkt ty mid txn (Some (src, b)) (Some (message_tab fs)) = Some (rc, pkt')"
      "0 \<le> rc" "pkt_data_len pkt < 2 ^ 16"
    and got: "pkt_data_len p = pkt_data_len pkt'" "rd (pkt_data p) 0 (pkt_data_len p) = rd (pkt_data pkt') 0 (pkt_data_len p)"
    and ids: "0 \<le> ty" "ty < 2 ^ 8" "0 \<le> mid" "mid < 2 ^ 16"
    and fuel: "\<forall>f \<in> set fs. length (members (entry f)) + length fs + 2 < fuel" "length fs + 2 < fuel"
  shows "qmi_decode_header p = (0, Some (word_of_int mid)) \<and>
    (\<exists>m'. qmi_decode_message fuel (Some (m, out)) p ty mid (Some (message_tab fs)) =
       Some (rc - 7, Some (ucast (word_of_int txn :: u16)), Some m') \<and>
     (\<forall>f \<in> set fs. if present src b f then field_here src b m' out f
        else \<forall>(off, w) \<in> set (regions f). rd m' (out + off) w = rd m (out + off) w))"
  using assms by (rule encoded_decodes)

text \<open>An optional word at offset 4 with its flag at offset 0, in a structure full of sevens.\<close>

definition sample_fields :: "field list" where
  "sample_fields = [Field (Some 0) (Elem_info QMI_UNSIGNED_4_BYTE 1 4 NO_ARRAY 16 4 None)]"

lemma sample_encode:
  "\<exists>m. qmi_encode (Some (message_tab sample_fields)) d 7 (\<lambda>_. 7) 0 249 1 = Some (7, m)"
  by (simp add: qmi_encode_def message_tab_def sample_fields_def group_def flag_entry_def terminator_def
      enc_init_def enc_data_len_def encode_elem_def encode_tlv_header_def is_basic_def
      qmi_encode_basic_elem_def basic_loop_eq update_encode_variables_def Let_def)

theorem qmi_roundtrip_witness:
  "\<exists>pkt' m'. qmi_decode_message 9 (Some (\<lambda>_. 0, 100)) pkt' 2 33 (Some (message_tab sample_fields)) =
      Some (7, Some 5, Some m') \<and> rd m' 104 4 = [7, 7, 7, 7] \<and> m' 100 = 1"
proof -
  obtain m where "qmi_encode (Some (message_tab sample_fields)) (\<lambda>_. 0) 7 (\<lambda>_. 7) 0 249 1 = Some (7, m)"
    using sample_encode by blast
  then obtain pkt' where pkt': "qmi_encode_message (sample_packet 256) 2 33 5 (Some (\<lambda>_. 7, 0))
      (Some (message_tab sample_fields)) = Some (14, pkt')"
    by (simp add: qmi_encode_message_def sample_packet_def Let_def)
  have "message_ok sample_fields" "sorted_wrt apart (concat (map regions sample_fields))"
      "\<forall>f \<in> set sample_fields. string_here (\<lambda>_. 7) 0 (entry f)"
    by (simp_all add: sample_fields_def message_ok_def simple_def plain_def is_basic_def elem_ok_def
        regions_def apart_def extent_def width_def count_def string_here_def)
  from qmi_roundtrip [OF this pkt', of pkt' 9 "\<lambda>_. 0" 100] show ?thesis
    by (auto simp: sample_packet_def sample_fields_def present_def field_here_def restored_def members_def
        width_def count_def rd_def upt_rec)
qed

end
