(* ===== verification/Messages.thy ===== *)
theory Messages
  imports QmiRoundtrip
begin

text \<open>
  The QMI messages of the remote file system server (\<open>rmtfs/qmi_rmtfs.c\<close>, \<open>qmi_rmtfs.h\<close>) and of
  the protection domain mapper (\<open>pd-mapper/servreg_loc.c\<close>, \<open>servreg_loc.h\<close>): the C structures, as
  lists of member types from which offsets and sizes follow by the rules of the 64-bit ABI, and the
  element tables over them.
\<close>

section \<open>Layout of C structures\<close>

text \<open>A type is its size and its alignment.\<close>

type_synonym ctype = "nat \<times> nat"

abbreviation (input) c_char :: ctype where "c_char \<equiv> (1, 1)"
abbreviation (input) c_bool :: ctype where "c_bool \<equiv> (1, 1)"
abbreviation (input) c_uint8 :: ctype where "c_uint8 \<equiv> (1, 1)"
abbreviation (input) c_uint16 :: ctype where "c_uint16 \<equiv> (2, 2)"
abbreviation (input) c_uint32 :: ctype where "c_uint32 \<equiv> (4, 4)"
abbreviation (input) c_uint64 :: ctype where "c_uint64 \<equiv> (8, 8)"
abbreviation (input) c_size_t :: ctype where "c_size_t \<equiv> (8, 8)"

definition c_array :: "nat \<Rightarrow> ctype \<Rightarrow> ctype" where
  "c_array n t = (n * fst t, snd t)"

definition align_up :: "nat \<Rightarrow> nat \<Rightarrow> nat" where
  "align_up n a = (n + a - 1) div a * a"

primrec layout_from :: "nat \<Rightarrow> ctype list \<Rightarrow> nat list" where
  "layout_from n [] = []"
| "layout_from n (t # ts) = align_up n (snd t) # layout_from (align_up n (snd t) + fst t) ts"

primrec layout_end :: "nat \<Rightarrow> ctype list \<Rightarrow> nat" where
  "layout_end n [] = n"
| "layout_end n (t # ts) = layout_end (align_up n (snd t) + fst t) ts"

definition offsetof :: "ctype list \<Rightarrow> nat \<Rightarrow> nat" where
  "offsetof ts i = layout_from 0 ts ! i"

definition c_struct :: "ctype list \<Rightarrow> ctype" where
  "c_struct ts = (let a = foldr (max \<circ> snd) ts 1 in (align_up (layout_end 0 ts) a, a))"

definition sizeof :: "ctype list \<Rightarrow> nat" where
  "sizeof ts = fst (c_struct ts)"

lemmas layout_simps = offsetof_def sizeof_def c_struct_def c_array_def align_up_def Let_def

text \<open>An entry of a table; members a designated initialiser leaves out are zero.\<close>

definition elem :: "qmi_elem_type \<Rightarrow> nat \<Rightarrow> nat \<Rightarrow> u8 \<Rightarrow> nat \<Rightarrow> qmi_elem_info" where
  "elem ty len sz t off = Elem_info ty (of_nat len) (of_nat sz) NO_ARRAY t off None"

definition elem_array :: "qmi_elem_type \<Rightarrow> nat \<Rightarrow> nat \<Rightarrow> u8 \<Rightarrow> nat \<Rightarrow> qmi_elem_info" where
  "elem_array ty len sz t off = Elem_info ty (of_nat len) (of_nat sz) VAR_LEN_ARRAY t off None"

definition elem_struct :: "nat \<Rightarrow> nat \<Rightarrow> qmi_array_type \<Rightarrow> u8 \<Rightarrow> nat \<Rightarrow> qmi_elem_info list \<Rightarrow> qmi_elem_info" where
  "elem_struct len sz arr t off eis = Elem_info QMI_STRUCT (of_nat len) (of_nat sz) arr t off (Some eis)"

lemmas elem_defs = elem_def elem_array_def elem_struct_def terminator_def

section \<open>Remote file system server\<close>

definition rmtfs_qmi_result :: "ctype list" where
  "rmtfs_qmi_result = [c_uint16, c_uint16]"

definition rmtfs_iovec_entry :: "ctype list" where
  "rmtfs_iovec_entry = [c_uint32, c_uint32, c_uint32]"

definition rmtfs_open_req :: "ctype list" where
  "rmtfs_open_req = [c_uint32, c_array 256 c_char]"

definition rmtfs_open_resp :: "ctype list" where
  "rmtfs_open_resp = [c_struct rmtfs_qmi_result, c_bool, c_uint32]"

definition rmtfs_close_req :: "ctype list" where
  "rmtfs_close_req = [c_uint32]"

definition rmtfs_close_resp :: "ctype list" where
  "rmtfs_close_resp = [c_struct rmtfs_qmi_result]"

definition rmtfs_iovec_req :: "ctype list" where
  "rmtfs_iovec_req = [c_uint32, c_uint8, c_size_t, c_array 255 (c_struct rmtfs_iovec_entry), c_uint8]"

definition rmtfs_iovec_resp :: "ctype list" where
  "rmtfs_iovec_resp = [c_struct rmtfs_qmi_result]"

definition rmtfs_alloc_buf_req :: "ctype list" where
  "rmtfs_alloc_buf_req = [c_uint32, c_uint32]"

definition rmtfs_alloc_buf_resp :: "ctype list" where
  "rmtfs_alloc_buf_resp = [c_struct rmtfs_qmi_result, c_bool, c_uint64]"

definition rmtfs_dev_error_req :: "ctype list" where
  "rmtfs_dev_error_req = [c_uint32]"

definition rmtfs_dev_error_resp :: "ctype list" where
  "rmtfs_dev_error_resp = [c_struct rmtfs_qmi_result, c_bool, c_uint8]"

definition rmtfs_force_sync :: "ctype list" where
  "rmtfs_force_sync = [c_size_t, c_array 10 c_uint32]"

definition rmtfs_qmi_result_ei :: "qmi_elem_info list" where
  "rmtfs_qmi_result_ei =
     [elem QMI_UNSIGNED_2_BYTE 1 2 0 (offsetof rmtfs_qmi_result 0),
      elem QMI_UNSIGNED_2_BYTE 1 2 0 (offsetof rmtfs_qmi_result 1),
      terminator]"

definition rmtfs_iovec_entry_ei :: "qmi_elem_info list" where
  "rmtfs_iovec_entry_ei =
     [elem QMI_UNSIGNED_4_BYTE 1 4 0 (offsetof rmtfs_iovec_entry 0),
      elem QMI_UNSIGNED_4_BYTE 1 4 0 (offsetof rmtfs_iovec_entry 1),
      elem QMI_UNSIGNED_4_BYTE 1 4 0 (offsetof rmtfs_iovec_entry 2),
      terminator]"

definition rmtfs_open_req_ei :: "qmi_elem_info list" where
  "rmtfs_open_req_ei =
     [elem_array QMI_STRING 256 1 1 (offsetof rmtfs_open_req 1),
      terminator]"

definition rmtfs_open_resp_ei :: "qmi_elem_info list" where
  "rmtfs_open_resp_ei =
     [elem_struct 1 (sizeof rmtfs_qmi_result) NO_ARRAY 2 (offsetof rmtfs_open_resp 0) rmtfs_qmi_result_ei,
      elem QMI_OPT_FLAG 1 1 16 (offsetof rmtfs_open_resp 1),
      elem QMI_UNSIGNED_4_BYTE 1 4 16 (offsetof rmtfs_open_resp 2),
      terminator]"

definition rmtfs_close_req_ei :: "qmi_elem_info list" where
  "rmtfs_close_req_ei =
     [elem QMI_UNSIGNED_4_BYTE 1 4 1 (offsetof rmtfs_close_req 0),
      terminator]"

definition rmtfs_close_resp_ei :: "qmi_elem_info list" where
  "rmtfs_close_resp_ei =
     [elem_struct 1 (sizeof rmtfs_qmi_result) NO_ARRAY 2 (offsetof rmtfs_close_resp 0) rmtfs_qmi_result_ei,
      terminator]"

definition rmtfs_iovec_req_ei :: "qmi_elem_info list" where
  "rmtfs_iovec_req_ei =
     [elem QMI_UNSIGNED_4_BYTE 1 4 1 (offsetof rmtfs_iovec_req 0),
      elem QMI_UNSIGNED_1_BYTE 1 1 2 (offsetof rmtfs_iovec_req 1),
      elem QMI_DATA_LEN 1 1 3 (offsetof rmtfs_iovec_req 2),
      elem_struct 255 (sizeof rmtfs_iovec_entry) VAR_LEN_ARRAY 3 (offsetof rmtfs_iovec_req 3)
        rmtfs_iovec_entry_ei,
      elem QMI_UNSIGNED_1_BYTE 1 1 4 (offsetof rmtfs_iovec_req 4),
      terminator]"

definition rmtfs_iovec_resp_ei :: "qmi_elem_info list" where
  "rmtfs_iovec_resp_ei =
     [elem_struct 1 (sizeof rmtfs_qmi_result) NO_ARRAY 2 (offsetof rmtfs_iovec_resp 0) rmtfs_qmi_result_ei,
      terminator]"

definition rmtfs_alloc_buf_req_ei :: "qmi_elem_info list" where
  "rmtfs_alloc_buf_req_ei =
     [elem QMI_UNSIGNED_4_BYTE 1 4 1 (offsetof rmtfs_alloc_buf_req 0),
      elem QMI_UNSIGNED_4_BYTE 1 4 2 (offsetof rmtfs_alloc_buf_req 1),
      terminator]"

definition rmtfs_alloc_buf_resp_ei :: "qmi_elem_info list" where
  "rmtfs_alloc_buf_resp_ei =
     [elem_struct 1 (sizeof rmtfs_qmi_result) NO_ARRAY 2 (offsetof rmtfs_alloc_buf_resp 0) rmtfs_qmi_result_ei,
      elem QMI_OPT_FLAG 1 1 16 (offsetof rmtfs_alloc_buf_resp 1),
      elem QMI_UNSIGNED_8_BYTE 1 8 16 (offsetof rmtfs_alloc_buf_resp 2),
      terminator]"

definition rmtfs_dev_error_req_ei :: "qmi_elem_info list" where
  "rmtfs_dev_error_req_ei =
     [elem QMI_UNSIGNED_4_BYTE 1 4 1 (offsetof rmtfs_dev_error_req 0),
      terminator]"

definition rmtfs_dev_error_resp_ei :: "qmi_elem_info list" where
  "rmtfs_dev_error_resp_ei =
     [elem_struct 1 (sizeof rmtfs_qmi_result) NO_ARRAY 2 (offsetof rmtfs_dev_error_resp 0) rmtfs_qmi_result_ei,
      elem QMI_OPT_FLAG 1 1 16 (offsetof rmtfs_dev_error_resp 1),
      elem QMI_UNSIGNED_1_BYTE 1 1 16 (offsetof rmtfs_dev_error_resp 2),
      terminator]"

definition rmtfs_force_sync_ei :: "qmi_elem_info list" where
  "rmtfs_force_sync_ei =
     [elem QMI_DATA_LEN 1 1 1 (offsetof rmtfs_force_sync 0),
      elem_array QMI_UNSIGNED_1_BYTE 10 4 1 (offsetof rmtfs_force_sync 1),
      terminator]"

lemmas rmtfs_structs = rmtfs_qmi_result_def rmtfs_iovec_entry_def rmtfs_open_req_def rmtfs_open_resp_def
  rmtfs_close_req_def rmtfs_close_resp_def rmtfs_iovec_req_def rmtfs_iovec_resp_def
  rmtfs_alloc_buf_req_def rmtfs_alloc_buf_resp_def rmtfs_dev_error_req_def rmtfs_dev_error_resp_def
  rmtfs_force_sync_def

lemmas rmtfs_tables = rmtfs_qmi_result_ei_def rmtfs_iovec_entry_ei_def rmtfs_open_req_ei_def
  rmtfs_open_resp_ei_def rmtfs_close_req_ei_def rmtfs_close_resp_ei_def rmtfs_iovec_req_ei_def
  rmtfs_iovec_resp_ei_def rmtfs_alloc_buf_req_ei_def rmtfs_alloc_buf_resp_ei_def
  rmtfs_dev_error_req_ei_def rmtfs_dev_error_resp_ei_def rmtfs_force_sync_ei_def

section \<open>Protection domain mapper\<close>

definition servreg_loc_qmi_result :: "ctype list" where
  "servreg_loc_qmi_result = [c_uint16, c_uint16]"

definition servreg_loc_domain_list_entry :: "ctype list" where
  "servreg_loc_domain_list_entry = [c_uint32, c_array 256 c_char, c_uint32, c_uint8, c_uint32]"

definition servreg_loc_get_domain_list_req :: "ctype list" where
  "servreg_loc_get_domain_list_req = [c_uint32, c_array 256 c_char, c_bool, c_uint32]"

definition servreg_loc_get_domain_list_resp :: "ctype list" where
  "servreg_loc_get_domain_list_resp =
     [c_struct servreg_loc_qmi_result, c_bool, c_uint16, c_bool, c_uint16, c_bool, c_uint32,
      c_array 255 (c_struct servreg_loc_domain_list_entry)]"

definition servreg_loc_pfr_req :: "ctype list" where
  "servreg_loc_pfr_req = [c_uint32, c_array 256 c_char, c_uint32, c_array 256 c_char]"

definition servreg_loc_pfr_resp :: "ctype list" where
  "servreg_loc_pfr_resp = [c_struct servreg_loc_qmi_result]"

definition servreg_loc_qmi_result_ei :: "qmi_elem_info list" where
  "servreg_loc_qmi_result_ei =
     [elem QMI_UNSIGNED_2_BYTE 1 2 0 (offsetof servreg_loc_qmi_result 0),
      elem QMI_UNSIGNED_2_BYTE 1 2 0 (offsetof servreg_loc_qmi_result 1),
      terminator]"

definition servreg_loc_domain_list_entry_ei :: "qmi_elem_info list" where
  "servreg_loc_domain_list_entry_ei =
     [elem QMI_STRING 256 1 0 (offsetof servreg_loc_domain_list_entry 1),
      elem QMI_UNSIGNED_4_BYTE 1 4 0 (offsetof servreg_loc_domain_list_entry 2),
      elem QMI_UNSIGNED_1_BYTE 1 1 0 (offsetof servreg_loc_domain_list_entry 3),
      elem QMI_UNSIGNED_4_BYTE 1 4 0 (offsetof servreg_loc_domain_list_entry 4),
      terminator]"

definition servreg_loc_get_domain_list_req_ei :: "qmi_elem_info list" where
  "servreg_loc_get_domain_list_req_ei =
     [elem_array QMI_STRING 256 1 1 (offsetof servreg_loc_get_domain_list_req 1),
      elem QMI_OPT_FLAG 1 1 16 (offsetof servreg_loc_get_domain_list_req 2),
      elem QMI_UNSIGNED_4_BYTE 1 4 16 (offsetof servreg_loc_get_domain_list_req 3),
      terminator]"

definition servreg_loc_get_domain_list_resp_ei :: "qmi_elem_info list" where
  "servreg_loc_get_domain_list_resp_ei =
     [elem_struct 1 (sizeof servreg_loc_qmi_result) NO_ARRAY 2
        (offsetof servreg_loc_get_domain_list_resp 0) servreg_loc_qmi_result_ei,
      elem QMI_OPT_FLAG 1 1 16 (offsetof servreg_loc_get_domain_list_resp 1),
      elem QMI_UNSIGNED_2_BYTE 1 2 16 (offsetof servreg_loc_get_domain_list_resp 2),
      elem QMI_OPT_FLAG 1 1 17 (offsetof servreg_loc_get_domain_list_resp 3),
      elem QMI_UNSIGNED_2_BYTE 1 2 17 (offsetof servreg_loc_get_domain_list_resp 4),
      elem QMI_OPT_FLAG 1 1 18 (offsetof servreg_loc_get_domain_list_resp 5),
      elem QMI_DATA_LEN 1 1 18 (offsetof servreg_loc_get_domain_list_resp 6),
      elem_struct 255 (sizeof servreg_loc_domain_list_entry) VAR_LEN_ARRAY 18
        (offsetof servreg_loc_get_domain_list_resp 7) servreg_loc_domain_list_entry_ei,
      terminator]"

definition servreg_loc_pfr_req_ei :: "qmi_elem_info list" where
  "servreg_loc_pfr_req_ei =
     [elem_array QMI_STRING 256 1 1 (offsetof servreg_loc_pfr_req 1),
      elem_array QMI_STRING 256 1 2 (offsetof servreg_loc_pfr_req 3),
      terminator]"

definition servreg_loc_pfr_resp_ei :: "qmi_elem_info list" where
  "servreg_loc_pfr_resp_ei =
     [elem_struct 1 (sizeof servreg_loc_qmi_result) NO_ARRAY 2 (offsetof servreg_loc_pfr_resp 0)
        servreg_loc_qmi_result_ei,
      terminator]"

lemmas servreg_structs = servreg_loc_qmi_result_def servreg_loc_domain_list_entry_def
  servreg_loc_get_domain_list_req_def servreg_loc_get_domain_list_resp_def servreg_loc_pfr_req_def
  servreg_loc_pfr_resp_def

lemmas servreg_tables = servreg_loc_qmi_result_ei_def servreg_loc_domain_list_entry_ei_def
  servreg_loc_get_domain_list_req_ei_def servreg_loc_get_domain_list_resp_ei_def
  servreg_loc_pfr_req_ei_def servreg_loc_pfr_resp_ei_def

section \<open>The tables agree with the structures\<close>

text \<open>What a receiver needs of a table: decoding is bounded by the structure.\<close>

definition decodes_into :: "qmi_elem_info list \<Rightarrow> nat \<Rightarrow> bool" where
  "decodes_into tab S \<longleftrightarrow> tab_fits S tab \<and> tab_span tab < 2 ^ 29"

lemmas table_eval = decodes_into_def elem_defs entry_fits_def elem_ok_def layout_simps numeral_2_eq_2 [symmetric]

lemmas field_eval = message_tab_def group_def flag_entry_def message_ok_def simple_def plain_def
  simple_struct_def simple_string_def is_basic_def members_def width_def count_def regions_def apart_def
  extent_def

text \<open>What a sender needs: the table is a list of fields that do not overlap.\<close>

definition encodes_fields :: "qmi_elem_info list \<Rightarrow> field list \<Rightarrow> bool" where
  "encodes_fields tab fs \<longleftrightarrow> tab = message_tab fs \<and> message_ok fs \<and> sorted_wrt apart (concat (map regions fs))"

definition result_field :: "qmi_elem_info list \<Rightarrow> field" where
  "result_field eis = Field None (elem_struct 1 4 NO_ARRAY 2 0 eis)"

definition optional_field :: "nat \<Rightarrow> qmi_elem_info \<Rightarrow> field" where
  "optional_field off e = Field (Some off) e"

lemma servreg_requests:
  "decodes_into servreg_loc_get_domain_list_req_ei (sizeof servreg_loc_get_domain_list_req)"
  "decodes_into servreg_loc_get_domain_list_resp_ei (sizeof servreg_loc_get_domain_list_resp)"
  "\<not> tab_fits (sizeof servreg_loc_pfr_req) servreg_loc_pfr_req_ei"
  "decodes_into servreg_loc_pfr_req_ei (sizeof servreg_loc_pfr_req + 1)"
  "\<not> tab_ok (Some 0) servreg_loc_get_domain_list_resp_ei"
  by (simp_all add: table_eval servreg_tables servreg_structs)

lemma rmtfs_requests:
  "decodes_into rmtfs_close_req_ei (sizeof rmtfs_close_req)"
  "decodes_into rmtfs_iovec_req_ei (sizeof rmtfs_iovec_req)"
  "decodes_into rmtfs_alloc_buf_req_ei (sizeof rmtfs_alloc_buf_req)"
  "decodes_into rmtfs_dev_error_req_ei (sizeof rmtfs_dev_error_req)"
  "decodes_into rmtfs_force_sync_ei (sizeof rmtfs_force_sync)"
  "decodes_into rmtfs_open_req_ei (sizeof rmtfs_open_req + 1)"
  "\<not> tab_fits (sizeof rmtfs_open_req) rmtfs_open_req_ei"
  by (simp_all add: table_eval rmtfs_tables rmtfs_structs)

lemma rmtfs_responses:
  "encodes_fields rmtfs_open_resp_ei [result_field rmtfs_qmi_result_ei,
     optional_field 4 (elem QMI_UNSIGNED_4_BYTE 1 4 16 8)]"
  "encodes_fields rmtfs_close_resp_ei [result_field rmtfs_qmi_result_ei]"
  "encodes_fields rmtfs_iovec_resp_ei [result_field rmtfs_qmi_result_ei]"
  "encodes_fields rmtfs_alloc_buf_resp_ei [result_field rmtfs_qmi_result_ei,
     optional_field 4 (elem QMI_UNSIGNED_8_BYTE 1 8 16 8)]"
  "encodes_fields rmtfs_dev_error_resp_ei [result_field rmtfs_qmi_result_ei,
     optional_field 4 (elem QMI_UNSIGNED_1_BYTE 1 1 16 5)]"
  by (simp_all add: table_eval field_eval rmtfs_tables rmtfs_structs encodes_fields_def result_field_def
      optional_field_def)

lemma servreg_responses:
  "encodes_fields servreg_loc_pfr_resp_ei [result_field servreg_loc_qmi_result_ei]"
  by (simp_all add: table_eval field_eval servreg_tables servreg_structs encodes_fields_def result_field_def)


text \<open>A request to open a path.\<close>

definition open_request :: "u8 list \<Rightarrow> qrtr_packet" where
  "open_request bs = (sample_packet (10 + length bs))\<lparr>pkt_data := wr (\<lambda>_. 0) 0
     (qmi_header_bytes \<lparr>qh_type = 0, qh_txn_id = 7, qh_msg_id = 1, qh_msg_len = of_nat (3 + length bs)\<rparr> @
      tlv 1 bs)\<rparr>"

lemma open_request_holds:
  "qmi_header_read (pkt_data (open_request bs)) 0 =
     \<lparr>qh_type = 0, qh_txn_id = 7, qh_msg_id = 1, qh_msg_len = of_nat (3 + length bs)\<rparr>"
  "holds (pkt_data (open_request bs)) 7 (tlv 1 bs)"
proof -
  have "holds (pkt_data (open_request bs)) 0
      (qmi_header_bytes \<lparr>qh_type = 0, qh_txn_id = 7, qh_msg_id = 1, qh_msg_len = of_nat (3 + length bs)\<rparr> @ tlv 1 bs)"
    by (simp add: open_request_def del: holds_append)
  then show "qmi_header_read (pkt_data (open_request bs)) 0 =
        \<lparr>qh_type = 0, qh_txn_id = 7, qh_msg_id = 1, qh_msg_len = of_nat (3 + length bs)\<rparr>"
      "holds (pkt_data (open_request bs)) 7 (tlv 1 bs)"
    unfolding holds_append by (auto intro: qmi_hdr.dec_enc)
qed

lemma open_request_len [simp]: "pkt_data_len (open_request bs) = 10 + length bs"
  by (simp add: open_request_def sample_packet_def)

lemma open_request_header: "length bs \<le> 256 \<Longrightarrow> qmi_decode_header (open_request bs) = (0, Some 1)"
proof -
  assume "length bs \<le> 256"
  moreover have "(of_nat (10 + length bs) - 7 :: u64) = of_nat (3 + length bs)" by simp
  ultimately show ?thesis
    by (simp add: qmi_decode_header_def open_request_holds(1) unsigned_of_nat take_bit_nat_eq_self
        del: of_nat_add of_nat_Suc)
qed

lemma open_req_element:
  assumes st: "st = \<lparr>d_dst = m, d_buf_src = p, d_data_len_value = 0, d_decoded_bytes = c\<rparr>" and n: "n \<le> 256"
  shows "decode_elem dec rmtfs_open_req_ei 1 src out (of_nat n) st =
    Some (Inr ([terminator],
      update_decode_variables (st\<lparr>d_dst := wr (wr m (out + 4) (rd src p n)) (out + 4 + n) [0]\<rparr>) (int n)))"
proof -
  have u: "unat (of_nat n :: u32) = n" using n by (intro unat_of_nat_small) simp
  then have "\<not> (256 :: u32) < of_nat n" using n by (simp add: word_less_nat_alt)
  moreover have "basic_loop n 1 m d src p 0 = (int n, wr m d (rd src p n))" for d
    using copy_elems [of "of_nat n" 1 m d src p] u n by (simp del: of_nat_unat)
  ultimately show ?thesis
    using u by (simp add: st rmtfs_open_req_ei_def rmtfs_open_req_def decode_elem_def dec_opt_flag_def dec_len_field_def
        dec_data_len_def dec_switch_def is_basic_def qmi_decode_string_elem_def qmi_decode_basic_elem_def
        ptr_add_def Let_def table_eval add.assoc)
qed

lemma open_request_decode:
  assumes n: "length bs \<le> 256"
  shows "qmi_decode_message (Suc (Suc k)) (Some (m, out)) (open_request bs) 0 1 (Some rmtfs_open_req_ei) =
     Some (int (3 + length bs), Some 7, Some (wr (wr m (out + 4) bs) (out + 4 + length bs) [0]))"
proof -
  let ?st = "update_decode_variables (dec_init m 7) 3" and ?src = "pkt_data (open_request bs)"
  let ?m = "wr (wr m (out + 4) bs) (out + 4 + length bs) [0]" and ?L = "of_nat (3 + length bs) :: u32"
  have src: "?src 7 = 1" "tlv_length ?src 7 = of_nat (length bs)" "rd ?src 10 (length bs) = bs"
  proof -
    note t = tlv_length_tlv [OF open_request_holds(2) [of bs]]
    have "unat (tlv_length ?src 7) = length bs" using t(2) n by simp
    moreover have "unat (of_nat (length bs) :: u32) = length bs" using n by (intro unat_of_nat_small) simp
    ultimately show "tlv_length ?src 7 = of_nat (length bs)" by (simp add: word_unat_eq_iff)
  qed (use tlv_length_tlv [OF open_request_holds(2) [of bs]] n in \<open>simp_all add: holds_iff_rd\<close>)
  have el: "decode_elem (sub_decoder (Suc k) 1 ?src) rmtfs_open_req_ei 1 ?src out (of_nat (length bs)) ?st =
      Some (Inr ([terminator], update_decode_variables (?st\<lparr>d_dst := ?m\<rparr>) (int (length bs))))"
    using open_req_element [OF _ n, of ?st m 10 3 "sub_decoder (Suc k) 1 ?src" ?src out] src(3)
    by (simp add: update_decode_variables_def dec_init_def ptr_add_def)
  have L: "unat ?L = 3 + length bs" using n by (intro unat_of_nat_small) simp
  then have "(0 :: u32) < ?L" "sint ?L = int (3 + length bs)"
    using n by (simp_all add: word_less_nat_alt sint_small del: of_nat_add)
  moreover have "find_ei rmtfs_open_req_ei (ucast (?src 7)) = Some (Some rmtfs_open_req_ei)"
    by (simp add: src rmtfs_open_req_ei_def elem_defs)
  moreover have "3 + word_of_int (int (length bs)) = ?L" by simp
  ultimately have "qmi_decode_loop (Suc (Suc k)) rmtfs_open_req_ei rmtfs_open_req_ei 1 ?src out ?L (dec_init m 7) =
      Some (int (3 + length bs), ?m)"
    using decode_round_top [of "Suc k" rmtfs_open_req_ei rmtfs_open_req_ei ?src out ?L "dec_init m 7"]
      decode_round_top [of k rmtfs_open_req_ei "[terminator]" ?src out ?L] el
    by (simp add: dec_init_def update_decode_variables_def src after_elem_def Let_def
        del: qmi_decode_loop.simps)
  then show ?thesis
    by (simp add: qmi_decode_message_def qmi_decode_def open_request_holds(1) del: qmi_decode_loop.simps)
qed

text \<open>
  A path of 256 bytes in an open request is accepted, and the terminating
  zero the decoder stores behind it is the byte after the end of the structure on the handler's stack.
\<close>

theorem rmtfs_open_req_overflow:
  "sizeof rmtfs_open_req = 260 \<and> qmi_decode_header (open_request (replicate 256 47)) = (0, Some 1) \<and>
   (\<exists>m'. qmi_decode_message 9 (Some (\<lambda>_. 1, 100)) (open_request (replicate 256 47)) 0 1 (Some rmtfs_open_req_ei) =
      Some (259, Some 7, Some m') \<and> m' (100 + 260) = 0)"
proof -
  have "sizeof rmtfs_open_req = 260" by (simp add: rmtfs_open_req_def layout_simps)
  moreover have "(9::nat) = Suc (Suc 7)" by simp
  ultimately show ?thesis
    using open_request_decode [of "replicate 256 47" 7 "\<lambda>_. 1" 100] open_request_header [of "replicate 256 47"]
    by (simp add: wr_def)
qed

end
