(* ===== verification/Storage.thy ===== *)
theory Storage
  imports Interfaces
begin

text \<open>
  The partition store of the remote file system server, \<open>rmtfs/storage.c\<close>: a table of ten handles
  that are either descriptors of partition files or, in read-only mode, copies of the files in
  memory that take all writes.

  The system calls and the allocator are a record of functions on a world \<open>'w\<close>; \<open>sys_ok\<close> states
  what their documentation promises. An allocation is the bytes it holds, so a buffer is a list;
  what \<open>realloc\<close> adds comes from the world. A handle is its index in the table. Offsets into files are
  naturals: the server's are sums of products of unsigned numbers, far below the width of \<open>off_t\<close>.
\<close>

section \<open>State\<close>

record 'w sys =
  s_open :: "string \<Rightarrow> bool \<Rightarrow> 'w \<Rightarrow> int \<times> 'w"
  s_close :: "int \<Rightarrow> 'w \<Rightarrow> 'w"
  s_lseek :: "int \<Rightarrow> bool \<Rightarrow> 'w \<Rightarrow> int \<times> 'w"
  s_read :: "int \<Rightarrow> nat \<Rightarrow> 'w \<Rightarrow> (int \<times> u8 list) \<times> 'w"
  s_pread :: "int \<Rightarrow> nat \<Rightarrow> int \<Rightarrow> 'w \<Rightarrow> (int \<times> u8 list) \<times> 'w"
  s_pwrite :: "int \<Rightarrow> u8 list \<Rightarrow> int \<Rightarrow> 'w \<Rightarrow> int \<times> 'w"
  s_fdatasync :: "int \<Rightarrow> 'w \<Rightarrow> int \<times> 'w"
  s_calloc :: "nat \<Rightarrow> 'w \<Rightarrow> bool \<times> 'w"
  s_realloc :: "nat \<Rightarrow> 'w \<Rightarrow> u8 list option \<times> 'w"

definition sys_ok :: "'w sys \<Rightarrow> bool" where
  "sys_ok sys \<longleftrightarrow>
     (\<forall>fd n w. let ((r, bs), w') = s_read sys fd n w in r \<le> int n \<and> length bs = nat r) \<and>
     (\<forall>fd n off w. let ((r, bs), w') = s_pread sys fd n off w in r \<le> int n \<and> length bs = nat r) \<and>
     (\<forall>n w bs w'. s_realloc sys n w = (Some bs, w') \<longrightarrow> length bs = n)"

abbreviation (input) MAX_CALLERS :: nat where "MAX_CALLERS \<equiv> 10"
abbreviation (input) STORAGE_MAX_SIZE :: nat where "STORAGE_MAX_SIZE \<equiv> 16 * 1024 * 1024"

record partition =
  p_path :: string
  p_actual :: string
  p_partlabel :: string

record rmtfd =
  rf_id :: nat
  rf_node :: u32
  rf_fd :: int
  rf_dev_error :: u32
  rf_partition :: "nat option"
  rf_shadow_buf :: "u8 list option"
  rf_shadow_len :: nat

record 'w storage =
  storage_dir :: string
  storage_read_only :: bool
  storage_use_partitions :: bool
  rmtfds :: "rmtfd list"
  world :: 'w

definition partition_table :: "partition list" where
  "partition_table =
     [\<lparr>p_path = ''/boot/modem_fs1'', p_actual = ''modem_fs1'', p_partlabel = ''modemst1''\<rparr>,
      \<lparr>p_path = ''/boot/modem_fs2'', p_actual = ''modem_fs2'', p_partlabel = ''modemst2''\<rparr>,
      \<lparr>p_path = ''/boot/modem_fsc'', p_actual = ''modem_fsc'', p_partlabel = ''fsc''\<rparr>,
      \<lparr>p_path = ''/boot/modem_fsg'', p_actual = ''modem_fsg'', p_partlabel = ''fsg''\<rparr>,
      \<lparr>p_path = ''/boot/modem_tunning'', p_actual = ''modem_tunning'', p_partlabel = ''tunning''\<rparr>]"

text \<open>The statically initialised state of the program.\<close>

definition zero_rmtfd :: rmtfd where
  "zero_rmtfd = \<lparr>rf_id = 0, rf_node = 0, rf_fd = 0, rf_dev_error = 0, rf_partition = None,
     rf_shadow_buf = None, rf_shadow_len = 0\<rparr>"

definition static_storage :: "'w \<Rightarrow> 'w storage" where
  "static_storage w = \<lparr>storage_dir = ''/boot'', storage_read_only = False, storage_use_partitions = False,
     rmtfds = replicate MAX_CALLERS zero_rmtfd, world = w\<rparr>"

section \<open>Operations\<close>

definition storage_init :: "string option \<Rightarrow> bool \<Rightarrow> bool \<Rightarrow> 'w storage \<Rightarrow> 'w storage" where
  "storage_init storage_root read_only use_partitions st =
     st\<lparr>storage_dir := (case storage_root of
           Some d \<Rightarrow> d
         | None \<Rightarrow> if use_partitions then ''/dev/disk/by-partlabel'' else storage_dir st),
        storage_use_partitions := (use_partitions \<or> storage_use_partitions st),
        storage_read_only := read_only,
        rmtfds := map (\<lambda>i. (rmtfds st ! i)\<lparr>rf_id := i, rf_fd := -1, rf_shadow_buf := None\<rparr>)
          [0..<MAX_CALLERS]\<rparr>"

primrec scan :: "('a \<Rightarrow> bool) \<Rightarrow> nat \<Rightarrow> 'a list \<Rightarrow> nat option" where
  "scan P i [] = None"
| "scan P i (x # xs) = (if P x then Some i else scan P (Suc i) xs)"

definition find_partition :: "string \<Rightarrow> nat option" where
  "find_partition path = scan (\<lambda>part. p_path part = path) 0 partition_table"

definition in_use :: "rmtfd \<Rightarrow> bool" where
  "in_use f \<longleftrightarrow> rf_fd f \<noteq> -1 \<or> rf_shadow_buf f \<noteq> None"

definition upd_fd :: "nat \<Rightarrow> (rmtfd \<Rightarrow> rmtfd) \<Rightarrow> 'w storage \<Rightarrow> 'w storage" where
  "upd_fd i g st = st\<lparr>rmtfds := (rmtfds st)[i := g (rmtfds st ! i)]\<rparr>"

text \<open>\<open>memcpy\<close> into a buffer.\<close>

definition put_at :: "u8 list \<Rightarrow> nat \<Rightarrow> u8 list \<Rightarrow> u8 list" where
  "put_at buf off bs = take off buf @ bs @ drop (off + length bs) buf"

definition storage_populate_shadow_buf :: "'w sys \<Rightarrow> nat \<Rightarrow> string \<Rightarrow> 'w storage \<Rightarrow> int \<times> 'w storage" where
  "storage_populate_shadow_buf sys i file st =
     (let (fd, w) = s_open sys file False (world st) in
      if fd < 0 then (-1, st\<lparr>world := w\<rparr>)
      else
        let (len, w) = s_lseek sys fd True w in
        if len < 0 then (-1, st\<lparr>world := s_close sys fd w\<rparr>)
        else
          let (_, w) = s_lseek sys fd False w;
              (ok, w) = s_calloc sys (nat len) w in
          if \<not> ok then (-1, st\<lparr>world := s_close sys fd w\<rparr>)
          else
            let ((n, bs), w) = s_read sys fd (nat len) w in
            if n < 0 then (-1, st\<lparr>world := s_close sys fd w\<rparr>)
            else
              (0, (upd_fd i (\<lambda>f. f\<lparr>rf_shadow_buf := Some (put_at (replicate (nat len) 0) 0 bs),
                     rf_shadow_len := nat n\<rparr>) st)\<lparr>world := s_close sys fd w\<rparr>))"

definition storage_path :: "'w storage \<Rightarrow> nat \<Rightarrow> string" where
  "storage_path st part =
     (let p = partition_table ! part in
      storage_dir st @ ''/'' @ (if storage_use_partitions st then p_partlabel p else p_actual p))"

text \<open>Opening the partition's file for the free handle \<open>i\<close>.\<close>

definition open_handle :: "'w sys \<Rightarrow> u32 \<Rightarrow> nat \<Rightarrow> nat \<Rightarrow> 'w storage \<Rightarrow> nat option \<times> 'w storage" where
  "open_handle sys node part i st =
     (let fspath = storage_path st part;
          taken = upd_fd i (\<lambda>f. f\<lparr>rf_node := node, rf_partition := Some part\<rparr>) in
      if \<not> storage_read_only st then
        let (fd, w) = s_open sys fspath True (world st); st = st\<lparr>world := w\<rparr> in
        if fd < 0 then (None, st)
        else (Some i, taken (upd_fd i (\<lambda>f. f\<lparr>rf_fd := fd, rf_shadow_len := 0\<rparr>) st))
      else
        let (ret, st) = storage_populate_shadow_buf sys i fspath st in
        if ret < 0 then (None, st) else (Some i, taken st))"

definition storage_open :: "'w sys \<Rightarrow> u32 \<Rightarrow> string \<Rightarrow> 'w storage \<Rightarrow> nat option \<times> 'w storage" where
  "storage_open sys node path st =
     (case find_partition path of
        None \<Rightarrow> (None, st)
      | Some part \<Rightarrow>
          (case scan (\<lambda>f. in_use f \<and> rf_node f = node \<and> rf_partition f = Some part) 0 (rmtfds st) of
             Some i \<Rightarrow> (Some i, st)
           | None \<Rightarrow>
               (case scan (\<lambda>f. rf_fd f = -1 \<and> rf_shadow_buf f = None) 0 (rmtfds st) of
                  None \<Rightarrow> (None, st)
                | Some i \<Rightarrow> open_handle sys node part i st)))"

definition storage_close :: "'w sys \<Rightarrow> nat \<Rightarrow> 'w storage \<Rightarrow> 'w storage" where
  "storage_close sys i st =
     (let fd = rf_fd (rmtfds st ! i);
          st = (if fd \<ge> 0 then upd_fd i (\<lambda>f. f\<lparr>rf_fd := -1\<rparr>) (st\<lparr>world := s_close sys fd (world st)\<rparr>) else st) in
      upd_fd i (\<lambda>f. f\<lparr>rf_shadow_buf := None, rf_shadow_len := 0, rf_partition := None\<rparr>) st)"

text \<open>
  Only the upper bound of the caller id is checked: \<open>None\<close> is an access before the start of the
  table, \<open>Some None\<close> the null pointer.
\<close>

definition storage_get :: "u32 \<Rightarrow> int \<Rightarrow> 'w storage \<Rightarrow> nat option option" where
  "storage_get node caller_id st =
     (if caller_id \<ge> int MAX_CALLERS then Some None
      else if caller_id < 0 then None
      else if rf_node (rmtfds st ! nat caller_id) \<noteq> node then Some None
      else Some (Some (nat caller_id)))"

definition storage_get_caller_id :: "nat \<Rightarrow> 'w storage \<Rightarrow> int" where
  "storage_get_caller_id i st = int (rf_id (rmtfds st ! i))"

definition storage_get_error :: "nat \<Rightarrow> 'w storage \<Rightarrow> int" where
  "storage_get_error i st = sint (rf_dev_error (rmtfds st ! i))"

definition storage_exit :: "'w sys \<Rightarrow> 'w storage \<Rightarrow> 'w storage" where
  "storage_exit sys st = fold (storage_close sys) [0..<MAX_CALLERS] st"

text \<open>
  The caller's buffer goes in and out. When \<open>pread\<close> fails, \<open>n\<close> is compared as an unsigned number
  with the size, so nothing is cleared and the buffer keeps its contents.
\<close>

definition storage_pread ::
    "'w sys \<Rightarrow> nat \<Rightarrow> u8 list \<Rightarrow> nat \<Rightarrow> nat \<Rightarrow> 'w storage \<Rightarrow> int \<times> u8 list \<times> 'w storage" where
  "storage_pread sys i buf nbyte offset st =
     (let f = rmtfds st ! i;
          ((n, bs), st) =
            (if \<not> storage_read_only st then
               let (r, w) = s_pread sys (rf_fd f) nbyte (int offset) (world st) in (r, st\<lparr>world := w\<rparr>)
             else
               let n = min (int nbyte) (int (rf_shadow_len f) - int offset) in
               if n > 0 then ((n, take (nat n) (drop offset (the (rf_shadow_buf f)))), st) else ((0, []), st));
          buf = (if n < 0 then buf
                 else put_at (put_at buf 0 bs) (nat n) (replicate (nbyte - nat n) 0)) in
      (int nbyte, buf, st))"

definition storage_pwrite :: "'w sys \<Rightarrow> nat \<Rightarrow> u8 list \<Rightarrow> nat \<Rightarrow> 'w storage \<Rightarrow> int \<times> 'w storage" where
  "storage_pwrite sys i bs offset st =
     (let f = rmtfds st ! i; new_len = offset + length bs in
      if \<not> storage_read_only st then
        let (r, w) = s_pwrite sys (rf_fd f) bs (int offset) (world st) in (r, st\<lparr>world := w\<rparr>)
      else if new_len \<ge> STORAGE_MAX_SIZE then (-1, st)
      else
        let old = (case rf_shadow_buf f of None \<Rightarrow> [] | Some b \<Rightarrow> b);
            grown =
              (if new_len > rf_shadow_len f then
                 (case s_realloc sys new_len (world st) of
                    (None, w) \<Rightarrow> (None, st\<lparr>world := w\<rparr>)
                  | (Some fresh, w) \<Rightarrow>
                      (Some (take new_len old @ drop (length old) fresh),
                       upd_fd i (\<lambda>f. f\<lparr>rf_shadow_len := new_len\<rparr>) (st\<lparr>world := w\<rparr>)))
               else (rf_shadow_buf f, st)) in
        (case grown of
           (None, st) \<Rightarrow> if new_len > rf_shadow_len f then (-1, st) else (int (length bs), st)
         | (Some buf, st) \<Rightarrow>
             (int (length bs), upd_fd i (\<lambda>f. f\<lparr>rf_shadow_buf := Some (put_at buf offset bs)\<rparr>) st)))"

definition storage_sync :: "'w sys \<Rightarrow> nat \<Rightarrow> 'w storage \<Rightarrow> int \<times> 'w storage" where
  "storage_sync sys i st =
     (if storage_read_only st then (0, st)
      else let (r, w) = s_fdatasync sys (rf_fd (rmtfds st ! i)) (world st) in (r, st\<lparr>world := w\<rparr>))"

section \<open>Invariant\<close>

definition fd_ok :: "bool \<Rightarrow> nat \<Rightarrow> rmtfd \<Rightarrow> bool" where
  "fd_ok ro i f \<longleftrightarrow> rf_id f = i \<and> -1 \<le> rf_fd f \<and> (if ro then rf_fd f = -1 else rf_shadow_buf f = None) \<and>
     (case rf_shadow_buf f of None \<Rightarrow> rf_shadow_len f = 0 | Some b \<Rightarrow> rf_shadow_len f \<le> length b) \<and>
     (rf_partition f \<noteq> None \<longrightarrow> in_use f)"

definition same_file :: "rmtfd \<Rightarrow> rmtfd \<Rightarrow> bool" where
  "same_file f g \<longleftrightarrow> rf_partition f \<noteq> None \<and> rf_partition f = rf_partition g \<and> rf_node f = rf_node g"

definition storage_inv :: "'w storage \<Rightarrow> bool" where
  "storage_inv st \<longleftrightarrow> length (rmtfds st) = MAX_CALLERS \<and>
     (\<forall>i<MAX_CALLERS. fd_ok (storage_read_only st) i (rmtfds st ! i)) \<and>
     (\<forall>i<MAX_CALLERS. \<forall>j<MAX_CALLERS. i \<noteq> j \<longrightarrow> \<not> same_file (rmtfds st ! i) (rmtfds st ! j))"

lemma scan_Some:
  "scan P i xs = Some k \<Longrightarrow> i \<le> k \<and> k < i + length xs \<and> P (xs ! (k - i))"
proof (induction xs arbitrary: i)
  case (Cons x xs)
  show ?case
  proof (cases "P x")
    case False
    then have "Suc i \<le> k \<and> k < Suc i + length xs \<and> P (xs ! (k - Suc i))" using Cons.IH [of "Suc i"] Cons.prems by simp
    moreover from this have "k - i = Suc (k - Suc i)" by linarith
    ultimately show ?thesis by simp
  qed (use Cons.prems in simp)
qed simp

lemma scan_None: "scan P i xs = None \<longleftrightarrow> (\<forall>x \<in> set xs. \<not> P x)"
  by (induction xs arbitrary: i) auto

lemma scan_first:
  "k < length xs \<Longrightarrow> P (xs ! k) \<Longrightarrow> \<forall>j<k. \<not> P (xs ! j) \<Longrightarrow> scan P i xs = Some (i + k)"
proof (induction xs arbitrary: i k)
  case (Cons x xs)
  then show ?case
  proof (cases k)
    case (Suc n)
    have "\<forall>j<n. \<not> P (xs ! j)" using Cons.prems(3) Suc by (metis Suc_mono nth_Cons_Suc)
    moreover have "\<not> P x" using Cons.prems(3) Suc by fastforce
    ultimately show ?thesis using Cons.IH [of n "Suc i"] Cons.prems(1,2) Suc by simp
  qed simp
qed simp

lemma upd_fd_simps [simp]:
  "storage_read_only (upd_fd i g st) = storage_read_only st" "world (upd_fd i g st) = world st"
  "length (rmtfds (upd_fd i g st)) = length (rmtfds st)"
  "i < length (rmtfds st) \<Longrightarrow> rmtfds (upd_fd i g st) ! i = g (rmtfds st ! i)"
  "j \<noteq> i \<Longrightarrow> rmtfds (upd_fd i g st) ! j = rmtfds st ! j"
  by (simp_all add: upd_fd_def)

lemma same_file_sym: "same_file f g \<longleftrightarrow> same_file g f"
  by (auto simp: same_file_def)

lemma inv_length: "storage_inv st \<Longrightarrow> length (rmtfds st) = MAX_CALLERS"
  by (simp add: storage_inv_def)

lemma inv_fd: "storage_inv st \<Longrightarrow> i < MAX_CALLERS \<Longrightarrow> fd_ok (storage_read_only st) i (rmtfds st ! i)"
  by (simp add: storage_inv_def)

lemma inv_world [simp]: "storage_inv (st\<lparr>world := w\<rparr>) = storage_inv st"
  by (simp add: storage_inv_def)

lemma upd_fd_inv:
  assumes "storage_inv st" "i < MAX_CALLERS" "fd_ok (storage_read_only st) i (g (rmtfds st ! i))"
    and apart: "\<And>j. j < MAX_CALLERS \<Longrightarrow> j \<noteq> i \<Longrightarrow> \<not> same_file (g (rmtfds st ! i)) (rmtfds st ! j)"
  shows "storage_inv (upd_fd i g st)"
proof -
  have nth: "rmtfds (upd_fd i g st) ! j = (if j = i then g (rmtfds st ! i) else rmtfds st ! j)" for j
    using assms(1,2) by (auto simp: inv_length)
  have "\<not> same_file (rmtfds st ! j) (g (rmtfds st ! i))" if "j < MAX_CALLERS" "j \<noteq> i" for j
    using apart [OF that] same_file_sym by blast
  with assms show ?thesis by (auto simp: storage_inv_def nth)
qed

lemma upd_fd_keeps:
  assumes "storage_inv st" "i < MAX_CALLERS" "fd_ok (storage_read_only st) i (g (rmtfds st ! i))"
    and "rf_partition (g (rmtfds st ! i)) = rf_partition (rmtfds st ! i) \<or> rf_partition (g (rmtfds st ! i)) = None"
      "rf_node (g (rmtfds st ! i)) = rf_node (rmtfds st ! i)"
  shows "storage_inv (upd_fd i g st)"
proof (rule upd_fd_inv [where g = g, OF assms(1-3)])
  fix j assume "j < MAX_CALLERS" "j \<noteq> i"
  then have "\<not> same_file (rmtfds st ! i) (rmtfds st ! j)" using assms(1,2) by (simp add: storage_inv_def)
  then show "\<not> same_file (g (rmtfds st ! i)) (rmtfds st ! j)" using assms(4,5) by (auto simp: same_file_def)
qed

lemma init_inv: "storage_inv (storage_init root ro parts (static_storage w))"
  by (simp add: storage_inv_def storage_init_def static_storage_def zero_rmtfd_def fd_ok_def same_file_def in_use_def)

lemma length_put_at [simp]: "off + length bs \<le> length buf \<Longrightarrow> length (put_at buf off bs) = length buf"
  by (simp add: put_at_def)

lemma close_inv:
  assumes "storage_inv st" "i < MAX_CALLERS"
  shows "storage_inv (storage_close sys i st)"
proof -
  let ?st = "if rf_fd (rmtfds st ! i) \<ge> 0
    then upd_fd i (\<lambda>f. f\<lparr>rf_fd := -1\<rparr>) (st\<lparr>world := s_close sys (rf_fd (rmtfds st ! i)) (world st)\<rparr>) else st"
  let ?f = "rmtfds st ! i" and ?g = "\<lambda>f. f\<lparr>rf_shadow_buf := None, rf_shadow_len := 0, rf_partition := None\<rparr>"
  have "storage_close sys i st =
      upd_fd i (\<lambda>f. ?g (if rf_fd ?f \<ge> 0 then f\<lparr>rf_fd := -1\<rparr> else f))
        (if rf_fd ?f \<ge> 0 then st\<lparr>world := s_close sys (rf_fd ?f) (world st)\<rparr> else st)"
    using assms inv_length [OF assms(1)] by (simp add: storage_close_def Let_def upd_fd_def)
  moreover have "fd_ok (storage_read_only st) i (?g (if rf_fd ?f \<ge> 0 then ?f\<lparr>rf_fd := -1\<rparr> else ?f))"
    using inv_fd [OF assms] by (auto simp: fd_ok_def)
  ultimately show ?thesis using assms by (auto intro!: upd_fd_keeps)
qed

text \<open>What loading a file does to the table.\<close>

lemma populate_cases:
  assumes "sys_ok sys" "storage_populate_shadow_buf sys i file st = (ret, st')"
  obtains (failed) w where "ret < 0" "st' = st\<lparr>world := w\<rparr>"
  | (loaded) w buf n where "ret = 0" "n \<le> length buf"
      "st' = (upd_fd i (\<lambda>f. f\<lparr>rf_shadow_buf := Some buf, rf_shadow_len := n\<rparr>) st)\<lparr>world := w\<rparr>"
proof -
  have read: "r \<le> int k \<and> length bs = nat r" if "s_read sys fd k w = ((r, bs), w')" for fd k r bs w w'
    using assms(1) that unfolding sys_ok_def Let_def by (metis (mono_tags, lifting) case_prod_conv)
  have "\<exists>w. st' = st\<lparr>world := w\<rparr>" if "ret < 0"
    using assms(2) that by (auto simp: storage_populate_shadow_buf_def Let_def split: prod.splits if_splits)
  moreover have "ret = 0 \<and> (\<exists>w buf n.
      st' = (upd_fd i (\<lambda>f. f\<lparr>rf_shadow_buf := Some buf, rf_shadow_len := n\<rparr>) st)\<lparr>world := w\<rparr> \<and> n \<le> length buf)"
    if "\<not> ret < 0"
    using assms(2) that
    by (auto simp: storage_populate_shadow_buf_def Let_def split: prod.splits if_splits dest!: read
        intro!: exI conjI)
  ultimately show ?thesis using failed loaded by metis
qed

lemma opened_inv:
  assumes inv: "storage_inv st" and i: "i < MAX_CALLERS" and f: "fd_ok (storage_read_only st) i f" "in_use f"
    and new: "\<And>j. j < MAX_CALLERS \<Longrightarrow> j \<noteq> i \<Longrightarrow>
      \<not> (rf_node (rmtfds st ! j) = node \<and> rf_partition (rmtfds st ! j) = Some part)"
  shows "storage_inv (upd_fd i (\<lambda>_. f\<lparr>rf_node := node, rf_partition := Some part\<rparr>) st)"
proof (rule upd_fd_inv [OF inv i])
  show "fd_ok (storage_read_only st) i (f\<lparr>rf_node := node, rf_partition := Some part\<rparr>)"
    using f by (auto simp: fd_ok_def in_use_def split: option.splits)
qed (use new in \<open>fastforce simp: same_file_def\<close>)

lemma open_handle_cases:
  assumes sys: "sys_ok sys" and r: "open_handle sys node part i st = (r, st')"
    and i: "i < length (rmtfds st)" "\<not> in_use (rmtfds st ! i)" "fd_ok (storage_read_only st) i (rmtfds st ! i)"
  shows "(\<exists>w. r = None \<and> st' = st\<lparr>world := w\<rparr>) \<or>
    (\<exists>f w. r = Some i \<and> fd_ok (storage_read_only st) i f \<and> in_use f \<and>
       st' = (upd_fd i (\<lambda>_. f\<lparr>rf_node := node, rf_partition := Some part\<rparr>) st)\<lparr>world := w\<rparr>)"
    (is "?refused \<or> (\<exists>f w. ?opened f w)")
proof (cases "storage_read_only st")
  case False
  obtain fd w where fd: "s_open sys (storage_path st part) True (world st) = (fd, w)" by fastforce
  have "?opened ((rmtfds st ! i)\<lparr>rf_fd := fd, rf_shadow_len := 0\<rparr>) w" if "\<not> fd < 0"
    using r False fd i that by (auto simp: open_handle_def upd_fd_def fd_ok_def in_use_def)
  moreover have ?refused if "fd < 0" using r False fd that by (auto simp: open_handle_def)
  ultimately show ?thesis by blast
next
  case True
  obtain ret st1 where pop: "storage_populate_shadow_buf sys i (storage_path st part) st = (ret, st1)" by fastforce
  from sys pop show ?thesis
  proof (cases rule: populate_cases)
    case (failed w)
    then have ?refused using r True pop by (auto simp: open_handle_def)
    then show ?thesis by blast
  next
    case (loaded w buf n)
    then have "?opened ((rmtfds st ! i)\<lparr>rf_shadow_buf := Some buf, rf_shadow_len := n\<rparr>) w"
      using r True pop i by (auto simp: open_handle_def upd_fd_def fd_ok_def in_use_def)
    then show ?thesis by blast
  qed
qed

lemma open_cases:
  assumes sys: "sys_ok sys" and inv: "storage_inv st" and r: "storage_open sys node path st = (r, st')"
  obtains (refused) w where "r = None" "st' = st\<lparr>world := w\<rparr>"
  | (shared) part i where "r = Some i" "st' = st" "i < MAX_CALLERS" "find_partition path = Some part"
      "in_use (rmtfds st ! i)" "rf_node (rmtfds st ! i) = node" "rf_partition (rmtfds st ! i) = Some part"
  | (fresh) part i f w where "r = Some i" "i < MAX_CALLERS" "find_partition path = Some part"
      "fd_ok (storage_read_only st) i f" "in_use f" "\<not> in_use (rmtfds st ! i)"
      "\<And>j. j < MAX_CALLERS \<Longrightarrow> \<not> (rf_node (rmtfds st ! j) = node \<and> rf_partition (rmtfds st ! j) = Some part)"
      "st' = (upd_fd i (\<lambda>_. f\<lparr>rf_node := node, rf_partition := Some part\<rparr>) st)\<lparr>world := w\<rparr>"
proof -
  let ?held = "\<lambda>p f. in_use f \<and> rf_node f = node \<and> rf_partition f = Some p"
  let ?free = "\<lambda>f. rf_fd f = -1 \<and> rf_shadow_buf f = None"
  have len: "length (rmtfds st) = MAX_CALLERS" using inv by (rule inv_length)
  show thesis
  proof (cases "find_partition path")
    case None
    then have "r = None" "st' = st\<lparr>world := world st\<rparr>" using r by (simp_all add: storage_open_def)
    then show thesis by (rule refused)
  next
    case p: (Some p)
    show thesis
    proof (cases "scan (?held p) 0 (rmtfds st)")
      case (Some i)
      then have "r = Some i" "st' = st" using r p by (simp_all add: storage_open_def)
      moreover have "i < MAX_CALLERS" "?held p (rmtfds st ! i)" using scan_Some [OF Some] len by simp_all
      ultimately show thesis using p shared by blast
    next
      case nobody: None
      have new: "\<not> (rf_node (rmtfds st ! j) = node \<and> rf_partition (rmtfds st ! j) = Some p)" if "j < MAX_CALLERS" for j
        using nobody that len inv_fd [OF inv that] by (auto simp: scan_None fd_ok_def)
      show thesis
      proof (cases "scan ?free 0 (rmtfds st)")
        case None
        then have "r = None" "st' = st\<lparr>world := world st\<rparr>" using r p nobody by (simp_all add: storage_open_def)
        then show thesis by (rule refused)
      next
        case (Some i)
        then have h: "open_handle sys node p i st = (r, st')" using r p nobody by (simp add: storage_open_def)
        have i: "i < MAX_CALLERS" "\<not> in_use (rmtfds st ! i)" using scan_Some [OF Some] len by (auto simp: in_use_def)
        have "i < length (rmtfds st)" using i(1) len by simp
        from open_handle_cases [OF sys h this i(2) inv_fd [OF inv i(1)]] show thesis
          using refused fresh [OF _ i(1) p _ _ i(2) new] by blast
      qed
    qed
  qed
qed

lemma open_inv:
  assumes "sys_ok sys" "storage_inv st" "storage_open sys node path st = (r, st')"
  shows "storage_inv st'"
  using assms
proof (cases rule: open_cases)
  case (fresh part i f w)
  have "storage_inv (upd_fd i (\<lambda>_. f\<lparr>rf_node := node, rf_partition := Some part\<rparr>) st)"
    using assms(2) fresh(2,4,5,7) by (rule opened_inv)
  then show ?thesis using fresh(8) by simp
qed (use assms(2) in auto)

text \<open>What a write does in read-only mode.\<close>

lemma shadow_write_cases:
  assumes sys: "sys_ok sys" and inv: "storage_inv st" and ro: "storage_read_only st" and i: "i < MAX_CALLERS"
    and r: "storage_pwrite sys i bs off st = (n, st')"
  obtains (refused) w where "n = -1" "st' = st\<lparr>world := w\<rparr>"
  | (empty) "bs = []" "n = 0" "st' = st"
  | (stored) buf w where "n = int (length bs)" "off + length bs \<le> length buf"
      "w = world st \<or> w = snd (s_realloc sys (off + length bs) (world st))"
      "\<And>k. k < rf_shadow_len (rmtfds st ! i) \<Longrightarrow> buf ! k = the (rf_shadow_buf (rmtfds st ! i)) ! k"
      "max (rf_shadow_len (rmtfds st ! i)) (off + length bs) \<le> length buf"
      "st' = (upd_fd i (\<lambda>f. f\<lparr>rf_shadow_buf := Some (put_at buf off bs),
         rf_shadow_len := max (rf_shadow_len f) (off + length bs)\<rparr>) st)\<lparr>world := w\<rparr>"
proof -
  define f where "f = rmtfds st ! i"
  define new_len where "new_len = off + length bs"
  have ok: "fd_ok True i f" using inv_fd [OF inv i] ro by (simp add: f_def)
  have realloc: "length fresh = k" if "s_realloc sys k w = (Some fresh, w')" for k w fresh w'
    using sys that unfolding sys_ok_def by blast
  have len: "i < length (rmtfds st)" using inv_length [OF inv] i by simp
  consider (big) "new_len \<ge> STORAGE_MAX_SIZE"
    | (keep) "\<not> new_len \<ge> STORAGE_MAX_SIZE" "new_len \<le> rf_shadow_len f"
    | (grow) "\<not> new_len \<ge> STORAGE_MAX_SIZE" "new_len > rf_shadow_len f" by linarith
  then show thesis
  proof cases
    case big
    then have "n = -1" "st' = st\<lparr>world := world st\<rparr>"
      using r ro by (simp_all add: storage_pwrite_def Let_def new_len_def)
    then show thesis by (rule refused)
  next
    case keep
    show thesis
    proof (cases "rf_shadow_buf f")
      case None
      then have "new_len = 0" using ok keep by (simp add: fd_ok_def)
      then have "bs = []" "n = 0" "st' = st"
        using r ro None by (simp_all add: storage_pwrite_def Let_def new_len_def f_def)
      then show thesis by (rule empty)
    next
      case (Some buf)
      then have le: "rf_shadow_len f \<le> length buf" using ok by (simp add: fd_ok_def)
      have "n = int (length bs)" "st' = upd_fd i (\<lambda>f. f\<lparr>rf_shadow_buf := Some (put_at buf off bs)\<rparr>) st"
        using r ro keep Some by (simp_all add: storage_pwrite_def Let_def new_len_def f_def)
      moreover have "max (rf_shadow_len f) (off + length bs) = rf_shadow_len f" using keep by (simp add: new_len_def)
      ultimately show thesis
        using stored [of buf "world st"] keep le Some len
        by (simp add: new_len_def f_def upd_fd_def)
    qed
  next
    case grow
    define old where "old = (case rf_shadow_buf f of None \<Rightarrow> [] | Some b \<Rightarrow> b)"
    have le: "rf_shadow_len f \<le> length old" "\<And>b. rf_shadow_buf f = Some b \<Longrightarrow> old = b"
      using ok by (auto simp: fd_ok_def old_def split: option.splits)
    obtain a w where a: "s_realloc sys new_len (world st) = (a, w)" by fastforce
    show thesis
    proof (cases a)
      case None
      then have "n = -1" "st' = st\<lparr>world := w\<rparr>"
        using r ro grow a by (simp_all add: storage_pwrite_def Let_def new_len_def f_def)
      then show thesis by (rule refused)
    next
      case (Some fresh)
      define buf where "buf = take new_len old @ drop (length old) fresh"
      have fresh: "length fresh = new_len" using a Some realloc by blast
      have "n = int (length bs)"
        "st' = upd_fd i (\<lambda>f. f\<lparr>rf_shadow_buf := Some (put_at buf off bs)\<rparr>)
           (upd_fd i (\<lambda>f. f\<lparr>rf_shadow_len := new_len\<rparr>) (st\<lparr>world := w\<rparr>))"
        using r ro grow a Some by (simp_all add: storage_pwrite_def Let_def new_len_def f_def old_def buf_def)
      moreover have "length buf = new_len" using fresh by (simp add: buf_def)
      moreover have "buf ! k = the (rf_shadow_buf f) ! k" if "k < rf_shadow_len f" for k
      proof -
        have "rf_shadow_buf f \<noteq> None" using that ok by (cases "rf_shadow_buf f") (simp_all add: fd_ok_def)
        then have "old = the (rf_shadow_buf f)" using le(2) by auto
        then show ?thesis using that le(1) grow by (simp add: buf_def nth_append)
      qed
      moreover have "st\<lparr>world := w, rmtfds := x\<rparr> = st\<lparr>rmtfds := x, world := w\<rparr>" for x by simp
      moreover have "g\<lparr>rf_shadow_len := x, rf_shadow_buf := y\<rparr> = g\<lparr>rf_shadow_buf := y, rf_shadow_len := x\<rparr>"
        for g :: rmtfd and x y
        by simp
      ultimately show thesis
        using stored [of buf w] grow a len by (simp add: new_len_def f_def upd_fd_def max_def)
    qed
  qed
qed

lemma pwrite_inv:
  assumes "sys_ok sys" "storage_inv st" "i < MAX_CALLERS" "storage_pwrite sys i bs off st = (n, st')"
  shows "storage_inv st'"
proof (cases "storage_read_only st")
  case False
  then show ?thesis using assms(2,4) by (auto simp: storage_pwrite_def split: prod.splits)
next
  case True
  from assms(1,2) True assms(3,4) show ?thesis
  proof (cases rule: shadow_write_cases)
    case (stored buf w)
    let ?g = "\<lambda>f. f\<lparr>rf_shadow_buf := Some (put_at buf off bs),
      rf_shadow_len := max (rf_shadow_len f) (off + length bs)\<rparr>"
    have "fd_ok (storage_read_only st) i (?g (rmtfds st ! i))"
      using inv_fd [OF assms(2,3)] True stored(2,5) by (auto simp: fd_ok_def in_use_def)
    then have "storage_inv (upd_fd i ?g st)" using assms(2,3) by (intro upd_fd_keeps) simp_all
    then show ?thesis using stored(6) by simp
  qed (use assms(2) in auto)
qed

lemma pread_state:
  "storage_pread sys i buf n off st = (r, buf', st') \<Longrightarrow> \<exists>w. st' = st\<lparr>world := w\<rparr>"
  by (auto simp: storage_pread_def Let_def split: prod.splits if_splits intro: exI [of _ "world st"])

lemma sync_state: "storage_sync sys i st = (r, st') \<Longrightarrow> \<exists>w. st' = st\<lparr>world := w\<rparr>"
  by (auto simp: storage_sync_def split: prod.splits if_splits intro: exI [of _ "world st"])

section \<open>Every reachable handle table\<close>

inductive storage_step :: "'w storage \<Rightarrow> 'w storage \<Rightarrow> bool" where
  step_open: "sys_ok sys \<Longrightarrow> storage_open sys node path st = (r, st') \<Longrightarrow> storage_step st st'"
| step_close: "i < MAX_CALLERS \<Longrightarrow> storage_step st (storage_close sys i st)"
| step_pread: "storage_pread sys i buf n off st = (r, buf', st') \<Longrightarrow> storage_step st st'"
| step_pwrite: "sys_ok sys \<Longrightarrow> i < MAX_CALLERS \<Longrightarrow> storage_pwrite sys i bs off st = (r, st') \<Longrightarrow> storage_step st st'"
| step_sync: "storage_sync sys i st = (r, st') \<Longrightarrow> storage_step st st'"
| step_world: "storage_step st (st\<lparr>world := w\<rparr>)"

definition storage_start :: "'w storage \<Rightarrow> bool" where
  "storage_start st \<longleftrightarrow> (\<exists>root ro parts w. st = storage_init root ro parts (static_storage w))"

interpretation store: invariant_system storage_start storage_step storage_inv
proof
  show "storage_inv s" if "storage_start s" for s :: "'w storage"
    using that init_inv by (auto simp: storage_start_def)
  show "storage_inv t" if "storage_inv s" "storage_step s t" for s t :: "'w storage"
    using that(2,1)
  proof cases
    case step_open
    then show ?thesis using that(1) open_inv by blast
  next
    case step_pwrite
    then show ?thesis using that(1) pwrite_inv by blast
  next
    case step_pread
    then show ?thesis using that(1) pread_state inv_world by metis
  next
    case step_sync
    then show ?thesis using that(1) sync_state inv_world by metis
  next
    case step_world
    then show ?thesis using that(1) by simp
  qed (use that(1) close_inv in auto)
qed

lemma held_unique:
  assumes inv: "storage_inv st" and i: "i < MAX_CALLERS" "in_use (rmtfds st ! i)"
    and f: "rf_node (rmtfds st ! i) = node" "rf_partition (rmtfds st ! i) = Some part" "find_partition path = Some part"
  shows "storage_open sys node path st = (Some i, st)"
proof -
  have "\<not> (rf_node (rmtfds st ! j) = node \<and> rf_partition (rmtfds st ! j) = Some part)" if "j < i" for j
  proof -
    have "\<not> same_file (rmtfds st ! j) (rmtfds st ! i)" using inv i(1) that unfolding storage_inv_def by auto
    then show ?thesis using f(1,2) by (auto simp: same_file_def)
  qed
  then have "scan (\<lambda>f. in_use f \<and> rf_node f = node \<and> rf_partition f = Some part) 0 (rmtfds st) = Some (0 + i)"
    using i f inv_length [OF inv] by (intro scan_first) auto
  then show ?thesis using f(3) by (simp add: storage_open_def)
qed

text \<open>
  C27. A handle that the store gives to a node is the node's own: its caller id is its
  index, looking the id up for that node gives it back, opening the same path again gives the same
  handle without another open, no other handle stands for the same partition and node, and the handles
  of the others are not touched.
\<close>

theorem storage_handles:
  assumes reach: "store.reach st" and sys: "sys_ok sys"
    and r: "storage_open sys node path st = (Some i, st')"
  shows "i < MAX_CALLERS \<and> storage_get_caller_id i st' = int i \<and> storage_get node (int i) st' = Some (Some i) \<and>
    storage_open sys' node path st' = (Some i, st') \<and>
    (\<forall>j<MAX_CALLERS. j \<noteq> i \<longrightarrow> rmtfds st' ! j = rmtfds st ! j \<and> \<not> same_file (rmtfds st' ! i) (rmtfds st' ! j))"
proof -
  have inv: "storage_inv st" using reach by (rule store.reach_inv)
  have inv': "storage_inv st'" using sys inv r by (rule open_inv)
  obtain part where i: "i < MAX_CALLERS" "find_partition path = Some part" "in_use (rmtfds st' ! i)"
      "rf_node (rmtfds st' ! i) = node" "rf_partition (rmtfds st' ! i) = Some part"
    and other: "\<And>j. j \<noteq> i \<Longrightarrow> rmtfds st' ! j = rmtfds st ! j"
    using sys inv r
  proof (cases rule: open_cases)
    case (fresh part k f w)
    then show thesis using that [of part] inv_length [OF inv] by (auto simp: in_use_def)
  qed (use that in auto)
  have "rf_id (rmtfds st' ! i) = i" using inv_fd [OF inv' i(1)] by (simp add: fd_ok_def)
  moreover have "storage_get node (int i) st' = Some (Some i)" using i(1,4) by (simp add: storage_get_def)
  moreover have "\<not> same_file (rmtfds st' ! i) (rmtfds st' ! j)" if "j < MAX_CALLERS" "j \<noteq> i" for j
    using inv' i(1) that unfolding storage_inv_def by auto
  ultimately show ?thesis
    using i(1) other held_unique [OF inv' i(1,3,4,5,2)] by (simp add: storage_get_caller_id_def)
qed

text \<open>A system without files that refuses nothing.\<close>

definition sample_sys :: "unit sys" where
  "sample_sys = \<lparr>s_open = \<lambda>_ _ w. (3, w), s_close = \<lambda>_ w. w, s_lseek = \<lambda>_ _ w. (4, w),
     s_read = \<lambda>_ n w. ((int n, replicate n 9), w), s_pread = \<lambda>_ n _ w. ((int n, replicate n 9), w),
     s_pwrite = \<lambda>_ bs _ w. (int (length bs), w), s_fdatasync = \<lambda>_ w. (0, w), s_calloc = \<lambda>_ w. (True, w),
     s_realloc = \<lambda>n w. (Some (replicate n 0), w)\<rparr>"

lemma sample_sys_ok: "sys_ok sample_sys"
  by (simp add: sys_ok_def sample_sys_def)

definition sample_storage :: "bool \<Rightarrow> unit storage" where
  "sample_storage ro = storage_init None ro False (static_storage ())"

lemma sample_storage_reach: "store.reach (sample_storage ro)"
  by (rule store.reach_init) (auto simp: storage_start_def sample_storage_def)

lemma sample_open: "\<exists>st'. storage_open sample_sys 5 ''/boot/modem_fs2'' (sample_storage ro) = (Some 0, st')"
  by (simp add: storage_open_def open_handle_def find_partition_def partition_table_def sample_storage_def
      storage_init_def static_storage_def in_use_def upt_rec sample_sys_def storage_populate_shadow_buf_def Let_def)

theorem storage_handles_witness:
  "\<exists>st'. storage_open sample_sys 5 ''/boot/modem_fs2'' (sample_storage False) = (Some 0, st') \<and>
     storage_open sample_sys 5 ''/boot/modem_fs2'' st' = (Some 0, st')"
  using sample_open [of False] storage_handles [OF sample_storage_reach sample_sys_ok] by blast

section \<open>Read-only mode\<close>

lemma shadow_pread:
  assumes "storage_read_only st" "off + length buf \<le> rf_shadow_len (rmtfds st ! i)"
    and "rf_shadow_len (rmtfds st ! i) \<le> length b" "rf_shadow_buf (rmtfds st ! i) = Some b"
  shows "storage_pread sys i buf (length buf) off st = (int (length buf), take (length buf) (drop off b), st)"
proof -
  have "min (int (length buf)) (int (rf_shadow_len (rmtfds st ! i)) - int off) = int (length buf)"
    using assms(2) by linarith
  moreover have "length (take (length buf) (drop off b)) = length buf" using assms(2,3) by simp
  moreover have "off < rf_shadow_len (rmtfds st ! i)" if "buf \<noteq> []"
    using assms(2) that by (cases buf) simp_all
  ultimately show ?thesis using assms(1,4) by (cases "buf = []") (simp_all add: storage_pread_def put_at_def Let_def)
qed

lemma pwrite_world:
  assumes "storage_read_only st" "storage_pwrite sys i bs off st = (n, st')"
  shows "world st' = world st \<or> world st' = snd (s_realloc sys (off + length bs) (world st))"
proof (cases "s_realloc sys (off + length bs) (world st)")
  case (Pair a w)
  then show ?thesis
    using assms by (cases a; cases "rf_shadow_buf (rmtfds st ! i)") (auto simp: storage_pwrite_def Let_def split: if_splits)
qed

lemma take_drop_put_at:
  "off + length bs \<le> length buf \<Longrightarrow> take (length bs) (drop off (put_at buf off bs)) = bs"
  by (simp add: put_at_def)

lemma take_drop_put_at_other:
  assumes "off + length bs \<le> length buf" "o' + m \<le> length buf" "o' + m \<le> off \<or> off + length bs \<le> o'"
  shows "take m (drop o' (put_at buf off bs)) = take m (drop o' buf)"
proof (cases "o' + m \<le> off")
  case True
  then have "take m (drop o' (put_at buf off bs)) = take m (drop o' (take off buf))"
    using assms(1) by (simp add: put_at_def)
  also have "\<dots> = take m (drop o' buf)" using True by (simp add: drop_take min_def)
  finally show ?thesis .
next
  case False
  then show ?thesis using assms by (simp add: put_at_def)
qed



text \<open>
  The lookup by caller id does not ask whether the handle is open. A node
  keeps access to the handle it has closed, a node with the number zero has access to every handle that
  was never opened, and a caller id of \<open>2\<^sup>3\<^sup>1\<close> or more is negative as an \<open>int\<close> and is looked up before the
  start of the table.
\<close>

theorem storage_stale_handle:
  assumes reach: "store.reach st" and i: "i < MAX_CALLERS"
  shows "storage_get (rf_node (rmtfds st ! i)) (int i) (storage_close sys i st) = Some (Some i) \<and>
    \<not> in_use (rmtfds (storage_close sys i st) ! i) \<and>
    storage_get 0 (int i) (storage_init root ro parts (static_storage w)) = Some (Some i) \<and>
    storage_get node (sint (0x80000000 :: u32)) st = None"
proof -
  have inv: "storage_inv st" using reach by (rule store.reach_inv)
  have len: "i < length (rmtfds st)" using inv_length [OF inv] i by simp
  then have f: "rmtfds (storage_close sys i st) ! i =
      (rmtfds st ! i)\<lparr>rf_fd := (if rf_fd (rmtfds st ! i) \<ge> 0 then -1 else rf_fd (rmtfds st ! i)),
         rf_shadow_buf := None, rf_shadow_len := 0, rf_partition := None\<rparr>"
    by (simp add: storage_close_def Let_def)
  have "\<not> in_use (rmtfds (storage_close sys i st) ! i)"
    using inv_fd [OF inv i] by (auto simp: f in_use_def fd_ok_def)
  moreover have "rf_node (rmtfds (storage_init root ro parts (static_storage w)) ! i) = 0"
    using i by (simp add: storage_init_def static_storage_def zero_rmtfd_def)
  ultimately show ?thesis using i by (simp add: storage_get_def f)
qed

theorem storage_stale_handle_witness:
  "storage_get 0 3 (storage_close sample_sys 3 (sample_storage False)) = Some (Some 3)"
proof -
  have "rf_node (rmtfds (sample_storage False) ! 3) = 0"
    by (simp add: sample_storage_def storage_init_def static_storage_def zero_rmtfd_def)
  then show ?thesis
    using storage_stale_handle [OF sample_storage_reach [of False], of 3 sample_sys None False False "()" 0] by simp
qed

end
