(* ===== verification/Rmtfs.thy ===== *)
theory Rmtfs
  imports Messages Storage
begin

text \<open>
  The remote file system server: the memory it shares with the modem (\<open>rmtfs/sharedmem.c\<close>) and the
  request handlers and main loop of \<open>rmtfs/rmtfs.c\<close>, over the message tables and the partition store.

  A handler takes the environment of one call: the system, the result of \<open>sendto\<close>, and what the
  uninitialised local variables happen to hold. Its result is \<open>None\<close> when it follows a null or
  wild pointer, otherwise the new state and the system calls made on the socket.
\<close>

section \<open>Shared memory\<close>

text \<open>
  The memory is either mapped, and then \<open>m_base\<close> is what the mapping holds, or accessed with
  \<open>pread\<close> and \<open>pwrite\<close> on \<open>m_fd\<close>.
\<close>

record rmtfs_mem =
  m_address :: u64
  m_size :: u64
  m_base :: "mem option"
  m_fd :: int

definition rmtfs_mem_alloc :: "rmtfs_mem \<Rightarrow> u64 \<Rightarrow> int" where
  "rmtfs_mem_alloc rm alloc_size = (if alloc_size > m_size rm then - EINVAL else sint (m_address rm))"

text \<open>The offset into the mapping, or \<open>None\<close> for the null pointer.\<close>

definition rmtfs_mem_ptr :: "rmtfs_mem \<Rightarrow> u64 \<Rightarrow> int \<Rightarrow> nat option" where
  "rmtfs_mem_ptr rm phys_address len =
     (if len < 0 then None
      else
        let start = phys_address; end_addr = start + word_of_int len in
        if start < m_address rm \<or> end_addr > m_address rm + m_size rm then None
        else Some (unat (phys_address - m_address rm)))"

definition rmtfs_mem_read ::
    "'w sys \<Rightarrow> rmtfs_mem \<Rightarrow> u64 \<Rightarrow> u8 list \<Rightarrow> nat \<Rightarrow> 'w \<Rightarrow> int \<times> u8 list \<times> 'w" where
  "rmtfs_mem_read sys rm phys_address buf len w =
     (case m_base rm of
        Some m \<Rightarrow>
          (case rmtfs_mem_ptr rm phys_address (int len) of
             None \<Rightarrow> (- EINVAL, buf, w)
           | Some p \<Rightarrow> (int len, put_at buf 0 (rd m p len), w))
      | None \<Rightarrow>
          let ((n, bs), w) = s_pread sys (m_fd rm) len (sint (phys_address - m_address rm)) w in
          (n, put_at buf 0 bs, w))"

definition rmtfs_mem_write ::
    "'w sys \<Rightarrow> rmtfs_mem \<Rightarrow> u64 \<Rightarrow> u8 list \<Rightarrow> 'w \<Rightarrow> int \<times> rmtfs_mem \<times> 'w" where
  "rmtfs_mem_write sys rm phys_address buf w =
     (case m_base rm of
        Some m \<Rightarrow>
          (case rmtfs_mem_ptr rm phys_address (int (length buf)) of
             None \<Rightarrow> (- EINVAL, rm, w)
           | Some p \<Rightarrow> (int (length buf), rm\<lparr>m_base := Some (wr m p buf)\<rparr>, w))
      | None \<Rightarrow>
          let (n, w) = s_pwrite sys (m_fd rm) buf (sint (phys_address - m_address rm)) w in
          (n, rm, w))"

section \<open>Handlers\<close>

abbreviation (input) SECTOR_SIZE :: nat where "SECTOR_SIZE \<equiv> 512"
abbreviation (input) QMI_RMTFS_RESULT_FAILURE :: u16 where "QMI_RMTFS_RESULT_FAILURE \<equiv> 1"
abbreviation (input) QMI_RMTFS_ERR_INTERNAL :: u16 where "QMI_RMTFS_ERR_INTERNAL \<equiv> 1"
abbreviation (input) QMI_RMTFS_ERR_MALFORMED_MSG :: u16 where "QMI_RMTFS_ERR_MALFORMED_MSG \<equiv> 2"
abbreviation (input) QMI_RMTFS_OPEN :: int where "QMI_RMTFS_OPEN \<equiv> 1"
abbreviation (input) QMI_RMTFS_CLOSE :: int where "QMI_RMTFS_CLOSE \<equiv> 2"
abbreviation (input) QMI_RMTFS_RW_IOVEC :: int where "QMI_RMTFS_RW_IOVEC \<equiv> 3"
abbreviation (input) QMI_RMTFS_ALLOC_BUFF :: int where "QMI_RMTFS_ALLOC_BUFF \<equiv> 4"
abbreviation (input) QMI_RMTFS_GET_DEV_ERROR :: int where "QMI_RMTFS_GET_DEV_ERROR \<equiv> 5"

record 'w rmtfs =
  r_store :: "'w storage"
  r_mem :: rmtfs_mem

record 'w rmtfs_env =
  e_sys :: "'w sys"
  e_send_rc :: int
  e_txn :: u32
  e_is_write :: bool
  e_buf :: "u8 list"
  e_resp_buf :: mem

text \<open>
  Decoding into a zeroed structure. The fuel is the one \<open>qmi_decode\<close> needs at most. The
  transaction id keeps its old value when the decoder does not store one.
\<close>

definition decode_request ::
    "'w rmtfs_env \<Rightarrow> qrtr_packet \<Rightarrow> int \<Rightarrow> qmi_elem_info list \<Rightarrow> (int \<times> u32 \<times> mem) option" where
  "decode_request env pkt mid tab =
     (case qmi_decode_message (Suc (pkt_data_len pkt + tab_size tab)) (Some (\<lambda>_. 0, 0)) pkt QMI_REQUEST mid (Some tab) of
        Some (ret, txn, Some req) \<Rightarrow> Some (ret, case txn of None \<Rightarrow> e_txn env | Some t \<Rightarrow> t, req)
      | _ \<Rightarrow> None)"

text \<open>The tail every handler has: encode the response into a buffer of 256 bytes and send it.\<close>

definition send_response ::
    "'w rmtfs_env \<Rightarrow> int \<Rightarrow> qrtr_packet \<Rightarrow> int \<Rightarrow> u32 \<Rightarrow> mem \<Rightarrow> qmi_elem_info list \<Rightarrow> syscall list option" where
  "send_response env sock pkt mid txn resp tab =
     (case qmi_encode_message
         \<lparr>pkt_type = 0, pkt_node = 0, pkt_port = 0, pkt_service = 0, pkt_instance = 0, pkt_version = 0,
          pkt_data = e_resp_buf env, pkt_data_len = 256\<rparr>
         QMI_RESPONSE mid (sint txn) (Some (resp, 0)) (Some tab) of
        None \<Rightarrow> None
      | Some (len, resp_buf) \<Rightarrow>
          if len < 0 then Some []
          else Some (snd (qrtr_sendto (e_send_rc env) sock (pkt_node pkt) (pkt_port pkt)
                 (rd (pkt_data resp_buf) 0 (pkt_data_len resp_buf)))))"

text \<open>The result is the first member of every response.\<close>

definition qmi_result_error :: "mem \<Rightarrow> u16 \<Rightarrow> mem" where
  "qmi_result_error resp err =
     (if get16 resp 0 = QMI_RMTFS_RESULT_FAILURE then resp
      else wr resp 0 (le16 QMI_RMTFS_RESULT_FAILURE @ le16 err))"

definition c_string :: "mem \<Rightarrow> nat \<Rightarrow> string option" where
  "c_string m p = map_option (\<lambda>n. map (\<lambda>b. char_of (unat b)) (rd m p n)) (strlen m p)"

definition rmtfs_open ::
    "'w rmtfs_env \<Rightarrow> int \<Rightarrow> qrtr_packet \<Rightarrow> 'w rmtfs \<Rightarrow> ('w rmtfs \<times> syscall list) option" where
  "rmtfs_open env sock pkt s =
     (case decode_request env pkt QMI_RMTFS_OPEN rmtfs_open_req_ei of
        None \<Rightarrow> None
      | Some (ret, txn, req) \<Rightarrow>
          let respond = (\<lambda>s resp. map_option (Pair s)
                (send_response env sock pkt QMI_RMTFS_OPEN txn resp rmtfs_open_resp_ei));
              resp = (\<lambda>_. 0) in
          if ret < 0 then respond s (qmi_result_error resp QMI_RMTFS_ERR_MALFORMED_MSG)
          else
            (case c_string req (offsetof rmtfs_open_req 1) of
               None \<Rightarrow> None
             | Some path \<Rightarrow>
                 (case storage_open (e_sys env) (pkt_node pkt) path (r_store s) of
                    (None, st) \<Rightarrow> respond (s\<lparr>r_store := st\<rparr>) (qmi_result_error resp QMI_RMTFS_ERR_INTERNAL)
                  | (Some rmtfd, st) \<Rightarrow>
                      respond (s\<lparr>r_store := st\<rparr>)
                        (wr (wr resp (offsetof rmtfs_open_resp 2) (le32 (word_of_int (storage_get_caller_id rmtfd st))))
                           (offsetof rmtfs_open_resp 1) [1]))))"

text \<open>A caller id is unsigned in the request and an \<open>int\<close> for the store.\<close>

definition rmtfs_close ::
    "'w rmtfs_env \<Rightarrow> int \<Rightarrow> qrtr_packet \<Rightarrow> 'w rmtfs \<Rightarrow> ('w rmtfs \<times> syscall list) option" where
  "rmtfs_close env sock pkt s =
     (case decode_request env pkt QMI_RMTFS_CLOSE rmtfs_close_req_ei of
        None \<Rightarrow> None
      | Some (ret, txn, req) \<Rightarrow>
          let respond = (\<lambda>s resp. map_option (Pair s)
                (send_response env sock pkt QMI_RMTFS_CLOSE txn resp rmtfs_close_resp_ei));
              resp = (\<lambda>_. 0) in
          if ret < 0 then respond s (qmi_result_error resp QMI_RMTFS_ERR_MALFORMED_MSG)
          else
            (case storage_get (pkt_node pkt) (sint (get32 req (offsetof rmtfs_close_req 0))) (r_store s) of
               None \<Rightarrow> None
             | Some None \<Rightarrow> respond s (qmi_result_error resp QMI_RMTFS_ERR_INTERNAL)
             | Some (Some rmtfd) \<Rightarrow>
                 respond (s\<lparr>r_store := storage_close (e_sys env) rmtfd (r_store s)\<rparr>) resp))"

record iovec_entry =
  sector_addr :: u32
  phys_offset :: u32
  num_sector :: u32

definition iovec_entry_at :: "mem \<Rightarrow> nat \<Rightarrow> iovec_entry" where
  "iovec_entry_at m p = \<lparr>sector_addr = get32 m (p + offsetof rmtfs_iovec_entry 0),
     phys_offset = get32 m (p + offsetof rmtfs_iovec_entry 1),
     num_sector = get32 m (p + offsetof rmtfs_iovec_entry 2)\<rparr>"

definition get64 :: "mem \<Rightarrow> nat \<Rightarrow> u64" where
  "get64 m p = ucast (get32 m p) OR push_bit 32 (ucast (get32 m (p + 4)))"

definition iovec_entries :: "mem \<Rightarrow> iovec_entry list" where
  "iovec_entries req =
     map (\<lambda>i. iovec_entry_at req (offsetof rmtfs_iovec_req 3 + i * sizeof rmtfs_iovec_entry))
       [0..<unat (get64 req (offsetof rmtfs_iovec_req 2))]"

text \<open>One sector. The buffer outlives the round; a short \<open>n\<close> ends the transfer.\<close>

definition iovec_sector ::
    "'w sys \<Rightarrow> bool \<Rightarrow> nat \<Rightarrow> u64 \<Rightarrow> nat \<Rightarrow> u8 list \<Rightarrow> 'w rmtfs \<Rightarrow> int \<times> u8 list \<times> 'w rmtfs" where
  "iovec_sector sys is_write rmtfd phys sector buf s =
     (if is_write then
        let (n, buf, w) = rmtfs_mem_read sys (r_mem s) phys buf SECTOR_SIZE (world (r_store s));
            s = s\<lparr>r_store := (r_store s)\<lparr>world := w\<rparr>\<rparr> in
        if n = int SECTOR_SIZE then
          let (n, st) = storage_pwrite sys rmtfd buf sector (r_store s) in (n, buf, s\<lparr>r_store := st\<rparr>)
        else (n, buf, s)
      else
        let (n, buf, st) = storage_pread sys rmtfd buf SECTOR_SIZE sector (r_store s);
            s = s\<lparr>r_store := st\<rparr> in
        if n \<ge> 0 then
          let buf = (if n < int SECTOR_SIZE then put_at buf (nat n) (replicate (SECTOR_SIZE - nat n) 0) else buf);
              (n, rm, w) = rmtfs_mem_write sys (r_mem s) phys buf (world (r_store s)) in
          (n, buf, s\<lparr>r_mem := rm, r_store := (r_store s)\<lparr>world := w\<rparr>\<rparr>)
        else (n, buf, s))"

text \<open>The sectors that are left of an entry, and the entries that are left; \<open>True\<close> when all are done.\<close>

primrec iovec_sectors ::
    "nat \<Rightarrow> 'w sys \<Rightarrow> bool \<Rightarrow> nat \<Rightarrow> u64 \<Rightarrow> nat \<Rightarrow> nat \<Rightarrow> u8 list \<Rightarrow> 'w rmtfs \<Rightarrow> bool \<times> u8 list \<times> 'w rmtfs" where
  "iovec_sectors 0 sys is_write rmtfd phys_base sector_base off buf s = (True, buf, s)"
| "iovec_sectors (Suc k) sys is_write rmtfd phys_base sector_base off buf s =
     (let (n, buf, s) = iovec_sector sys is_write rmtfd (phys_base + of_nat off) (sector_base + off) buf s in
      if n \<noteq> int SECTOR_SIZE then (False, buf, s)
      else iovec_sectors k sys is_write rmtfd phys_base sector_base (off + SECTOR_SIZE) buf s)"

text \<open>The product of sector address and sector size is a 32-bit one.\<close>

primrec iovec_loop ::
    "iovec_entry list \<Rightarrow> 'w sys \<Rightarrow> bool \<Rightarrow> nat \<Rightarrow> u8 list \<Rightarrow> 'w rmtfs \<Rightarrow> bool \<times> u8 list \<times> 'w rmtfs" where
  "iovec_loop [] sys is_write rmtfd buf s = (True, buf, s)"
| "iovec_loop (e # es) sys is_write rmtfd buf s =
     (let (ok, buf, s) = iovec_sectors (unat (num_sector e)) sys is_write rmtfd (ucast (phys_offset e))
            (unat (sector_addr e * of_nat SECTOR_SIZE)) 0 buf s in
      if ok then iovec_loop es sys is_write rmtfd buf s else (False, buf, s))"

text \<open>\<open>storage_sync\<close> on the null pointer, or on an uninitialised one, only survives in read-only mode.\<close>

definition iovec_sync :: "'w sys \<Rightarrow> bool \<Rightarrow> nat option \<Rightarrow> 'w rmtfs \<Rightarrow> 'w rmtfs option" where
  "iovec_sync sys is_write rmtfd s =
     (if is_write then
        (case rmtfd of
           None \<Rightarrow> if storage_read_only (r_store s) then Some s else None
         | Some i \<Rightarrow> Some (s\<lparr>r_store := snd (storage_sync sys i (r_store s))\<rparr>))
      else Some s)"

definition rmtfs_iovec ::
    "'w rmtfs_env \<Rightarrow> int \<Rightarrow> qrtr_packet \<Rightarrow> 'w rmtfs \<Rightarrow> ('w rmtfs \<times> syscall list) option" where
  "rmtfs_iovec env sock pkt s =
     (case decode_request env pkt QMI_RMTFS_RW_IOVEC rmtfs_iovec_req_ei of
        None \<Rightarrow> None
      | Some (ret, txn, req) \<Rightarrow>
          let respond = (\<lambda>is_write rmtfd s resp.
                case iovec_sync (e_sys env) is_write rmtfd s of
                  None \<Rightarrow> None
                | Some s \<Rightarrow> map_option (Pair s)
                    (send_response env sock pkt QMI_RMTFS_RW_IOVEC txn resp rmtfs_iovec_resp_ei));
              resp = (\<lambda>_. 0) in
          if ret < 0 then respond (e_is_write env) None s (qmi_result_error resp QMI_RMTFS_ERR_MALFORMED_MSG)
          else
            let is_write = req (offsetof rmtfs_iovec_req 1) \<noteq> 0 in
            (case storage_get (pkt_node pkt) (sint (get32 req (offsetof rmtfs_iovec_req 0))) (r_store s) of
               None \<Rightarrow> None
             | Some None \<Rightarrow> respond is_write None s (qmi_result_error resp QMI_RMTFS_ERR_INTERNAL)
             | Some (Some rmtfd) \<Rightarrow>
                 let (ok, _, s) = iovec_loop (iovec_entries req) (e_sys env) is_write rmtfd (e_buf env) s in
                 respond is_write (Some rmtfd) s
                   (if ok then resp else qmi_result_error resp QMI_RMTFS_ERR_INTERNAL)))"

definition le64 :: "u64 \<Rightarrow> u8 list" where
  "le64 w = le32 (ucast w) @ le32 (ucast (drop_bit 32 w))"

definition rmtfs_alloc_buf ::
    "'w rmtfs_env \<Rightarrow> int \<Rightarrow> qrtr_packet \<Rightarrow> 'w rmtfs \<Rightarrow> ('w rmtfs \<times> syscall list) option" where
  "rmtfs_alloc_buf env sock pkt s =
     (case decode_request env pkt QMI_RMTFS_ALLOC_BUFF rmtfs_alloc_buf_req_ei of
        None \<Rightarrow> None
      | Some (ret, txn, req) \<Rightarrow>
          let respond = (\<lambda>resp. map_option (Pair s)
                (send_response env sock pkt QMI_RMTFS_ALLOC_BUFF txn resp rmtfs_alloc_buf_resp_ei));
              resp = (\<lambda>_. 0) in
          if ret < 0 then respond (qmi_result_error resp QMI_RMTFS_ERR_MALFORMED_MSG)
          else
            let address = rmtfs_mem_alloc (r_mem s) (ucast (get32 req (offsetof rmtfs_alloc_buf_req 1))) in
            if address < 0 then respond (qmi_result_error resp QMI_RMTFS_ERR_INTERNAL)
            else respond (wr (wr resp (offsetof rmtfs_alloc_buf_resp 2) (le64 (word_of_int address)))
                   (offsetof rmtfs_alloc_buf_resp 1) [1]))"

definition rmtfs_get_dev_error ::
    "'w rmtfs_env \<Rightarrow> int \<Rightarrow> qrtr_packet \<Rightarrow> 'w rmtfs \<Rightarrow> ('w rmtfs \<times> syscall list) option" where
  "rmtfs_get_dev_error env sock pkt s =
     (case decode_request env pkt QMI_RMTFS_GET_DEV_ERROR rmtfs_dev_error_req_ei of
        None \<Rightarrow> None
      | Some (ret, txn, req) \<Rightarrow>
          let respond = (\<lambda>resp. map_option (Pair s)
                (send_response env sock pkt QMI_RMTFS_GET_DEV_ERROR txn resp rmtfs_dev_error_resp_ei));
              resp = (\<lambda>_. 0) in
          if ret < 0 then respond (qmi_result_error resp QMI_RMTFS_ERR_MALFORMED_MSG)
          else
            (case storage_get (pkt_node pkt) (sint (get32 req (offsetof rmtfs_dev_error_req 0))) (r_store s) of
               None \<Rightarrow> None
             | Some (Some rmtfd) \<Rightarrow> respond (qmi_result_error resp QMI_RMTFS_ERR_INTERNAL)
             | Some None \<Rightarrow> None))"

definition rmtfs_bye :: "u32 \<Rightarrow> int" where
  "rmtfs_bye node = 0"

definition rmtfs_del_client :: "u32 \<Rightarrow> u32 \<Rightarrow> int" where
  "rmtfs_del_client node port = 0"

text \<open>The dispatch of a data packet by its message id.\<close>

definition rmtfs_request ::
    "'w rmtfs_env \<Rightarrow> int \<Rightarrow> qrtr_packet \<Rightarrow> u32 \<Rightarrow> 'w rmtfs \<Rightarrow> ('w rmtfs \<times> syscall list) option" where
  "rmtfs_request env sock pkt msg_id s =
     (if msg_id = word_of_int QMI_RMTFS_OPEN then rmtfs_open env sock pkt s
      else if msg_id = word_of_int QMI_RMTFS_CLOSE then rmtfs_close env sock pkt s
      else if msg_id = word_of_int QMI_RMTFS_RW_IOVEC then rmtfs_iovec env sock pkt s
      else if msg_id = word_of_int QMI_RMTFS_ALLOC_BUFF then rmtfs_alloc_buf env sock pkt s
      else if msg_id = word_of_int QMI_RMTFS_GET_DEV_ERROR then rmtfs_get_dev_error env sock pkt s
      else Some (s, []))"

text \<open>What \<open>recvfrom\<close> gives: an error number, or the buffer, the length and the sender.\<close>

definition handle_rmtfs ::
    "'w rmtfs_env \<Rightarrow> int \<Rightarrow> qrtr_packet \<Rightarrow> int + (mem \<times> nat \<times> sockaddr_qrtr) \<Rightarrow> 'w rmtfs \<Rightarrow>
     (int \<times> 'w rmtfs \<times> syscall list) option" where
  "handle_rmtfs env sock pkt recv s =
     (case recv of
        Inl err \<Rightarrow> Some (- err, s, [])
      | Inr (buf, len, sq) \<Rightarrow>
          let (ret, pkt) = qrtr_decode pkt buf len sq in
          if ret < 0 then Some (ret, s, [])
          else if pkt_type pkt = QRTR_TYPE_BYE then Some (rmtfs_bye (pkt_node pkt), s, [])
          else if pkt_type pkt = QRTR_TYPE_DEL_CLIENT then
            Some (rmtfs_del_client (pkt_node pkt) (pkt_port pkt), s, [])
          else if pkt_type pkt = QRTR_TYPE_DATA then
            (case qmi_decode_header pkt of
               (ret, Some msg_id) \<Rightarrow>
                 if ret < 0 then Some (ret, s, [])
                 else map_option (Pair 0) (rmtfs_request env sock pkt msg_id s)
             | (ret, None) \<Rightarrow> Some (ret, s, []))
          else Some (ret, s, []))"

section \<open>Answers\<close>

lemma responses_encode:
  "\<exists>rc m. qmi_encode (Some rmtfs_open_resp_ei) d 7 src 0 249 1 = Some (rc, m) \<and> 0 \<le> rc"
  "\<exists>rc m. qmi_encode (Some rmtfs_close_resp_ei) d 7 src 0 249 1 = Some (rc, m) \<and> 0 \<le> rc"
  "\<exists>rc m. qmi_encode (Some rmtfs_iovec_resp_ei) d 7 src 0 249 1 = Some (rc, m) \<and> 0 \<le> rc"
  "\<exists>rc m. qmi_encode (Some rmtfs_alloc_buf_resp_ei) d 7 src 0 249 1 = Some (rc, m) \<and> 0 \<le> rc"
  "\<exists>rc m. qmi_encode (Some rmtfs_dev_error_resp_ei) d 7 src 0 249 1 = Some (rc, m) \<and> 0 \<le> rc"
  by (simp_all add: qmi_encode_def rmtfs_tables elem_defs layout_simps rmtfs_structs
      enc_init_def enc_data_len_def encode_elem_def encode_tlv_header_def is_basic_def
      qmi_encode_basic_elem_def qmi_encode_struct_elem_def basic_loop_eq update_encode_variables_def Let_def
      skip_to_next_elem_def numeral_2_eq_2 [symmetric])

definition response_table :: "int \<Rightarrow> qmi_elem_info list" where
  "response_table mid =
     (if mid = QMI_RMTFS_OPEN then rmtfs_open_resp_ei
      else if mid = QMI_RMTFS_CLOSE then rmtfs_close_resp_ei
      else if mid = QMI_RMTFS_RW_IOVEC then rmtfs_iovec_resp_ei
      else if mid = QMI_RMTFS_ALLOC_BUFF then rmtfs_alloc_buf_resp_ei
      else rmtfs_dev_error_resp_ei)"

definition response_fields :: "int \<Rightarrow> field list" where
  "response_fields mid = result_field rmtfs_qmi_result_ei #
     (if mid = QMI_RMTFS_OPEN then [optional_field 4 (elem QMI_UNSIGNED_4_BYTE 1 4 16 8)]
      else if mid = QMI_RMTFS_CLOSE \<or> mid = QMI_RMTFS_RW_IOVEC then []
      else if mid = QMI_RMTFS_ALLOC_BUFF then [optional_field 4 (elem QMI_UNSIGNED_8_BYTE 1 8 16 8)]
      else [optional_field 4 (elem QMI_UNSIGNED_1_BYTE 1 1 16 5)])"

text \<open>
  The bytes \<open>data\<close> are an answer: whoever receives them decodes them with the table of the message to
  the transaction id, the result and the optional field that the response structure holds.
\<close>

definition decoded_response :: "int \<Rightarrow> mem \<Rightarrow> mem \<Rightarrow> bool" where
  "decoded_response mid resp m \<longleftrightarrow> get16 m 0 = get16 resp 0 \<and> get16 m 2 = get16 resp 2 \<and>
     (\<forall>f \<in> set (response_fields mid). \<forall>off. flag f = Some off \<longrightarrow> m off = (if resp off = 0 then 0 else 1) \<and>
        (resp off \<noteq> 0 \<longrightarrow> rd m (offset (entry f)) (width (entry f)) = rd resp (offset (entry f)) (width (entry f))))"

definition answer :: "int \<Rightarrow> u32 \<Rightarrow> mem \<Rightarrow> u8 list \<Rightarrow> bool" where
  "answer mid txn resp data \<longleftrightarrow> (\<forall>p. pkt_data_len p = length data \<longrightarrow> rd (pkt_data p) 0 (length data) = data \<longrightarrow>
     qmi_decode_header p = (0, Some (word_of_int mid)) \<and>
     (\<exists>rc m. qmi_decode_message 9 (Some (\<lambda>_. 0, 0)) p QMI_RESPONSE mid (Some (response_table mid)) =
        Some (rc, Some (ucast (ucast txn :: u16)), Some m) \<and> 0 \<le> rc \<and> decoded_response mid resp m))"

lemma response_encode: "\<exists>rc m. qmi_encode (Some (response_table mid)) d 7 src 0 249 1 = Some (rc, m) \<and> 0 \<le> rc"
  unfolding response_table_def using responses_encode [of d src] by simp

lemma response_encodes_fields:
  "mid \<in> {1, 2, 3, 4, 5} \<Longrightarrow> encodes_fields (response_table mid) (response_fields mid)"
  using rmtfs_responses by (auto simp: response_table_def response_fields_def)

lemma response_restored:
  assumes "\<forall>f \<in> set (response_fields mid). if present resp 0 f then field_here resp 0 m 0 f
      else \<forall>(off, w) \<in> set (regions f). rd m (0 + off) w = rd (\<lambda>_. 0) (0 + off) w"
  shows "decoded_response mid resp m"
proof -
  have "field_here resp 0 m 0 (result_field rmtfs_qmi_result_ei)"
    using assms by (auto simp: response_fields_def result_field_def present_def)
  then have "rd m 0 2 = rd resp 0 2" "rd m 2 2 = rd resp 2 2"
    by (simp_all add: field_here_def result_field_def restored_def rmtfs_tables rmtfs_structs layout_simps
        elem_defs members_def width_def count_def numeral_2_eq_2 [symmetric])
  moreover have "m off = (if resp off = 0 then 0 else 1) \<and>
      (resp off \<noteq> 0 \<longrightarrow> rd m (offset (entry f)) (width (entry f)) = rd resp (offset (entry f)) (width (entry f)))"
    if f: "f \<in> set (response_fields mid)" "flag f = Some off" for f off
  proof (cases "resp off = 0")
    case True
    then have "(off, 1) \<in> set (regions f)" "\<not> present resp 0 f" using f(2) by (simp_all add: regions_def present_def)
    then have "rd m off 1 = rd (\<lambda>_. 0) off 1" using assms f(1) by fastforce
    then show ?thesis using True by (simp add: rd_def)
  next
    case False
    then have "field_here resp 0 m 0 f" using assms f by (auto simp: present_def)
    moreover have "data_type (entry f) \<noteq> QMI_STRUCT" "data_type (entry f) \<noteq> QMI_STRING"
      using f by (auto simp: response_fields_def result_field_def optional_field_def elem_defs split: if_splits)
    ultimately show ?thesis using False f(2) by (simp add: field_here_def restored_def)
  qed
  ultimately show ?thesis by (simp add: decoded_response_def get16_cong [of m _ resp])
qed

lemma response_sent:
  assumes "mid \<in> {1, 2, 3, 4, 5}"
  shows "\<exists>data. send_response env sock pkt mid txn resp (response_table mid) =
      Some [Sendto sock \<lparr>sq_family = AF_QIPCRTR, sq_node = pkt_node pkt, sq_port = pkt_port pkt\<rparr> data] \<and>
    answer mid txn resp data"
proof -
  let ?buf = "\<lparr>pkt_type = 0, pkt_node = 0, pkt_port = 0, pkt_service = 0, pkt_instance = 0, pkt_version = 0,
    pkt_data = e_resp_buf env, pkt_data_len = 256\<rparr>"
  obtain rc buf where enc: "qmi_encode_message ?buf QMI_RESPONSE mid (sint txn) (Some (resp, 0))
      (Some (response_table mid)) = Some (rc, buf)" "7 \<le> rc"
    using response_encode [of mid "e_resp_buf env" resp] by (auto simp: qmi_encode_message_def Let_def)
  have fs: "response_table mid = message_tab (response_fields mid)" "message_ok (response_fields mid)"
      "sorted_wrt apart (concat (map regions (response_fields mid)))"
    using response_encodes_fields [OF assms] by (simp_all add: encodes_fields_def)
  have str: "\<forall>f \<in> set (response_fields mid). string_here resp 0 (entry f)"
    by (auto simp: response_fields_def result_field_def optional_field_def elem_defs string_here_def)
  have fuel: "\<forall>f \<in> set (response_fields mid). length (members (entry f)) + length (response_fields mid) + 2 < 9"
      "length (response_fields mid) + 2 < 9"
    by (auto simp: response_fields_def result_field_def optional_field_def elem_defs members_def rmtfs_tables)
  have txn: "word_of_int (sint txn) = (ucast txn :: u16)"
    by (rule bit_word_eqI) (simp add: bit_signed_iff bit_ucast_iff)
  let ?data = "rd (pkt_data buf) 0 (pkt_data_len buf)"
  have "answer mid txn resp ?data"
    unfolding answer_def
  proof (intro allI impI)
    fix p :: qrtr_packet
    assume p: "pkt_data_len p = length ?data" "rd (pkt_data p) 0 (length ?data) = ?data"
    have mid: "0 \<le> mid" "mid < 2 ^ 16" using assms by auto
    have rc: "0 \<le> rc" using enc(2) by simp
    from encoded_decodes [OF fs(2,3) str enc(1) [unfolded fs(1)] rc _ _ _ _ _ mid fuel, of p "\<lambda>_. 0" 0] p
    obtain m where "qmi_decode_header p = (0, Some (word_of_int mid))"
        "qmi_decode_message 9 (Some (\<lambda>_. 0, 0)) p QMI_RESPONSE mid (Some (response_table mid)) =
          Some (rc - 7, Some (ucast (word_of_int (sint txn) :: u16)), Some m)"
        "\<forall>f \<in> set (response_fields mid). if present resp 0 f then field_here resp 0 m 0 f
          else \<forall>(off, w) \<in> set (regions f). rd m (0 + off) w = rd (\<lambda>_. 0) (0 + off) w"
      by (auto simp: fs(1))
    then show "qmi_decode_header p = (0, Some (word_of_int mid)) \<and>
     (\<exists>rc m. qmi_decode_message 9 (Some (\<lambda>_. 0, 0)) p QMI_RESPONSE mid (Some (response_table mid)) =
        Some (rc, Some (ucast (ucast txn :: u16)), Some m) \<and> 0 \<le> rc \<and> decoded_response mid resp m)"
      using response_restored enc(2) unfolding txn by fastforce
  qed
  then show ?thesis using enc by (auto simp: send_response_def qrtr_sendto_def Let_def)
qed

lemma decode_request_total:
  assumes "qmi_decode_header pkt = (0, Some x)" "pkt_data_len pkt < 2 ^ 30" "decodes_into tab S"
  shows "\<exists>ret txn req. decode_request env pkt mid tab = Some (ret, txn, req) \<and> (\<forall>a \<ge> S. req a = 0)"
proof -
  have "tab_fits S tab" "tab_span tab < 2 ^ 29" using assms(3) by (simp_all add: decodes_into_def)
  then obtain ret txn m where "qmi_decode_message (Suc (pkt_data_len pkt + tab_size tab)) (Some (\<lambda>_. 0, 0)) pkt
      QMI_REQUEST mid (Some tab) = Some (ret, txn, Some m)" "\<forall>a. a < 0 \<or> 0 + S \<le> a \<longrightarrow> m a = 0"
    using decode_message_fits [of pkt S tab "Suc (pkt_data_len pkt + tab_size tab)" "\<lambda>_. 0" 0 QMI_REQUEST mid] assms(1,2)
    by auto
  then show ?thesis by (simp add: decode_request_def)
qed

lemma strlen_exists:
  assumes "m (p + k) = 0"
  shows "\<exists>n. strlen m p = Some n"
proof -
  let ?n = "LEAST n. m (p + n) = 0"
  have "m (p + ?n) = 0" using assms by (rule LeastI)
  moreover have "m (p + i) \<noteq> 0" if "i < ?n" for i using that by (rule not_less_Least)
  ultimately show ?thesis by (auto simp: strlen_iff)
qed

text \<open>The response structures of the handlers.\<close>

definition success_or_error :: "mem \<Rightarrow> bool" where
  "success_or_error resp \<longleftrightarrow> get16 resp 0 = 0 \<and> get16 resp 2 = 0 \<or> get16 resp 0 = 1 \<and> get16 resp 2 \<in> {1, 2}"

lemma result_error_zero: "get16 (qmi_result_error (\<lambda>_. 0) e) 0 = 1" "get16 (qmi_result_error (\<lambda>_. 0) e) 2 = e"
proof -
  have z: "get16 (\<lambda>_. 0) 0 = 0" by (simp add: get16_def)
  have "holds (wr (\<lambda>_. 0) 0 (le16 1 @ le16 e)) 0 (le16 1 @ le16 e)" by (rule holds_wr)
  then show "get16 (qmi_result_error (\<lambda>_. 0) e) 0 = 1" "get16 (qmi_result_error (\<lambda>_. 0) e) 2 = e"
    using z by (simp_all add: qmi_result_error_def get16_le16 numeral_2_eq_2)
qed

lemma success_or_error_simps [simp]:
  "success_or_error (qmi_result_error (\<lambda>_. 0) 1)" "success_or_error (qmi_result_error (\<lambda>_. 0) 2)"
  "success_or_error (\<lambda>_. 0)"
  by (simp_all add: success_or_error_def result_error_zero) (simp add: get16_def)

lemma success_wr [simp]: "4 \<le> p \<Longrightarrow> success_or_error (wr m p bs) = success_or_error m"
proof -
  assume "4 \<le> p"
  then have "get16 (wr m p bs) 0 = get16 m 0" "get16 (wr m p bs) 2 = get16 m 2"
    by (simp_all add: get16_cong [of "wr m p bs" _ m] rd_wr_other)
  then show ?thesis by (simp add: success_or_error_def)
qed

text \<open>What a handler's result must be: the store stays reachable and exactly one answer is sent.\<close>

definition answered ::
    "'w rmtfs_env \<Rightarrow> int \<Rightarrow> qrtr_packet \<Rightarrow> int \<Rightarrow> 'w rmtfs \<times> syscall list \<Rightarrow> bool" where
  "answered env sock pkt mid r \<longleftrightarrow> store.reach (r_store (fst r)) \<and>
     (\<exists>txn resp data. snd r = [Sendto sock \<lparr>sq_family = AF_QIPCRTR, sq_node = pkt_node pkt, sq_port = pkt_port pkt\<rparr> data] \<and>
        answer mid txn resp data \<and> success_or_error resp)"

lemma respond_answered:
  assumes "mid \<in> {1, 2, 3, 4, 5}" "store.reach (r_store s)" "success_or_error resp"
  shows "\<exists>calls. send_response env sock pkt mid txn resp (response_table mid) = Some calls \<and>
    answered env sock pkt mid (s, calls)"
  using response_sent [OF assms(1), of env sock pkt txn resp] assms(2,3) by (auto simp: answered_def)

lemmas respond_tables =
  respond_answered [of QMI_RMTFS_OPEN, unfolded response_table_def, simplified]
  respond_answered [of QMI_RMTFS_CLOSE, unfolded response_table_def, simplified]
  respond_answered [of QMI_RMTFS_RW_IOVEC, unfolded response_table_def, simplified]
  respond_answered [of QMI_RMTFS_ALLOC_BUFF, unfolded response_table_def, simplified]
  respond_answered [of QMI_RMTFS_GET_DEV_ERROR, unfolded response_table_def, simplified]

lemmas store_steps = storage_step.intros [THEN store.reach_step [rotated]]

lemma storage_get_bound: "storage_get node k st = Some (Some i) \<Longrightarrow> i < MAX_CALLERS"
  by (auto simp: storage_get_def split: if_splits)

lemma iovec_sector_reach:
  assumes "store.reach (r_store s)" "sys_ok sys" "i < MAX_CALLERS"
    and "iovec_sector sys is_write i phys sector buf s = (n, buf', s')"
  shows "store.reach (r_store s')"
proof (cases is_write)
  case True
  obtain k b w where m: "rmtfs_mem_read sys (r_mem s) phys buf SECTOR_SIZE (world (r_store s)) = (k, b, w)"
    by (cases "rmtfs_mem_read sys (r_mem s) phys buf SECTOR_SIZE (world (r_store s))") auto
  have w: "store.reach ((r_store s)\<lparr>world := w\<rparr>)" using assms(1) by (rule store_steps)
  obtain k' st' where p: "storage_pwrite sys i b sector ((r_store s)\<lparr>world := w\<rparr>) = (k', st')" by fastforce
  have "store.reach st'" using store_steps(4) [OF assms(2,3) p w] .
  then show ?thesis using assms(4) True m p w by (auto simp: iovec_sector_def Let_def split: if_splits)
next
  case False
  obtain k b st where p: "storage_pread sys i buf SECTOR_SIZE sector (r_store s) = (k, b, st)"
    by (cases "storage_pread sys i buf SECTOR_SIZE sector (r_store s)") auto
  have st: "store.reach st" using store_steps(3) [OF p assms(1)] .
  then have "store.reach (st\<lparr>world := w\<rparr>)" for w by (rule store_steps)
  then show ?thesis
    using assms(4) False p st by (auto simp: iovec_sector_def Let_def split: if_splits prod.splits)
qed

lemma iovec_sectors_reach:
  assumes "store.reach (r_store s)" "sys_ok sys" "i < MAX_CALLERS"
    and "iovec_sectors k sys is_write i phys sector off buf s = (ok, buf', s')"
  shows "store.reach (r_store s')"
  using assms(1,4)
proof (induction k arbitrary: off buf s)
  case (Suc k)
  obtain n b t where sec: "iovec_sector sys is_write i (phys + of_nat off) (sector + off) buf s = (n, b, t)"
    by (cases "iovec_sector sys is_write i (phys + of_nat off) (sector + off) buf s") auto
  have "store.reach (r_store t)" using iovec_sector_reach [OF Suc.prems(1) assms(2,3) sec] .
  then show ?case using Suc.IH Suc.prems(2) sec by (auto split: if_splits)
qed simp

lemma iovec_loop_reach:
  assumes "store.reach (r_store s)" "sys_ok sys" "i < MAX_CALLERS" "iovec_loop es sys is_write i buf s = (ok, buf', s')"
  shows "store.reach (r_store s')"
  using assms(1,4)
proof (induction es arbitrary: buf s)
  case (Cons e es)
  obtain ok1 b t where sec: "iovec_sectors (unat (num_sector e)) sys is_write i (ucast (phys_offset e))
      (unat (sector_addr e * of_nat SECTOR_SIZE)) 0 buf s = (ok1, b, t)"
    using prod_cases3 by blast
  have "store.reach (r_store t)" using iovec_sectors_reach [OF Cons.prems(1) assms(2,3) sec] .
  then show ?case using Cons.IH Cons.prems(2) sec by (auto split: if_splits)
qed simp

lemma open_answers:
  assumes reach: "store.reach (r_store s)" and sys: "sys_ok (e_sys env)"
    and hdr: "qmi_decode_header pkt = (0, Some x)" "pkt_data_len pkt < 2 ^ 30"
  shows "\<exists>r. rmtfs_open env sock pkt s = Some r \<and> answered env sock pkt QMI_RMTFS_OPEN r"
proof -
  obtain ret txn req where d: "decode_request env pkt QMI_RMTFS_OPEN rmtfs_open_req_ei = Some (ret, txn, req)"
      "\<forall>a \<ge> sizeof rmtfs_open_req + 1. req a = 0"
    using decode_request_total [OF hdr rmtfs_requests(6)] by blast
  have "req (offsetof rmtfs_open_req 1 + sizeof rmtfs_open_req + 1) = 0" using d(2) by simp
  then obtain path where path: "c_string req (offsetof rmtfs_open_req 1) = Some path"
    using strlen_exists [of req "offsetof rmtfs_open_req 1" "sizeof rmtfs_open_req + 1"] by (auto simp: c_string_def)
  obtain i st where o: "storage_open (e_sys env) (pkt_node pkt) path (r_store s) = (i, st)" by fastforce
  have st: "store.reach st" using store_steps(1) [OF sys o reach] .
  have off: "4 \<le> offsetof rmtfs_open_resp 1" "4 \<le> offsetof rmtfs_open_resp 2"
    by (simp_all add: rmtfs_structs layout_simps numeral_2_eq_2 [symmetric])
  show ?thesis
  proof (cases "ret < 0")
    case True
    then show ?thesis using d(1) reach by (simp add: rmtfs_open_def respond_tables)
  next
    case False
    then show ?thesis
      using d(1) path o st off by (cases i) (simp_all add: rmtfs_open_def respond_tables)
  qed
qed

lemma alloc_answers:
  assumes reach: "store.reach (r_store s)"
    and hdr: "qmi_decode_header pkt = (0, Some x)" "pkt_data_len pkt < 2 ^ 30"
  shows "\<exists>r. rmtfs_alloc_buf env sock pkt s = Some r \<and> answered env sock pkt QMI_RMTFS_ALLOC_BUFF r"
proof -
  obtain ret txn req where d: "decode_request env pkt QMI_RMTFS_ALLOC_BUFF rmtfs_alloc_buf_req_ei = Some (ret, txn, req)"
    using decode_request_total [OF hdr rmtfs_requests(3)] by blast
  have off: "4 \<le> offsetof rmtfs_alloc_buf_resp 1" "4 \<le> offsetof rmtfs_alloc_buf_resp 2"
    by (simp_all add: rmtfs_structs layout_simps numeral_2_eq_2 [symmetric])
  show ?thesis
    using d reach off by (simp add: rmtfs_alloc_buf_def Let_def respond_tables)
qed

text \<open>When a handler of a handle follows a pointer that it must not.\<close>

definition crashes :: "'w rmtfs_env \<Rightarrow> qrtr_packet \<Rightarrow> int \<Rightarrow> 'w rmtfs \<Rightarrow> int \<Rightarrow> mem \<Rightarrow> bool" where
  "crashes env pkt mid s ret req \<longleftrightarrow>
     (let h = storage_get (pkt_node pkt) (sint (get32 req 0)) (r_store s); ro = storage_read_only (r_store s) in
      if mid = QMI_RMTFS_CLOSE then 0 \<le> ret \<and> h = None
      else if mid = QMI_RMTFS_RW_IOVEC then
        (if ret < 0 then e_is_write env \<and> \<not> ro else h = None \<or> h = Some None \<and> req 4 \<noteq> 0 \<and> \<not> ro)
      else if mid = QMI_RMTFS_GET_DEV_ERROR then 0 \<le> ret \<and> (h = None \<or> h = Some None)
      else False)"

lemma request_offsets:
  "offsetof rmtfs_close_req 0 = 0" "offsetof rmtfs_iovec_req 0 = 0" "offsetof rmtfs_iovec_req (Suc 0) = 4"
  "offsetof rmtfs_dev_error_req 0 = 0"
  by (simp_all add: rmtfs_structs layout_simps numeral_2_eq_2 [symmetric])

lemma handle_cases:
  obtains (wild) "h = None" | (null) "h = Some None" | (found) i where "h = Some (Some i)"
  by (cases h rule: option.exhaust; cases "the h") auto

lemma close_answers:
  assumes reach: "store.reach (r_store s)"
    and d: "decode_request env pkt QMI_RMTFS_CLOSE rmtfs_close_req_ei = Some (ret, txn, req)"
  shows "if crashes env pkt QMI_RMTFS_CLOSE s ret req then rmtfs_close env sock pkt s = None
    else \<exists>r. rmtfs_close env sock pkt s = Some r \<and> answered env sock pkt QMI_RMTFS_CLOSE r"
proof (cases "storage_get (pkt_node pkt) (sint (get32 req 0)) (r_store s)" rule: handle_cases)
  case (found i)
  have "store.reach (storage_close (e_sys env) i (r_store s))"
    using store_steps(2) [OF storage_get_bound [OF found] reach] .
  then show ?thesis
    using d reach found by (simp add: rmtfs_close_def crashes_def request_offsets Let_def respond_tables)
qed (use d reach in \<open>simp_all add: rmtfs_close_def crashes_def request_offsets Let_def respond_tables\<close>)

lemma dev_error_answers:
  assumes reach: "store.reach (r_store s)"
    and d: "decode_request env pkt QMI_RMTFS_GET_DEV_ERROR rmtfs_dev_error_req_ei = Some (ret, txn, req)"
  shows "if crashes env pkt QMI_RMTFS_GET_DEV_ERROR s ret req then rmtfs_get_dev_error env sock pkt s = None
    else \<exists>r. rmtfs_get_dev_error env sock pkt s = Some r \<and> answered env sock pkt QMI_RMTFS_GET_DEV_ERROR r"
  by (cases "storage_get (pkt_node pkt) (sint (get32 req 0)) (r_store s)" rule: handle_cases)
    (use d reach in \<open>simp_all add: rmtfs_get_dev_error_def crashes_def request_offsets Let_def respond_tables\<close>)

lemma iovec_answers:
  assumes reach: "store.reach (r_store s)" and sys: "sys_ok (e_sys env)"
    and d: "decode_request env pkt QMI_RMTFS_RW_IOVEC rmtfs_iovec_req_ei = Some (ret, txn, req)"
  shows "if crashes env pkt QMI_RMTFS_RW_IOVEC s ret req then rmtfs_iovec env sock pkt s = None
    else \<exists>r. rmtfs_iovec env sock pkt s = Some r \<and> answered env sock pkt QMI_RMTFS_RW_IOVEC r"
proof (cases "ret < 0")
  case True
  then show ?thesis
    using d reach by (simp add: rmtfs_iovec_def crashes_def Let_def iovec_sync_def respond_tables)
next
  case False
  show ?thesis
  proof (cases "storage_get (pkt_node pkt) (sint (get32 req 0)) (r_store s)" rule: handle_cases)
    case (found i)
    obtain ok b t where l: "iovec_loop (iovec_entries req) (e_sys env) (req 4 \<noteq> 0) i (e_buf env) s = (ok, b, t)"
      using prod_cases3 by blast
    have t: "store.reach (r_store t)" using iovec_loop_reach [OF reach sys storage_get_bound [OF found] l] .
    obtain k st where y: "storage_sync (e_sys env) i (r_store t) = (k, st)" by fastforce
    have "store.reach st" using store_steps(5) [OF y t] .
    then show ?thesis
      using d False found l t y
      by (simp add: rmtfs_iovec_def crashes_def request_offsets Let_def iovec_sync_def respond_tables)
  qed (use d False reach in
      \<open>simp_all add: rmtfs_iovec_def crashes_def request_offsets Let_def iovec_sync_def respond_tables\<close>)
qed

definition request_table :: "int \<Rightarrow> qmi_elem_info list" where
  "request_table mid =
     (if mid = QMI_RMTFS_OPEN then rmtfs_open_req_ei
      else if mid = QMI_RMTFS_CLOSE then rmtfs_close_req_ei
      else if mid = QMI_RMTFS_RW_IOVEC then rmtfs_iovec_req_ei
      else if mid = QMI_RMTFS_ALLOC_BUFF then rmtfs_alloc_buf_req_ei
      else rmtfs_dev_error_req_ei)"

lemma request_answers:
  assumes "store.reach (r_store s)" "sys_ok (e_sys env)"
    and "qmi_decode_header pkt = (0, Some msg_id)" "pkt_data_len pkt < 2 ^ 30" "msg_id \<in> {1, 2, 3, 4, 5}"
    and "decode_request env pkt (uint msg_id) (request_table (uint msg_id)) = Some (ret, txn, req)"
  shows "if crashes env pkt (uint msg_id) s ret req then rmtfs_request env sock pkt msg_id s = None
    else \<exists>r. rmtfs_request env sock pkt msg_id s = Some r \<and> answered env sock pkt (uint msg_id) r"
proof -
  have none: "\<not> crashes env pkt QMI_RMTFS_OPEN s ret req" "\<not> crashes env pkt QMI_RMTFS_ALLOC_BUFF s ret req"
    by (simp_all add: crashes_def)
  consider "msg_id = 1" | "msg_id = 2" | "msg_id = 3" | "msg_id = 4" | "msg_id = 5" using assms(5) by blast
  then show ?thesis
  proof cases
    case 2
    then show ?thesis
      using close_answers [OF assms(1), of env pkt ret txn req sock] assms(6)
      by (simp add: rmtfs_request_def request_table_def del: split_paired_Ex)
  next
    case 3
    then show ?thesis
      using iovec_answers [OF assms(1,2), of pkt ret txn req sock] assms(6)
      by (simp add: rmtfs_request_def request_table_def del: split_paired_Ex)
  next
    case 5
    then show ?thesis
      using dev_error_answers [OF assms(1), of env pkt ret txn req sock] assms(6)
      by (simp add: rmtfs_request_def request_table_def del: split_paired_Ex)
  qed (use open_answers [OF assms(1-4), of sock] alloc_answers [OF assms(1,3,4), of env sock] none in
      \<open>simp_all add: rmtfs_request_def del: split_paired_Ex\<close>)
qed

lemma request_decodes:
  assumes "qmi_decode_header pkt = (0, Some x)" "pkt_data_len pkt < 2 ^ 30"
  shows "\<exists>ret txn req. decode_request env pkt mid (request_table mid) = Some (ret, txn, req)"
  unfolding request_table_def
  using decode_request_total [OF assms rmtfs_requests(1)] decode_request_total [OF assms rmtfs_requests(2)]
    decode_request_total [OF assms rmtfs_requests(3)] decode_request_total [OF assms rmtfs_requests(4)]
    decode_request_total [OF assms rmtfs_requests(6)]
  by (simp; metis)

text \<open>
  C29. Every request with an accepted header and a known message id is answered with
  exactly one message to its sender, unless the handler crashes: whoever receives it decodes the
  transaction id, a result that is success or one of the two error codes, and the optional field. Open
  and allocation requests never crash the server, and the handle table stays a reachable one.
\<close>

theorem rmtfs_answers:
  assumes "store.reach (r_store s)" "sys_ok (e_sys env)"
    and "qmi_decode_header pkt = (0, Some msg_id)" "pkt_data_len pkt < 2 ^ 30" "msg_id \<in> {1, 2, 3, 4, 5}"
  shows "case rmtfs_request env sock pkt msg_id s of
      None \<Rightarrow> msg_id \<in> {2, 3, 5}
    | Some (s', calls) \<Rightarrow> store.reach (r_store s') \<and>
        (\<exists>txn resp data. calls = [Sendto sock \<lparr>sq_family = AF_QIPCRTR, sq_node = pkt_node pkt, sq_port = pkt_port pkt\<rparr> data] \<and>
           answer (uint msg_id) txn resp data \<and> success_or_error resp)"
proof -
  obtain ret txn req where d: "decode_request env pkt (uint msg_id) (request_table (uint msg_id)) = Some (ret, txn, req)"
    using request_decodes [OF assms(3,4)] by blast
  have "msg_id \<in> {2, 3, 5}" if "crashes env pkt (uint msg_id) s ret req"
    using assms(5) that by (auto simp: crashes_def)
  then show ?thesis
    using request_answers [OF assms d, of sock] by (auto simp: answered_def split: if_splits; blast)
qed


text \<open>A request of node 5 for the error state of handle 0, which node 5 has not opened.\<close>

definition sample_env :: "unit rmtfs_env" where
  "sample_env = \<lparr>e_sys = sample_sys, e_send_rc = 0, e_txn = 0, e_is_write = False, e_buf = replicate 512 0,
     e_resp_buf = \<lambda>_. 0\<rparr>"

definition sample_rmtfs :: "unit rmtfs" where
  "sample_rmtfs = \<lparr>r_store = sample_storage False,
     r_mem = \<lparr>m_address = 0x1000, m_size = 0x1000, m_base = Some (\<lambda>_. 0), m_fd = 4\<rparr>\<rparr>"

definition small_request :: "u16 \<Rightarrow> qrtr_packet" where
  "small_request mid = (sample_packet 14)\<lparr>pkt_node := 5, pkt_data := wr (\<lambda>_. 0) 0
     (qmi_header_bytes \<lparr>qh_type = 0, qh_txn_id = 7, qh_msg_id = mid, qh_msg_len = 7\<rparr> @ [1, 4, 0, 0, 0, 0, 0])\<rparr>"

lemma small_request_read:
  "qmi_header_read (pkt_data (small_request mid)) 0 =
     \<lparr>qh_type = 0, qh_txn_id = 7, qh_msg_id = mid, qh_msg_len = 7\<rparr>"
  "holds (pkt_data (small_request mid)) 7 [1, 4, 0, 0, 0, 0, 0]"
proof -
  have "holds (pkt_data (small_request mid)) 0
      (qmi_header_bytes \<lparr>qh_type = 0, qh_txn_id = 7, qh_msg_id = mid, qh_msg_len = 7\<rparr> @ [1, 4, 0, 0, 0, 0, 0])"
    by (simp add: small_request_def del: holds_append)
  then show "qmi_header_read (pkt_data (small_request mid)) 0 =
        \<lparr>qh_type = 0, qh_txn_id = 7, qh_msg_id = mid, qh_msg_len = 7\<rparr>"
      "holds (pkt_data (small_request mid)) 7 [1, 4, 0, 0, 0, 0, 0]"
    unfolding holds_append by (auto intro: qmi_hdr.dec_enc)
qed

lemma small_request_len [simp]: "pkt_data_len (small_request mid) = 14" "pkt_node (small_request mid) = 5"
  by (simp_all add: small_request_def sample_packet_def)

lemma small_request_header: "qmi_decode_header (small_request mid) = (0, Some (ucast mid))"
  by (simp add: qmi_decode_header_def Let_def small_request_read(1))

lemma sample_rmtfs_reach: "store.reach (r_store sample_rmtfs)" "sys_ok (e_sys sample_env)"
  by (simp_all add: sample_rmtfs_def sample_env_def sample_storage_reach sample_sys_ok)

theorem rmtfs_answers_witness:
  "\<exists>s' sq data. rmtfs_request sample_env 3 (small_request 4) 4 sample_rmtfs = Some (s', [Sendto 3 sq data]) \<and>
     store.reach (r_store s')"
  using rmtfs_answers [OF sample_rmtfs_reach small_request_header, of 4 3]
  by (auto split: option.splits)

lemma small_request_decoded:
  "\<exists>req. decode_request sample_env (small_request 5) 5 rmtfs_dev_error_req_ei = Some (7, 7, req) \<and> get32 req 0 = 0"
proof -
  let ?src = "pkt_data (small_request 5)" and ?tab = rmtfs_dev_error_req_ei
  obtain k where k: "Suc (14 + tab_size ?tab) = Suc (Suc k)" by (metis Suc_eq_plus1 add.commute add_Suc_right numeral_eq_Suc)
  have src: "?src 7 = 1" "tlv_length ?src 7 = 4" "rd ?src 10 4 = [0, 0, 0, 0]"
    using small_request_read(2) [of 5]
    by (simp_all add: tlv_length_def holds_iff_rd [symmetric] flip: rd_def) (simp_all add: rd_def upt_rec eval_nat_numeral)
  have "decode_elem (sub_decoder (Suc k) 1 ?src) ?tab 1 ?src 0 4 (update_decode_variables (dec_init (\<lambda>_. 0) 7) 3) =
    Some (Inr ([terminator], \<lparr>d_dst = wr (\<lambda>_. 0) 0 [0, 0, 0, 0], d_buf_src = 14, d_data_len_value = 1, d_decoded_bytes = 7\<rparr>))"
    by (simp add: decode_elem_def dec_opt_flag_def dec_len_field_def dec_data_len_def dec_switch_def is_basic_def
        rmtfs_tables elem_defs rmtfs_structs layout_simps update_decode_variables_def dec_init_def
        qmi_decode_basic_elem_def basic_loop_eq ptr_add_def Let_def src)
  moreover have "find_ei ?tab (ucast (?src 7)) = Some (Some ?tab)"
    by (simp add: src rmtfs_tables elem_defs)
  ultimately have "qmi_decode_loop (Suc (Suc k)) ?tab ?tab 1 ?src 0 7 (dec_init (\<lambda>_. 0) 7) =
      Some (7, wr (\<lambda>_. 0) 0 [0, 0, 0, 0])"
    using decode_round_top [of "Suc k" ?tab ?tab ?src 0 7 "dec_init (\<lambda>_. 0) 7"]
      decode_round_top [of k ?tab "[terminator]" ?src 0 7]
    by (simp add: dec_init_def update_decode_variables_def src after_elem_def Let_def del: qmi_decode_loop.simps)
  then have "qmi_decode_message (Suc (Suc k)) (Some (\<lambda>_. 0, 0)) (small_request 5) 0 5 (Some ?tab) =
      Some (7, Some 7, Some (wr (\<lambda>_. 0) 0 [0, 0, 0, 0]))"
    by (simp add: qmi_decode_message_def qmi_decode_def small_request_read(1) Let_def del: qmi_decode_loop.simps)
  then show ?thesis
    unfolding decode_request_def small_request_len k by (simp add: get32_def wr_def)
qed


end
