(* ===== verification/RmtfsIo.thy ===== *)
theory RmtfsIo
  imports Rmtfs
begin

text \<open>
  What the requests of the remote file system server achieve: the answer to an open request, and the
  transfer of sectors between the shared memory and the copies that the store keeps in read-only mode.
\<close>

section \<open>Opening\<close>

lemma get32_le32_wr: "get32 (wr m p (le32 w)) p = w"
  by (rule get32_le32) simp

text \<open>
  C31. An open request that decodes to a path is answered with what the store says: a
  handle is reported to the sender as caller id, with success; without a handle the answer
  is an internal error without caller id.
\<close>

theorem rmtfs_open_answer:
  assumes reach: "store.reach (r_store s)" and sys: "sys_ok (e_sys env)"
    and d: "decode_request env pkt QMI_RMTFS_OPEN rmtfs_open_req_ei = Some (ret, txn, req)" "0 \<le> ret"
    and path: "c_string req (offsetof rmtfs_open_req 1) = Some path"
    and o: "storage_open (e_sys env) (pkt_node pkt) path (r_store s) = (h, st)"
  shows "\<exists>data. rmtfs_open env sock pkt s = Some (s\<lparr>r_store := st\<rparr>,
      [Sendto sock \<lparr>sq_family = AF_QIPCRTR, sq_node = pkt_node pkt, sq_port = pkt_port pkt\<rparr> data]) \<and>
    (\<forall>p. pkt_data_len p = length data \<longrightarrow> rd (pkt_data p) 0 (length data) = data \<longrightarrow>
      (\<exists>rc m. qmi_decode_message 9 (Some (\<lambda>_. 0, 0)) p QMI_RESPONSE QMI_RMTFS_OPEN (Some rmtfs_open_resp_ei) =
          Some (rc, Some (ucast (ucast txn :: u16)), Some m) \<and> 0 \<le> rc \<and>
        (case h of
           None \<Rightarrow> get16 m 0 = QMI_RMTFS_RESULT_FAILURE \<and> get16 m 2 = QMI_RMTFS_ERR_INTERNAL \<and> m 4 = 0
         | Some i \<Rightarrow> get16 m 0 = 0 \<and> get16 m 2 = 0 \<and> m 4 = 1 \<and> get32 m 8 = of_nat i)))"
proof -
  have off: "offsetof rmtfs_open_resp (Suc 0) = 4" "offsetof rmtfs_open_resp 2 = 8"
    by (simp_all add: rmtfs_structs layout_simps numeral_2_eq_2 [symmetric])
  have table: "response_table QMI_RMTFS_OPEN = rmtfs_open_resp_ei" by (simp add: response_table_def)
  define resp where "resp = (case h of
      None \<Rightarrow> qmi_result_error (\<lambda>_. 0) QMI_RMTFS_ERR_INTERNAL
    | Some i \<Rightarrow> wr (wr (\<lambda>_. 0) 8 (le32 (of_nat i))) 4 [1])"
  have id: "storage_get_caller_id i st = int i" if "h = Some i" for i
  proof -
    have inv: "storage_inv st" using store.reach_inv [OF store_steps(1) [OF sys o reach]] .
    have "i < MAX_CALLERS"
      using sys store.reach_inv [OF reach] o that by (cases rule: open_cases) auto
    then show ?thesis using inv_fd [OF inv] by (simp add: storage_get_caller_id_def fd_ok_def)
  qed
  obtain data where data: "send_response env sock pkt QMI_RMTFS_OPEN txn resp rmtfs_open_resp_ei =
        Some [Sendto sock \<lparr>sq_family = AF_QIPCRTR, sq_node = pkt_node pkt, sq_port = pkt_port pkt\<rparr> data]"
      "answer QMI_RMTFS_OPEN txn resp data"
    using response_sent [of QMI_RMTFS_OPEN env sock pkt txn resp] table by auto
  have "rmtfs_open env sock pkt s = Some (s\<lparr>r_store := st\<rparr>,
      [Sendto sock \<lparr>sq_family = AF_QIPCRTR, sq_node = pkt_node pkt, sq_port = pkt_port pkt\<rparr> data])"
    using d path o data(1) id by (cases h) (simp_all add: rmtfs_open_def resp_def off)
  moreover have "case h of
      None \<Rightarrow> get16 m 0 = QMI_RMTFS_RESULT_FAILURE \<and> get16 m 2 = QMI_RMTFS_ERR_INTERNAL \<and> m 4 = 0
    | Some i \<Rightarrow> get16 m 0 = 0 \<and> get16 m 2 = 0 \<and> m 4 = 1 \<and> get32 m 8 = of_nat i"
    if m: "decoded_response QMI_RMTFS_OPEN resp m" for m
  proof (cases h)
    case None
    then have "resp 4 = 0" by (simp add: resp_def qmi_result_error_def wr_def)
    then show ?thesis
      using m None by (simp add: decoded_response_def response_fields_def result_field_def optional_field_def
          resp_def result_error_zero)
  next
    case (Some i)
    have "resp 4 = 1" "get16 resp 0 = 0" "get16 resp 2 = 0"
      by (simp_all add: resp_def Some wr_def get16_def)
    moreover have "get32 resp 8 = of_nat i"
      using get32_le32_wr [of "\<lambda>_. 0" 8 "of_nat i"]
        get32_cong [of resp 8 "wr (\<lambda>_. 0) 8 (le32 (of_nat i))" 8] by (simp add: resp_def Some rd_wr_other)
    ultimately show ?thesis
      using m Some get32_cong [of m 8 resp 8]
      by (simp add: decoded_response_def response_fields_def result_field_def optional_field_def elem_defs
          width_def count_def)
  qed
  ultimately show ?thesis
    using data(2) unfolding answer_def table by (intro exI [of _ data]) blast
qed

text \<open>A request for the first modem partition.\<close>

definition sample_path :: "u8 list" where
  "sample_path = [47, 98, 111, 111, 116, 47, 109, 111, 100, 101, 109, 95, 102, 115, 49]"

definition sample_req :: mem where
  "sample_req = wr (wr (\<lambda>_. 0) 4 sample_path) 19 [0]"

lemma sample_req_decoded:
  "decode_request sample_env (open_request sample_path) QMI_RMTFS_OPEN rmtfs_open_req_ei = Some (18, 7, sample_req)"
proof -
  obtain k where k: "Suc (10 + length sample_path + tab_size rmtfs_open_req_ei) = Suc (Suc k)"
    by (cases "10 + length sample_path + tab_size rmtfs_open_req_ei") auto
  show ?thesis
    using open_request_decode [of sample_path k "\<lambda>_. 0" 0]
    unfolding decode_request_def open_request_len k by (simp add: sample_req_def sample_path_def)
qed

lemma sample_req_path: "c_string sample_req (offsetof rmtfs_open_req 1) = Some ''/boot/modem_fs1''"
proof -
  have "rd sample_req 4 15 = sample_path"
    unfolding sample_req_def by (subst rd_wr_other) (simp_all add: sample_path_def)
  moreover have "strlen sample_req 4 = Some 15"
    unfolding strlen_iff
  proof (intro conjI allI impI)
    fix i :: nat assume "i < 15"
    then have "sample_req (4 + i) = sample_path ! i" using calculation by (metis nth_rd)
    moreover have "0 \<notin> set sample_path" "length sample_path = 15" by (simp_all add: sample_path_def)
    ultimately show "sample_req (4 + i) \<noteq> 0" using \<open>i < 15\<close> by (metis nth_mem)
  qed (simp add: sample_req_def wr_def)
  moreover have "offsetof rmtfs_open_req 1 = 4" by (simp add: rmtfs_open_req_def layout_simps)
  ultimately show ?thesis by (simp add: c_string_def sample_path_def char_of_def bit_0)
qed

theorem rmtfs_open_answer_witness:
  "\<exists>s' sq data. rmtfs_open sample_env 3 (open_request sample_path) sample_rmtfs = Some (s', [Sendto 3 sq data]) \<and>
    (\<forall>p. pkt_data_len p = length data \<longrightarrow> rd (pkt_data p) 0 (length data) = data \<longrightarrow>
      (\<exists>rc m. qmi_decode_message 9 (Some (\<lambda>_. 0, 0)) p 2 1 (Some rmtfs_open_resp_ei) = Some (rc, Some 7, Some m) \<and>
        m 4 = 1 \<and> get32 m 8 = 0))"
proof -
  obtain st where "storage_open (e_sys sample_env) (pkt_node (open_request sample_path)) ''/boot/modem_fs1''
      (r_store sample_rmtfs) = (Some 0, st)"
    by (simp add: storage_open_def open_handle_def find_partition_def partition_table_def sample_storage_def sample_env_def
      storage_init_def static_storage_def in_use_def upt_rec sample_sys_def Let_def sample_rmtfs_def)
  from rmtfs_open_answer [OF sample_rmtfs_reach sample_req_decoded _ sample_req_path this, of 3]
  show ?thesis by simp blast
qed

section \<open>Bounds of the shared memory\<close>

text \<open>The machine check of an address range is the one on natural numbers, as long as nothing wraps.\<close>

lemma mem_ptr_nat:
  assumes "unat (m_address rm) + unat (m_size rm) < 2 ^ 64" "unat phys + n < 2 ^ 64"
  shows "rmtfs_mem_ptr rm phys (int n) =
    (if unat (m_address rm) \<le> unat phys \<and> unat phys + n \<le> unat (m_address rm) + unat (m_size rm)
     then Some (unat phys - unat (m_address rm)) else None)"
proof -
  have e: "unat (phys + of_nat n) = unat phys + n"
    using assms(2) by (subst unat_word_ariths) (simp add: unsigned_of_nat take_bit_nat_eq_self)
  have l: "unat (m_address rm + m_size rm) = unat (m_address rm) + unat (m_size rm)"
    using assms(1) by (subst unat_word_ariths) simp
  have "unat (phys - m_address rm) = unat phys - unat (m_address rm)" if "unat (m_address rm) \<le> unat phys"
    using that by (simp add: unat_sub word_le_nat_alt)
  then show ?thesis by (auto simp: rmtfs_mem_ptr_def word_less_nat_alt e l)
qed

section \<open>Contents of a copy\<close>

text \<open>What reading byte \<open>a\<close> of a handle gives in read-only mode.\<close>

definition content :: "'w storage \<Rightarrow> nat \<Rightarrow> nat \<Rightarrow> u8" where
  "content st i a = (let f = rmtfds st ! i in if a < rf_shadow_len f then the (rf_shadow_buf f) ! a else 0)"

lemma content_world [simp]: "content (st\<lparr>world := w\<rparr>) i = content st i"
  by (simp add: content_def fun_eq_iff)

lemma pread_content:
  assumes "storage_inv st" "storage_read_only st" "i < MAX_CALLERS" "length buf = n"
  shows "storage_pread sys i buf n off st = (int n, map (\<lambda>j. content st i (off + j)) [0..<n], st)"
proof -
  let ?f = "rmtfds st ! i"
  define k where "k = min n (rf_shadow_len ?f - off)"
  have ok: "case rf_shadow_buf ?f of None \<Rightarrow> rf_shadow_len ?f = 0 | Some b \<Rightarrow> rf_shadow_len ?f \<le> length b"
    using inv_fd [OF assms(1,3)] by (simp add: fd_ok_def)
  have "storage_pread sys i buf n off st =
      (int n, put_at (put_at buf 0 (take k (drop off (the (rf_shadow_buf ?f))))) k (replicate (n - k) 0), st)"
  proof (cases "k = 0")
    case True
    then have "\<not> 0 < min (int n) (int (rf_shadow_len ?f) - int off)" by (simp add: k_def min_def split: if_splits)
    then show ?thesis using assms(2) True by (auto simp: storage_pread_def Let_def)
  next
    case False
    then have "min (int n) (int (rf_shadow_len ?f) - int off) = int k" "0 < k"
      "0 < n" "off < rf_shadow_len ?f" by (auto simp: k_def)
    then show ?thesis using assms(2) by (simp add: storage_pread_def Let_def)
  qed
  moreover have "put_at (put_at buf 0 (take k (drop off (the (rf_shadow_buf ?f))))) k (replicate (n - k) 0) =
      map (\<lambda>j. content st i (off + j)) [0..<n]"
  proof -
    have len: "length (take k (drop off (the (rf_shadow_buf ?f)))) = k"
      using ok by (auto simp: k_def split: option.splits)
    then have "put_at (put_at buf 0 (take k (drop off (the (rf_shadow_buf ?f))))) k (replicate (n - k) 0) =
        take k (drop off (the (rf_shadow_buf ?f))) @ replicate (n - k) 0"
      using assms(4) by (simp add: put_at_def k_def)
    also have "\<dots> = map (\<lambda>j. content st i (off + j)) [0..<n]"
    proof (rule nth_equalityI)
      show "length (take k (drop off (the (rf_shadow_buf ?f))) @ replicate (n - k) 0) =
          length (map (\<lambda>j. content st i (off + j)) [0..<n])" using len by (simp add: k_def)
      fix j assume "j < length (take k (drop off (the (rf_shadow_buf ?f))) @ replicate (n - k) 0)"
      then have "j < n" using len by (simp add: k_def)
      moreover have "j < k \<longleftrightarrow> off + j < rf_shadow_len ?f" using \<open>j < n\<close> by (auto simp: k_def)
      moreover have "drop off (the (rf_shadow_buf ?f)) ! j = the (rf_shadow_buf ?f) ! (off + j)" if "j < k"
        using that len by (intro nth_drop) simp
      ultimately show "(take k (drop off (the (rf_shadow_buf ?f))) @ replicate (n - k) 0) ! j =
          map (\<lambda>j. content st i (off + j)) [0..<n] ! j"
        using len by (auto simp: nth_append content_def Let_def)
    qed
    finally show ?thesis .
  qed
  ultimately show ?thesis by simp
qed

lemma pwrite_content:
  assumes "sys_ok sys" "storage_inv st" "storage_read_only st" "i < MAX_CALLERS"
    and "storage_pwrite sys i bs off st = (int (length bs), st')" "bs \<noteq> []"
  shows "storage_read_only st'" "off + length bs \<le> rf_shadow_len (rmtfds st' ! i)"
    and "a < length bs \<Longrightarrow> content st' i (off + a) = bs ! a"
    and "a < rf_shadow_len (rmtfds st ! i) \<Longrightarrow> a < off \<Longrightarrow> content st' i a = content st i a"
    and "rf_shadow_len (rmtfds st ! i) \<le> rf_shadow_len (rmtfds st' ! i)"
proof -
  have len: "i < length (rmtfds st)" using inv_length [OF assms(2)] assms(4) by simp
  obtain buf w where b: "off + length bs \<le> length buf"
      "\<And>k. k < rf_shadow_len (rmtfds st ! i) \<Longrightarrow> buf ! k = the (rf_shadow_buf (rmtfds st ! i)) ! k"
      "st' = (upd_fd i (\<lambda>f. f\<lparr>rf_shadow_buf := Some (put_at buf off bs),
         rf_shadow_len := max (rf_shadow_len f) (off + length bs)\<rparr>) st)\<lparr>world := w\<rparr>"
    using assms(1-5) by (cases rule: shadow_write_cases) (use assms(6) in auto)
  then show "storage_read_only st'" "off + length bs \<le> rf_shadow_len (rmtfds st' ! i)"
    "rf_shadow_len (rmtfds st ! i) \<le> rf_shadow_len (rmtfds st' ! i)"
    using assms(3) len by simp_all
  show "content st' i (off + a) = bs ! a" if "a < length bs"
    using that b(1,3) len by (simp add: content_def Let_def put_at_def nth_append less_max_iff_disj)
  show "content st' i a = content st i a" if "a < rf_shadow_len (rmtfds st ! i)" "a < off"
    using that b len by (simp add: content_def Let_def put_at_def nth_append less_max_iff_disj)
qed

section \<open>Transfers\<close>

definition mapped :: "'w rmtfs \<Rightarrow> mem \<Rightarrow> bool" where
  "mapped s m \<longleftrightarrow> m_base (r_mem s) = Some m \<and> unat (m_address (r_mem s)) + unat (m_size (r_mem s)) < 2 ^ 64 \<and>
     store.reach (r_store s) \<and> storage_read_only (r_store s)"

definition mem_at :: "'w rmtfs \<Rightarrow> u64 \<Rightarrow> nat" where
  "mem_at s phys = unat phys - unat (m_address (r_mem s))"

definition inside :: "'w rmtfs \<Rightarrow> u64 \<Rightarrow> nat \<Rightarrow> bool" where
  "inside s phys n \<longleftrightarrow> unat (m_address (r_mem s)) \<le> unat phys \<and>
     unat phys + n \<le> unat (m_address (r_mem s)) + unat (m_size (r_mem s))"

lemma unat_add_off: "unat phys + off < 2 ^ 64 \<Longrightarrow> unat (phys + of_nat off :: u64) = unat phys + off"
  by (subst unat_word_ariths) (simp add: unsigned_of_nat take_bit_nat_eq_self)

text \<open>One sector from memory to the copy, and one from the copy to memory.\<close>

lemma write_sector:
  assumes s: "mapped s m" and sys: "sys_ok sys" and i: "i < MAX_CALLERS" and buf: "length buf = SECTOR_SIZE"
    and phys: "unat phys + SECTOR_SIZE < 2 ^ 64"
    and r: "iovec_sector sys True i phys sector buf s = (int SECTOR_SIZE, buf', s')"
  shows "mapped s' m" "r_mem s' = r_mem s" "length buf' = SECTOR_SIZE" "inside s phys SECTOR_SIZE"
    and "sector + SECTOR_SIZE \<le> rf_shadow_len (rmtfds (r_store s') ! i)"
    and "\<forall>a<SECTOR_SIZE. content (r_store s') i (sector + a) = m (mem_at s phys + a)"
    and "\<forall>a<rf_shadow_len (rmtfds (r_store s) ! i). a < sector \<longrightarrow> content (r_store s') i a = content (r_store s) i a"
    and "rf_shadow_len (rmtfds (r_store s) ! i) \<le> rf_shadow_len (rmtfds (r_store s') ! i)"
proof -
  have base: "m_base (r_mem s) = Some m" and nowrap: "unat (m_address (r_mem s)) + unat (m_size (r_mem s)) < 2 ^ 64"
    and st: "store.reach (r_store s)" "storage_read_only (r_store s)" using s by (simp_all add: mapped_def)
  have in_s: "inside s phys SECTOR_SIZE"
    using r base mem_ptr_nat [OF nowrap phys] by (auto simp: iovec_sector_def rmtfs_mem_read_def inside_def split: if_splits)
  define bs where "bs = rd m (mem_at s phys) SECTOR_SIZE"
  have "rmtfs_mem_ptr (r_mem s) phys (int SECTOR_SIZE) = Some (mem_at s phys)"
    using in_s mem_ptr_nat [OF nowrap phys] by (simp add: inside_def mem_at_def)
  then have mr: "rmtfs_mem_read sys (r_mem s) phys buf SECTOR_SIZE (world (r_store s)) =
      (int SECTOR_SIZE, bs, world (r_store s))"
    using base buf by (simp add: rmtfs_mem_read_def bs_def put_at_def)
  obtain n st' where p: "storage_pwrite sys i bs sector (r_store s) = (n, st')" by fastforce
  then have n: "n = int SECTOR_SIZE" and s': "buf' = bs" "s' = s\<lparr>r_store := st'\<rparr>"
    using r mr by (auto simp: iovec_sector_def)
  have bs: "length bs = SECTOR_SIZE" "bs \<noteq> []" by (simp_all add: bs_def flip: length_greater_0_conv)
  note c = pwrite_content [OF sys store.reach_inv [OF st(1)] st(2) i]
  have p': "storage_pwrite sys i bs sector (r_store s) = (int (length bs), st')" using p n bs by simp
  have "store.reach st'" using store_steps(4) [OF sys i p st(1)] .
  then show "mapped s' m" using s s' c(1) [OF p' bs(2)] by (simp add: mapped_def)
  show "r_mem s' = r_mem s" "length buf' = SECTOR_SIZE" "inside s phys SECTOR_SIZE" using s' bs in_s by simp_all
  show "sector + SECTOR_SIZE \<le> rf_shadow_len (rmtfds (r_store s') ! i)" using c(2) [OF p' bs(2)] bs(1) s' by simp
  show "\<forall>a<SECTOR_SIZE. content (r_store s') i (sector + a) = m (mem_at s phys + a)"
    using c(3) [OF p' bs(2)] bs(1) s' by (simp add: bs_def)
  show "\<forall>a<rf_shadow_len (rmtfds (r_store s) ! i). a < sector \<longrightarrow> content (r_store s') i a = content (r_store s) i a"
    using c(4) [OF p' bs(2)] s' by simp
  show "rf_shadow_len (rmtfds (r_store s) ! i) \<le> rf_shadow_len (rmtfds (r_store s') ! i)"
    using c(5) [OF p' bs(2)] s' by simp
qed

lemma read_sector_result:
  assumes s: "mapped s m" and i: "i < MAX_CALLERS" and buf: "length buf = SECTOR_SIZE"
    and phys: "unat phys + SECTOR_SIZE < 2 ^ 64"
    and bs: "bs = map (\<lambda>a. content (r_store s) i (sector + a)) [0..<SECTOR_SIZE]"
  shows "iovec_sector sys False i phys sector buf s =
    (if inside s phys SECTOR_SIZE
     then (int SECTOR_SIZE, bs, s\<lparr>r_mem := (r_mem s)\<lparr>m_base := Some (wr m (mem_at s phys) bs)\<rparr>\<rparr>)
     else (- EINVAL, bs, s))"
proof -
  have base: "m_base (r_mem s) = Some m" and nowrap: "unat (m_address (r_mem s)) + unat (m_size (r_mem s)) < 2 ^ 64"
    and st: "store.reach (r_store s)" "storage_read_only (r_store s)" using s by (simp_all add: mapped_def)
  have p: "storage_pread sys i buf SECTOR_SIZE sector (r_store s) = (int SECTOR_SIZE, bs, r_store s)"
    using pread_content [OF store.reach_inv [OF st(1)] st(2) i buf] bs by simp
  have "length bs = SECTOR_SIZE" by (simp add: bs)
  then show ?thesis
    using mem_ptr_nat [OF nowrap phys] base
    unfolding iovec_sector_def p by (simp add: rmtfs_mem_write_def inside_def mem_at_def)
qed

lemma read_sector:
  assumes s: "mapped s m" and i: "i < MAX_CALLERS" and buf: "length buf = SECTOR_SIZE"
    and phys: "unat phys + SECTOR_SIZE < 2 ^ 64"
    and r: "iovec_sector sys False i phys sector buf s = (int SECTOR_SIZE, buf', s')"
  shows "inside s phys SECTOR_SIZE" "length buf' = SECTOR_SIZE" "r_store s' = r_store s"
    "r_mem s' = (r_mem s)\<lparr>m_base := Some (wr m (mem_at s phys) (map (\<lambda>a. content (r_store s) i (sector + a)) [0..<SECTOR_SIZE]))\<rparr>"
  using r read_sector_result [OF s i buf phys refl, of sys sector] by (auto split: if_splits)

lemma mapped_mem_at: "r_mem s' = r_mem s \<Longrightarrow> mem_at s' = mem_at s \<and> inside s' = inside s"
  by (simp add: mem_at_def inside_def fun_eq_iff)

lemma mem_at_add:
  assumes "unat (m_address (r_mem s)) \<le> unat phys" "unat phys + off < 2 ^ 64"
  shows "mem_at s (phys + of_nat off) = mem_at s phys + off"
    and "inside s (phys + of_nat off) n \<Longrightarrow> inside s phys (off + n)"
  using assms by (simp_all add: mem_at_def inside_def unat_add_off)

lemma write_sectors:
  assumes sys: "sys_ok sys" and i: "i < MAX_CALLERS" and phys: "unat phys + off + k * SECTOR_SIZE < 2 ^ 64"
    and s: "mapped s m" "length buf = SECTOR_SIZE" "unat (m_address (r_mem s)) \<le> unat phys"
    and r: "iovec_sectors k sys True i phys sector off buf s = (True, buf', s')"
    and old: "off = 0 \<or> sector + off \<le> rf_shadow_len (rmtfds (r_store s) ! i)"
      "\<forall>a<off. content (r_store s) i (sector + a) = m (mem_at s phys + a)"
  shows "mapped s' m \<and> r_mem s' = r_mem s \<and>
    (\<forall>a<off + k * SECTOR_SIZE. content (r_store s') i (sector + a) = m (mem_at s phys + a))"
  using s phys r old
proof (induction k arbitrary: off buf s)
  case (Suc k)
  obtain n b t where sec: "iovec_sector sys True i (phys + of_nat off) (sector + off) buf s = (n, b, t)"
    using prod_cases3 by blast
  have n: "n = int SECTOR_SIZE" and r': "iovec_sectors k sys True i phys sector (off + SECTOR_SIZE) b t = (True, buf', s')"
    using Suc.prems(5) sec by (auto split: if_splits)
  have fit: "unat (phys + of_nat off) + SECTOR_SIZE < 2 ^ 64" using Suc.prems(4) by (simp add: unat_add_off)
  note w = write_sector [OF Suc.prems(1) sys i Suc.prems(2) fit sec [unfolded n]]
  have same: "mem_at t = mem_at s" using mapped_mem_at [OF w(2)] by simp
  have at: "mem_at s (phys + of_nat off) = mem_at s phys + off"
    using Suc.prems(3,4) by (intro mem_at_add(1)) simp_all
  have new: "\<forall>a<off + SECTOR_SIZE. content (r_store t) i (sector + a) = m (mem_at t phys + a)"
  proof (intro allI impI)
    fix a assume a: "a < off + SECTOR_SIZE"
    show "content (r_store t) i (sector + a) = m (mem_at t phys + a)"
    proof (cases "a < off")
      case True
      then show ?thesis using w(7) Suc.prems(6,7) by (simp add: same)
    next
      case False
      then show ?thesis using w(6) [rule_format, of "a - off"] a by (simp add: same at)
    qed
  qed
  have "mapped s' m \<and> r_mem s' = r_mem t \<and>
      (\<forall>a<off + SECTOR_SIZE + k * SECTOR_SIZE. content (r_store s') i (sector + a) = m (mem_at t phys + a))"
    using Suc.prems(3,4) w(1,2,3,5) r' new by (intro Suc.IH) (simp_all add: add.assoc)
  then show ?case using w(2) same by (simp add: add.assoc)
qed simp

lemma read_sectors:
  assumes i: "i < MAX_CALLERS" and phys: "unat phys + off + k * SECTOR_SIZE < 2 ^ 64"
    and s: "mapped s m" "length buf = SECTOR_SIZE" "unat (m_address (r_mem s)) \<le> unat phys"
    and r: "iovec_sectors k sys False i phys sector off buf s = (True, buf', s')"
  shows "\<exists>m'. mapped s' m' \<and> r_store s' = r_store s \<and>
    (\<forall>a. m' a = (if mem_at s phys + off \<le> a \<and> a < mem_at s phys + off + k * SECTOR_SIZE
       then content (r_store s) i (sector + (a - mem_at s phys)) else m a)) \<and>
    (0 < k \<longrightarrow> inside s phys (off + k * SECTOR_SIZE))"
  using s phys r
proof (induction k arbitrary: off buf s m)
  case 0
  then show ?case by auto
next
  case (Suc k)
  obtain n b t where sec: "iovec_sector sys False i (phys + of_nat off) (sector + off) buf s = (n, b, t)"
    using prod_cases3 by blast
  have n: "n = int SECTOR_SIZE" and r': "iovec_sectors k sys False i phys sector (off + SECTOR_SIZE) b t = (True, buf', s')"
    using Suc.prems(5) sec by (auto split: if_splits)
  have fit: "unat (phys + of_nat off) + SECTOR_SIZE < 2 ^ 64" using Suc.prems(4) by (simp add: unat_add_off)
  note w = read_sector [OF Suc.prems(1) i Suc.prems(2) fit sec [unfolded n]]
  have at: "mem_at s (phys + of_nat off) = mem_at s phys + off"
    using Suc.prems(3,4) by (intro mem_at_add(1)) simp_all
  let ?m = "wr m (mem_at s phys + off) (map (\<lambda>a. content (r_store s) i (sector + off + a)) [0..<SECTOR_SIZE])"
  have t: "mapped t ?m" "mem_at t = mem_at s" "inside t = inside s"
    using Suc.prems(1) w(3,4) at by (simp_all add: mapped_def mem_at_def inside_def fun_eq_iff)
  have "unat (m_address (r_mem t)) \<le> unat phys" using Suc.prems(3) w(4) by simp
  then obtain m' where m': "mapped s' m'" "r_store s' = r_store t"
      "\<forall>a. m' a = (if mem_at t phys + (off + SECTOR_SIZE) \<le> a \<and> a < mem_at t phys + (off + SECTOR_SIZE) + k * SECTOR_SIZE
         then content (r_store t) i (sector + (a - mem_at t phys)) else ?m a)"
      "0 < k \<longrightarrow> inside t phys (off + SECTOR_SIZE + k * SECTOR_SIZE)"
    using Suc.IH [of t ?m b "off + SECTOR_SIZE"] t(1) w(2) Suc.prems(4) r' by (auto simp: add.assoc)
  have "m' a = (if mem_at s phys + off \<le> a \<and> a < mem_at s phys + off + Suc k * SECTOR_SIZE
       then content (r_store s) i (sector + (a - mem_at s phys)) else m a)" for a
    using m'(3) [rule_format, of a] by (auto simp: t(2) w(3) wr_def algebra_simps)
  moreover have "inside s phys (off + Suc k * SECTOR_SIZE)"
  proof (cases "k = 0")
    case True
    then show ?thesis using w(1) mem_at_add(2) [of s phys off] Suc.prems(3,4) by simp
  next
    case False
    then show ?thesis using m'(4) t(3) by (simp add: algebra_simps)
  qed
  ultimately show ?case using m'(1,2) w(3) by auto
qed

lemma first_sector_inside:
  assumes "mapped s m" "sys_ok sys" "i < MAX_CALLERS" "length buf = SECTOR_SIZE" "unat phys + SECTOR_SIZE < 2 ^ 64"
    and "iovec_sectors k sys is_write i phys sector 0 buf s = (True, buf', s')" "0 < k"
  shows "unat (m_address (r_mem s)) \<le> unat phys"
proof -
  obtain j where "k = Suc j" using assms(7) gr0_implies_Suc by blast
  then obtain b t where sec: "iovec_sector sys is_write i phys sector buf s = (int SECTOR_SIZE, b, t)"
    using assms(6) by (auto split: if_splits prod.splits)
  then have "inside s phys SECTOR_SIZE"
    using write_sector(4) [OF assms(1-5)] read_sector(1) [OF assms(1,3-5)] by (cases is_write) auto
  then show ?thesis by (simp add: inside_def)
qed


text \<open>One sector, from the start of the memory to its second sector.\<close>

definition sample_io :: "unit rmtfs" where
  "sample_io = \<lparr>r_store = sample_storage True,
     r_mem = \<lparr>m_address = 0x1000, m_size = 0x1000, m_base = Some (\<lambda>a. of_nat a), m_fd = 4\<rparr>\<rparr>"

definition sample_entry :: "u32 \<Rightarrow> iovec_entry" where
  "sample_entry phys = \<lparr>sector_addr = 3, phys_offset = phys, num_sector = 1\<rparr>"

lemma sample_io_mapped: "mapped sample_io (\<lambda>a. of_nat a)"
  by (simp add: mapped_def sample_io_def sample_storage_reach) (simp add: sample_storage_def storage_init_def)

lemma sample_io_write:
  "\<exists>b s1. iovec_loop [sample_entry 0x1000] sample_sys True 0 (replicate 512 0) sample_io = (True, b, s1)"
  by (simp add: sample_entry_def sample_io_def iovec_sector_def rmtfs_mem_read_def rmtfs_mem_ptr_def Let_def
      storage_pwrite_def sample_storage_def storage_init_def sample_sys_def put_at_def upt_rec static_storage_def
      zero_rmtfd_def)


end
