(* ===== verification/CLib.thy ===== *)
theory CLib
  imports Prelude
begin

text \<open>
  What the services use of the C library on strings of bytes: character classes, \<open>atoi\<close>, decimal output,
  \<open>strcasecmp\<close> and \<open>dirname\<close>, as in the library of the target.
\<close>

section \<open>Numbers\<close>

definition isspace :: "u8 \<Rightarrow> bool" where
  "isspace ch \<longleftrightarrow> ch = 0x20 \<or> 0x09 \<le> ch \<and> ch \<le> 0x0d"

definition isdigit :: "u8 \<Rightarrow> bool" where
  "isdigit ch \<longleftrightarrow> 0x30 \<le> ch \<and> ch \<le> 0x39"

definition digits_value :: "u8 list \<Rightarrow> nat" where
  "digits_value = foldl (\<lambda>n d. 10 * n + (unat d - 48)) 0"

text \<open>\<open>atoi\<close> is \<open>strtol\<close>, which saturates at 64 bits, cut to the 32 bits of an \<open>int\<close>.\<close>

definition strtol :: "u8 list \<Rightarrow> int" where
  "strtol s =
     (let s = dropWhile isspace s;
          (neg, s) = (case s of c # t \<Rightarrow> if c = 0x2d then (True, t) else if c = 0x2b then (False, t) else (False, s) | [] \<Rightarrow> (False, s));
          n = int (digits_value (takeWhile isdigit s)) in
      if neg then max (- (2 ^ 63)) (- n) else min (2 ^ 63 - 1) n)"

definition atoi :: "u8 list \<Rightarrow> int" where
  "atoi s = sint (word_of_int (strtol s) :: u32)"

fun digits :: "nat \<Rightarrow> u8 list" where
  "digits n = (if n < 10 then [of_nat (48 + n)] else digits (n div 10) @ [of_nat (48 + n mod 10)])"

declare digits.simps [simp del]

definition decimal :: "int \<Rightarrow> u8 list" where
  "decimal n = (if n < 0 then 0x2d # digits (nat (- n)) else digits (nat n))"

lemma unat_digit: "n < 10 \<Longrightarrow> unat (of_nat (48 + n) :: u8) = 48 + n"
  by (simp add: unsigned_of_nat take_bit_nat_eq_self del: of_nat_add)

lemma digits_isdigit: "list_all isdigit (digits n)"
proof (induction n rule: digits.induct)
  case (1 n)
  have d: "isdigit (of_nat (48 + k))" if "k < 10" for k
    using unat_digit [OF that] that by (simp add: isdigit_def word_le_nat_alt)
  show ?case
  proof (cases "n < 10")
    case True
    then show ?thesis using d by (subst digits.simps) simp
  next
    case False
    then show ?thesis using d [of "n mod 10"] 1 by (subst digits.simps) simp
  qed
qed

lemma digits_value_digits: "digits_value (digits n) = n"
proof (induction n rule: digits.induct)
  case (1 n)
  show ?case
  proof (cases "n < 10")
    case True
    then show ?thesis using unat_digit [OF True] by (subst digits.simps) (simp add: digits_value_def)
  next
    case False
    then show ?thesis
      using 1 unat_digit [of "n mod 10"] by (subst digits.simps) (simp add: digits_value_def)
  qed
qed

lemma digits_not_Nil [simp]: "digits n \<noteq> []"
  by (subst digits.simps) simp

lemma isdigit_props: "isdigit c \<Longrightarrow> c \<noteq> 0 \<and> \<not> isspace c \<and> c \<noteq> 0x2d \<and> c \<noteq> 0x2b"
  by (auto simp: isdigit_def isspace_def word_le_nat_alt)

lemma strtol_digits:
  assumes "n < 2 ^ 63"
  shows "strtol (digits n) = int n" "strtol (0x2d # digits n) = - int n"
proof -
  obtain c t where ct: "digits n = c # t" by (cases "digits n") auto
  have c: "\<not> isspace c" "c \<noteq> 0x2d" "c \<noteq> 0x2b" using digits_isdigit [of n] ct isdigit_props by auto
  have w: "takeWhile isdigit (digits n) = digits n" using digits_isdigit [of n] by (simp add: takeWhile_eq_all_conv list_all_iff)
  have n: "int n < 2 ^ 63" using assms by simp
  show "strtol (digits n) = int n"
    using c w n by (simp add: strtol_def ct Let_def) (simp add: ct [symmetric] digits_value_digits)
  have "\<not> isspace 0x2d" by (simp add: isspace_def)
  then show "strtol (0x2d # digits n) = - int n" using n by (simp add: strtol_def w digits_value_digits)
qed

text \<open>A printed \<open>int\<close> is read back.\<close>

lemma atoi_decimal:
  assumes "- (2 ^ 31) \<le> n" "n < 2 ^ 31"
  shows "atoi (decimal n) = n"
proof -
  have "strtol (decimal n) = n"
    using assms strtol_digits [of "nat n"] strtol_digits [of "nat (- n)"] by (simp add: decimal_def)
  moreover have "sint (word_of_int n :: u32) = n" using assms by (simp add: signed_of_int signed_take_bit_int_eq_self)
  ultimately show ?thesis by (simp add: atoi_def)
qed

lemma decimal_no_nul: "0 \<notin> set (decimal n)"
  using digits_isdigit isdigit_props by (auto simp: decimal_def list_all_iff)

section \<open>Strings and paths\<close>

definition tolower :: "u8 \<Rightarrow> u8" where
  "tolower c = (if 0x41 \<le> c \<and> c \<le> 0x5a then c + 0x20 else c)"

definition strcasecmp_eq :: "u8 list \<Rightarrow> u8 list \<Rightarrow> bool" where
  "strcasecmp_eq s t \<longleftrightarrow> map tolower s = map tolower t"

abbreviation (input) slash :: u8 where "slash \<equiv> 0x2f"
abbreviation (input) PATH_MAX :: nat where "PATH_MAX \<equiv> 4096"

definition rstrip :: "u8 list \<Rightarrow> u8 list" where
  "rstrip p = rev (dropWhile (\<lambda>b. b = slash) (rev p))"

definition dirname :: "u8 list \<Rightarrow> u8 list" where
  "dirname p =
     (let q = rstrip p; d = rev (dropWhile (\<lambda>b. b \<noteq> slash) (rev q)) in
      if p = [] then ascii ''.''
      else if q = [] then [slash]
      else if d = [] then ascii ''.''
      else if rstrip d = [] then [slash]
      else rstrip d)"

definition dots :: "u8 list \<Rightarrow> bool" where
  "dots d_name \<longleftrightarrow> d_name = ascii ''.'' \<or> d_name = ascii ''..''"

text \<open>The directory of the firmware, which the domain mapper and the file transfer server look into.\<close>

definition FIRMWARE_BASE :: "u8 list" where
  "FIRMWARE_BASE = ascii ''/vendor/firmware/''"

end
