(* ===== verification/Json.thy ===== *)
theory Json
  imports CLib "HOL-Library.Log_Nat"
begin

text \<open>
  The JSON reader of the domain mapper, \<open>pd-mapper/json.c\<close>: a recursive-descent parser on a buffer with
  one character of push-back, and the accessors of the tree it builds.

  The position is an integer because \<open>unput\<close> at the end of the input, where \<open>input\<close> does not advance,
  steps back over a character that has been read before. A parser gives \<open>None\<close> when it reads before the
  buffer or recurses deeper than its fuel. Allocations are taken to succeed. A linked list of children is
  a list.
\<close>

section \<open>Input\<close>

definition input :: "u8 list \<Rightarrow> int \<Rightarrow> (u8 \<times> int) option" where
  "input buf pos =
     (if pos \<ge> int (length buf) then Some (0, pos)
      else if pos < 0 then None
      else Some (buf ! nat pos, pos + 1))"

definition unput :: "int \<Rightarrow> int" where
  "unput pos = pos - 1"

text \<open>The loops that read while a condition on the character and the number of stored characters holds.\<close>

function take_while :: "(u8 \<Rightarrow> bool) \<Rightarrow> nat \<Rightarrow> u8 list \<Rightarrow> int \<Rightarrow> u8 list \<Rightarrow> (u8 \<times> int \<times> u8 list) option" where
  "take_while P room buf pos b =
     do {
       (ch, p) \<leftarrow> input buf pos;
       if ch \<noteq> 0 \<and> P ch \<and> length b < room then take_while P room buf p (b @ [ch]) else Some (ch, p, b)
     }"
  by pat_completeness auto
termination
  by (relation "measure (\<lambda>(P, room, buf, pos, b). nat (int (length buf) - pos))")
    (auto simp: input_def split: if_splits)

function json_skip_whitespace :: "u8 list \<Rightarrow> int \<Rightarrow> int option" where
  "json_skip_whitespace buf pos =
     do {
       (ch, p) \<leftarrow> input buf pos;
       if ch \<noteq> 0 \<and> isspace ch then json_skip_whitespace buf p else Some (unput p)
     }"
  by pat_completeness auto
termination
  by (relation "measure (\<lambda>(buf, pos). nat (int (length buf) - pos))")
    (auto simp: input_def split: if_splits)

declare take_while.simps [simp del] json_skip_whitespace.simps [simp del]

section \<open>Values\<close>

datatype json =
    JTrue
  | JFalse
  | JNull
  | JNumber nat
  | JString "u8 list"
  | JArray "json list"
  | JObject "(u8 list \<times> json) list"

text \<open>The results 1, 0 and -1 of the parsers.\<close>

datatype 'a parse = Got 'a | No | Bad

type_synonym 'a parser = "u8 list \<Rightarrow> int \<Rightarrow> ('a parse \<times> int) option"

text \<open>
  \<open>strtod\<close> on digits: the decimal value, rounded to the 53 bits of a \<open>double\<close>, ties to even.
\<close>

definition to_double :: "nat \<Rightarrow> nat" where
  "to_double n =
     (let e = floorlog 2 n - 53; q = n div 2 ^ e; r = n mod 2 ^ e in
      if 2 * r > 2 ^ e \<or> 2 * r = 2 ^ e \<and> odd q then (q + 1) * 2 ^ e else q * 2 ^ e)"

definition strtod :: "u8 list \<Rightarrow> nat" where
  "strtod b = to_double (digits_value b)"

section \<open>Parsers\<close>

definition json_parse_string :: "u8 list parser" where
  "json_parse_string buf pos =
     do {
       (ch, p) \<leftarrow> input buf pos;
       if ch \<noteq> 0x22 then Some (No, unput p)
       else do {
         (ch, p, b) \<leftarrow> take_while (\<lambda>ch. ch \<noteq> 0x22) 127 buf p [];
         if ch = 0 then Some (Bad, p) else Some (Got b, p)
       }
     }"

definition json_parse_number :: "nat parser" where
  "json_parse_number buf pos =
     do {
       (ch, p, b) \<leftarrow> take_while isdigit 19 buf pos [];
       Some (if b = [] then No else Got (strtod b), unput p)
     }"

text \<open>
  The comparison loop of the keywords advances in the keyword before it compares, so it also leaves the
  keyword behind when only the last letter is different.
\<close>

primrec match_loop :: "u8 list \<Rightarrow> u8 list \<Rightarrow> u8 \<Rightarrow> int \<Rightarrow> (u8 list \<times> int) option" where
  "match_loop buf [] ch pos = Some ([], pos)"
| "match_loop buf (c # m) ch pos =
     (if c = ch then do { (ch, pos) \<leftarrow> input buf pos; match_loop buf m ch pos } else Some (m, pos))"

abbreviation (input) kw_true :: "u8 list" where "kw_true \<equiv> [0x74, 0x72, 0x75, 0x65]"
abbreviation (input) kw_false :: "u8 list" where "kw_false \<equiv> [0x66, 0x61, 0x6c, 0x73, 0x65]"
abbreviation (input) kw_null :: "u8 list" where "kw_null \<equiv> [0x6e, 0x75, 0x6c, 0x6c]"

definition json_parse_keyword :: "json parser" where
  "json_parse_keyword buf pos =
     do {
       (ch, p) \<leftarrow> input buf pos;
       (case (if ch = 0x74 then Some (kw_true, JTrue)
              else if ch = 0x66 then Some (kw_false, JFalse)
              else if ch = 0x6e then Some (kw_null, JNull)
              else None) of
          None \<Rightarrow> Some (No, unput p)
        | Some (match, v) \<Rightarrow>
            do {
              (m, p) \<leftarrow> match_loop buf match ch p;
              Some (if m = [] then Got v else Bad, unput p)
            })
     }"

definition map_parse :: "('a \<Rightarrow> 'b) \<Rightarrow> 'a parse \<Rightarrow> 'b parse" where
  "map_parse f r = (case r of Got x \<Rightarrow> Got (f x) | No \<Rightarrow> No | Bad \<Rightarrow> Bad)"

definition parse_as :: "('a \<Rightarrow> 'b) \<Rightarrow> 'a parser \<Rightarrow> 'b parser" where
  "parse_as f p buf pos = map_option (\<lambda>(r, pos). (map_parse f r, pos)) (p buf pos)"

text \<open>The alternatives of \<open>json_parse_value\<close>: the next one is tried where the previous one gives 0.\<close>

definition orelse :: "('a parse \<times> int) option \<Rightarrow> (int \<Rightarrow> ('a parse \<times> int) option) \<Rightarrow> ('a parse \<times> int) option" where
  "orelse r next = do { (x, pos) \<leftarrow> r; if x = No then next pos else Some (x, pos) }"

definition value_out :: "u8 list \<Rightarrow> json parse \<Rightarrow> int \<Rightarrow> (json parse \<times> int) option" where
  "value_out buf r pos =
     (if r = No then Some (Bad, pos) else do { pos \<leftarrow> json_skip_whitespace buf pos; Some (r, pos) })"

text \<open>
  Arrays and objects call the parser of values, which is an argument here; \<open>n\<close> bounds the rounds of a loop.
\<close>

primrec array_loop :: "nat \<Rightarrow> json parser \<Rightarrow> u8 list \<Rightarrow> int \<Rightarrow> json list \<Rightarrow> (json parse \<times> int) option" where
  "array_loop 0 value buf pos vs = None"
| "array_loop (Suc n) value buf pos vs =
     do {
       (r, pos) \<leftarrow> value buf pos;
       (case r of
          Got v \<Rightarrow>
            do {
              (ch, pos) \<leftarrow> input buf pos;
              if ch = 0x5d then Some (Got (JArray (vs @ [v])), pos)
              else if ch = 0x2c then array_loop n value buf pos (vs @ [v])
              else Some (Bad, pos)
            }
        | _ \<Rightarrow> Some (Bad, pos))
     }"

definition json_parse_array :: "nat \<Rightarrow> json parser \<Rightarrow> json parser" where
  "json_parse_array n value buf pos =
     do {
       (ch, p) \<leftarrow> input buf pos;
       if ch \<noteq> 0x5b then Some (No, unput p) else array_loop n value buf p []
     }"

definition json_parse_property :: "json parser \<Rightarrow> (u8 list \<times> json) parser" where
  "json_parse_property value buf pos =
     do {
       pos \<leftarrow> json_skip_whitespace buf pos;
       (r, pos) \<leftarrow> json_parse_string buf pos;
       (case r of
          Got key \<Rightarrow>
            do {
              pos \<leftarrow> json_skip_whitespace buf pos;
              (ch, pos) \<leftarrow> input buf pos;
              if ch \<noteq> 0x3a then Some (Bad, pos)
              else do {
                (r, pos) \<leftarrow> value buf pos;
                Some (case r of Got v \<Rightarrow> Got (key, v) | _ \<Rightarrow> Bad, pos)
              }
            }
        | _ \<Rightarrow> Some (Bad, pos))
     }"

primrec object_loop ::
    "nat \<Rightarrow> json parser \<Rightarrow> u8 list \<Rightarrow> int \<Rightarrow> (u8 list \<times> json) list \<Rightarrow> (json parse \<times> int) option" where
  "object_loop 0 value buf pos vs = None"
| "object_loop (Suc n) value buf pos vs =
     do {
       (r, pos) \<leftarrow> json_parse_property value buf pos;
       (case r of
          Got v \<Rightarrow>
            do {
              (ch, pos) \<leftarrow> input buf pos;
              if ch = 0x7d then Some (Got (JObject (vs @ [v])), pos)
              else if ch = 0x2c then object_loop n value buf pos (vs @ [v])
              else Some (Bad, pos)
            }
        | _ \<Rightarrow> Some (Bad, pos))
     }"

definition json_parse_object :: "nat \<Rightarrow> json parser \<Rightarrow> json parser" where
  "json_parse_object n value buf pos =
     do {
       (ch, p) \<leftarrow> input buf pos;
       if ch \<noteq> 0x7b then Some (No, unput p) else object_loop n value buf p []
     }"

definition alternatives :: "nat \<Rightarrow> json parser \<Rightarrow> json parser" where
  "alternatives n value buf pos =
     orelse (json_parse_object n value buf pos) (\<lambda>pos.
     orelse (json_parse_array n value buf pos) (\<lambda>pos.
     orelse (parse_as JString json_parse_string buf pos) (\<lambda>pos.
     orelse (parse_as JNumber json_parse_number buf pos) (\<lambda>pos.
     json_parse_keyword buf pos))))"

primrec json_parse_value :: "nat \<Rightarrow> json parser" where
  "json_parse_value 0 buf pos = None"
| "json_parse_value (Suc n) buf pos =
     do {
       pos \<leftarrow> json_skip_whitespace buf pos;
       (r, pos) \<leftarrow> alternatives n (json_parse_value n) buf pos;
       value_out buf r pos
     }"

text \<open>
  The tree, or \<open>Some None\<close> for the null pointer. \<open>json_parse\<close> stops at the terminating zero of its string;
  \<open>json_parse_file\<close> runs on the contents of a file, \<open>None\<close> when it cannot be opened or read.
\<close>

definition json_root :: "nat \<Rightarrow> u8 list \<Rightarrow> json option option" where
  "json_root fuel buf =
     map_option (\<lambda>(r, _). case r of Got v \<Rightarrow> Some v | _ \<Rightarrow> None) (json_parse_value fuel buf 0)"

definition json_parse :: "nat \<Rightarrow> u8 list \<Rightarrow> json option option" where
  "json_parse fuel s = json_root fuel (takeWhile (\<lambda>ch. ch \<noteq> 0) s)"

definition json_parse_file :: "nat \<Rightarrow> u8 list option \<Rightarrow> json option option" where
  "json_parse_file fuel contents =
     (case contents of None \<Rightarrow> Some None | Some buf \<Rightarrow> json_root fuel buf)"

section \<open>Accessors\<close>

text \<open>A null pointer is \<open>None\<close>; \<open>json_get_child\<close> is only called on the root.\<close>

definition json_get_child :: "json \<Rightarrow> u8 list \<Rightarrow> json option" where
  "json_get_child obj key = (case obj of JObject ms \<Rightarrow> map_of ms key | _ \<Rightarrow> None)"

definition json_count_children :: "json option \<Rightarrow> int" where
  "json_count_children v = (case v of Some (JArray vs) \<Rightarrow> int (length vs) | _ \<Rightarrow> -1)"

definition json_get_number :: "json option \<Rightarrow> u8 list \<Rightarrow> nat option" where
  "json_get_number obj key =
     (case obj of
        Some (JObject ms) \<Rightarrow> (case map_of ms key of Some (JNumber n) \<Rightarrow> Some n | _ \<Rightarrow> None)
      | _ \<Rightarrow> None)"

definition json_get_string :: "json option \<Rightarrow> u8 list \<Rightarrow> u8 list option" where
  "json_get_string obj key =
     (case obj of
        Some (JObject ms) \<Rightarrow> (case map_of ms key of Some (JString s) \<Rightarrow> Some s | _ \<Rightarrow> None)
      | _ \<Rightarrow> None)"

section \<open>Termination\<close>

lemma input_here: "0 \<le> pos \<Longrightarrow> pos < int (length buf) \<Longrightarrow> input buf pos = Some (buf ! nat pos, pos + 1)"
  by (simp add: input_def)

lemma input_end: "input buf (int (length buf)) = Some (0, int (length buf))"
  by (simp add: input_def)

text \<open>
  Skipping stops on a character of the buffer: at the end of the input it steps back to the last one.
\<close>

lemma skip_stops:
  assumes "0 \<le> pos" "pos \<le> int (length buf)" "buf \<noteq> []"
  shows "\<exists>p. json_skip_whitespace buf pos = Some p \<and> min pos (int (length buf) - 1) \<le> p \<and> p < int (length buf)"
  using assms
proof (induction buf pos rule: json_skip_whitespace.induct)
  case (1 buf pos)
  show ?case
  proof (cases "pos < int (length buf)")
    case True
    have i: "input buf pos = Some (buf ! nat pos, pos + 1)" using True 1 by (simp add: input_here)
    show ?thesis
    proof (cases "buf ! nat pos \<noteq> 0 \<and> isspace (buf ! nat pos)")
      case space: True
      then obtain p where p: "json_skip_whitespace buf (pos + 1) = Some p" "min (pos + 1) (int (length buf) - 1) \<le> p"
          "p < int (length buf)"
        using 1(1) [OF i refl space] True 1(2-4) by auto
      have "json_skip_whitespace buf pos = Some p" using i space p by (subst json_skip_whitespace.simps) simp
      then show ?thesis using p by auto
    next
      case False
      have "json_skip_whitespace buf pos = Some pos"
        using i False by (subst json_skip_whitespace.simps) (auto simp: unput_def)
      then show ?thesis using True by auto
    qed
  next
    case False
    then have "pos = int (length buf)" using 1 by simp
    then have "json_skip_whitespace buf pos = Some (int (length buf) - 1)"
      by (subst json_skip_whitespace.simps) (simp add: input_end unput_def)
    then show ?thesis by simp
  qed
qed

lemma take_while_stops:
  assumes "0 \<le> pos" "pos \<le> int (length buf)"
  shows "\<exists>ch p b'. take_while P room buf pos b = Some (ch, p, b') \<and> pos \<le> p \<and> p \<le> int (length buf) \<and>
    (pos < int (length buf) \<longrightarrow> pos < p) \<and> (b' = b \<longrightarrow> p \<le> pos + 1) \<and> length b \<le> length b'"
  using assms
proof (induction P room buf pos b rule: take_while.induct)
  case (1 P room buf pos b)
  show ?case
  proof (cases "pos < int (length buf)")
    case True
    have i: "input buf pos = Some (buf ! nat pos, pos + 1)" using True 1 by (simp add: input_here)
    show ?thesis
    proof (cases "buf ! nat pos \<noteq> 0 \<and> P (buf ! nat pos) \<and> length b < room")
      case more: True
      obtain ch p b' where p: "take_while P room buf (pos + 1) (b @ [buf ! nat pos]) = Some (ch, p, b')"
          "pos + 1 \<le> p" "p \<le> int (length buf)" "length b < length b'"
        using 1(1) [OF i refl more] True 1(2) by (auto simp: Suc_le_eq)
      have "take_while P room buf pos b = Some (ch, p, b')" using i more p by (subst take_while.simps) simp
      then show ?thesis using p by auto
    next
      case False
      have "take_while P room buf pos b = Some (buf ! nat pos, pos + 1, b)"
        using i False by (subst take_while.simps) auto
      then show ?thesis using True by auto
    qed
  next
    case False
    then have pos: "pos = int (length buf)" using 1 by simp
    then have "take_while P room buf pos b = Some (0, pos, b)"
      by (subst take_while.simps) (simp add: input_end)
    then show ?thesis using pos by simp
  qed
qed

text \<open>A parser returns, never behind where it started, and exactly there when it gives 0.\<close>

definition returns :: "u8 list \<Rightarrow> int \<Rightarrow> ('a parse \<times> int) option \<Rightarrow> bool" where
  "returns buf pos r \<longleftrightarrow> (\<exists>x p. r = Some (x, p) \<and> pos \<le> p \<and> p \<le> int (length buf) \<and> (x = No \<longrightarrow> p = pos))"

lemma returns_orelse:
  "returns buf pos r \<Longrightarrow> returns buf pos (next pos) \<Longrightarrow> returns buf pos (orelse r next)"
  by (auto simp: returns_def orelse_def)

lemma returns_as:
  assumes "returns buf pos (p buf pos)"
  shows "returns buf pos (parse_as f p buf pos)"
proof -
  obtain x q where "p buf pos = Some (x, q)" "pos \<le> q" "q \<le> int (length buf)" "x = No \<longrightarrow> q = pos"
    using assms by (auto simp: returns_def)
  then show ?thesis by (cases x) (simp_all add: returns_def parse_as_def map_parse_def)
qed

lemma string_returns:
  assumes "0 \<le> pos" "pos < int (length buf)"
  shows "returns buf pos (json_parse_string buf pos)"
proof -
  obtain ch p b where "take_while (\<lambda>ch. ch \<noteq> 0x22) 127 buf (pos + 1) [] = Some (ch, p, b)" "pos + 1 \<le> p" "p \<le> int (length buf)"
    using take_while_stops [of "pos + 1" buf] assms by fastforce
  then show ?thesis using assms by (auto simp: json_parse_string_def returns_def input_here unput_def)
qed

lemma number_returns:
  assumes "0 \<le> pos" "pos < int (length buf)"
  shows "returns buf pos (json_parse_number buf pos)"
proof -
  obtain ch p b where "take_while isdigit 19 buf pos [] = Some (ch, p, b)" "pos < p" "p \<le> int (length buf)"
      "b = [] \<longrightarrow> p \<le> pos + 1"
    using take_while_stops [of pos buf isdigit 19 "[]"] assms by auto
  then show ?thesis by (auto simp: json_parse_number_def returns_def unput_def)
qed

lemma match_returns:
  "0 \<le> pos \<Longrightarrow> pos \<le> int (length buf) \<Longrightarrow> \<exists>m' p. match_loop buf m ch pos = Some (m', p) \<and> pos \<le> p \<and> p \<le> int (length buf)"
proof (induction m arbitrary: ch pos)
  case (Cons c m)
  show ?case
  proof (cases "pos < int (length buf)")
    case True
    then show ?thesis using Cons.IH [of "pos + 1" "buf ! nat pos"] Cons.prems by (auto simp: input_here)
  next
    case False
    then show ?thesis using Cons.IH [of pos 0] Cons.prems by (auto simp: input_def)
  qed
qed simp

lemma keyword_returns:
  assumes "0 \<le> pos" "pos < int (length buf)"
  shows "returns buf pos (json_parse_keyword buf pos)"
proof -
  have k: "returns buf pos (do { (m, p) \<leftarrow> match_loop buf m ch (pos + 1); Some (if m = [] then Got v else Bad, unput p) })"
    for m ch and v :: json
  proof -
    obtain m' p where "match_loop buf m ch (pos + 1) = Some (m', p)" "pos + 1 \<le> p" "p \<le> int (length buf)"
      using match_returns [of "pos + 1" buf m ch] assms by auto
    then show ?thesis by (simp add: returns_def unput_def)
  qed
  have "returns buf pos (Some (No :: json parse, pos))" using assms by (simp add: returns_def)
  then show ?thesis
    unfolding json_parse_keyword_def using assms k by (simp add: input_here unput_def del: match_loop.simps)
qed

text \<open>
  What arrays and objects rely on: the parser of values returns from every position from \<open>lo\<close> on, with 1 or
  -1, and fails at the end of the input after a comma or a colon.
\<close>

definition value_returns :: "u8 list \<Rightarrow> int \<Rightarrow> json parser \<Rightarrow> bool" where
  "value_returns buf lo value \<longleftrightarrow>
     (\<forall>pos. lo \<le> pos \<and> pos < int (length buf) \<longrightarrow>
        (\<exists>x p. value buf pos = Some (x, p) \<and> x \<noteq> No \<and> pos \<le> p \<and> p < int (length buf))) \<and>
     (last buf = 0x2c \<or> last buf = 0x3a \<longrightarrow> value buf (int (length buf)) = Some (Bad, int (length buf) - 1))"

lemma value_returnsD:
  assumes "value_returns buf lo value" "lo \<le> pos" "pos \<le> int (length buf)"
    and "pos = int (length buf) \<Longrightarrow> last buf = 0x2c \<or> last buf = 0x3a"
  obtains p where "value buf pos = Some (Bad, p)" "pos \<le> p + 1" "p \<le> int (length buf)"
  | v p where "value buf pos = Some (Got v, p)" "pos \<le> p" "p < int (length buf)"
proof (cases "pos < int (length buf)")
  case True
  then obtain x p where x: "value buf pos = Some (x, p)" "x \<noteq> No" "pos \<le> p" "p < int (length buf)"
    using assms(1,2) by (auto simp: value_returns_def)
  then show thesis by (cases x) (auto intro: that)
next
  case False
  then have "pos = int (length buf)" using assms(3) by simp
  then show thesis using assms(1,4) that(1) by (simp add: value_returns_def)
qed

text \<open>A comma or a colon that has just been read is the last character when nothing follows.\<close>

lemma last_read:
  assumes "input buf p = Some (c, int (length buf))" "c \<noteq> 0"
  shows "last buf = c"
proof -
  have "p + 1 = int (length buf)" "0 \<le> p" "c = buf ! nat p" using assms by (auto simp: input_def split: if_splits)
  moreover from this have "nat p = length buf - 1" "buf \<noteq> []" by auto
  ultimately show ?thesis by (simp add: last_conv_nth)
qed

lemma array_loop_returns:
  assumes "value_returns buf lo value" "0 \<le> lo" "lo \<le> pos" "pos \<le> int (length buf)"
    and "pos = int (length buf) \<Longrightarrow> last buf = 0x2c" "int (length buf) - pos < int n"
  shows "\<exists>x p. array_loop n value buf pos vs = Some (x, p) \<and> x \<noteq> No \<and> pos \<le> p + 1 \<and> p \<le> int (length buf)"
  using assms(3-)
proof (induction n arbitrary: pos vs)
  case (Suc n)
  from assms(1) Suc.prems(1,2) show ?case
  proof (rule value_returnsD)
    fix v p assume v: "value buf pos = Some (Got v, p)" "pos \<le> p" "p < int (length buf)"
    then have i: "input buf p = Some (buf ! nat p, p + 1)" using assms(2) Suc.prems(1) by (intro input_here) auto
    show ?thesis
    proof (cases "buf ! nat p = 0x2c")
      case True
      then have "\<exists>x q. array_loop n value buf (p + 1) (vs @ [v]) = Some (x, q) \<and> x \<noteq> No \<and> p + 1 \<le> q + 1 \<and> q \<le> int (length buf)"
        using v i Suc.prems last_read [of buf p "0x2c"] by (intro Suc.IH) auto
      then show ?thesis using v i True by auto
    qed (use v i in auto)
  qed (use Suc.prems in auto)
qed simp

lemma property_returns:
  assumes val: "value_returns buf lo value" "0 \<le> lo" and pos: "lo \<le> pos" "pos \<le> int (length buf)"
    and last: "pos = int (length buf) \<Longrightarrow> last buf \<noteq> 0x22" and "buf \<noteq> []"
  shows "\<exists>x p. json_parse_property value buf pos = Some (x, p) \<and> x \<noteq> No \<and> pos \<le> p + 1 \<and> p \<le> int (length buf) \<and>
    (\<forall>v. x = Got v \<longrightarrow> pos \<le> p \<and> p < int (length buf))"
proof -
  obtain p0 where p0: "json_skip_whitespace buf pos = Some p0" "min pos (int (length buf) - 1) \<le> p0" "p0 < int (length buf)"
    using skip_stops [of pos buf] assms by auto
  then have "0 \<le> p0" using val(2) pos \<open>buf \<noteq> []\<close> by (cases buf) auto
  then obtain x p1 where x: "json_parse_string buf p0 = Some (x, p1)" "p0 \<le> p1" "p1 \<le> int (length buf)" "x = No \<longrightarrow> p1 = p0"
    using string_returns [of p0 buf] p0(3) by (auto simp: returns_def)
  show ?thesis
  proof (cases x)
    case (Got key)
    have "pos < int (length buf)"
    proof (rule ccontr)
      assume "\<not> pos < int (length buf)"
      then have "pos = int (length buf)" "p0 = int (length buf) - 1" using pos p0 by auto
      moreover from this have "nat p0 = length buf - 1" by auto
      then have "buf ! nat p0 = last buf" using \<open>buf \<noteq> []\<close> by (simp add: last_conv_nth)
      ultimately show False
        using last x(1) Got \<open>0 \<le> p0\<close> p0(3) by (simp add: json_parse_string_def input_here)
    qed
    moreover obtain p2 where p2: "json_skip_whitespace buf p1 = Some p2" "min p1 (int (length buf) - 1) \<le> p2" "p2 < int (length buf)"
      using skip_stops [of p1 buf] x \<open>0 \<le> p0\<close> \<open>buf \<noteq> []\<close> by auto
    ultimately have le: "pos \<le> p2" "0 \<le> p2" using p0 x(2) val(2) pos(1) by auto
    then have i: "input buf p2 = Some (buf ! nat p2, p2 + 1)" using p2(3) by (simp add: input_here)
    show ?thesis
    proof (cases "buf ! nat p2 = 0x3a")
      case True
      have "lo \<le> p2 + 1" "p2 + 1 \<le> int (length buf)" using le pos(1) p2(3) by auto
      from val(1) this show ?thesis
      proof (rule value_returnsD)
        show "p2 + 1 = int (length buf) \<Longrightarrow> last buf = 0x2c \<or> last buf = 0x3a"
          using last_read [of buf p2 "0x3a"] i True by simp
      qed (use p0(1) x(1) Got p2(1) i True le in \<open>auto simp: json_parse_property_def\<close>)
    qed (use p0(1) x(1) Got p2 i le in \<open>auto simp: json_parse_property_def\<close>)
  qed (use p0 x pos in \<open>auto simp: json_parse_property_def\<close>)
qed

lemma object_loop_returns:
  assumes "value_returns buf lo value" "0 \<le> lo" "lo \<le> pos" "pos \<le> int (length buf)"
    and "pos = int (length buf) \<Longrightarrow> last buf \<noteq> 0x22" "int (length buf) - pos < int n" "buf \<noteq> []"
  shows "\<exists>x p. object_loop n value buf pos vs = Some (x, p) \<and> x \<noteq> No \<and> pos \<le> p + 1 \<and> p \<le> int (length buf)"
  using assms(3-6)
proof (induction n arbitrary: pos vs)
  case (Suc n)
  obtain x p where x: "json_parse_property value buf pos = Some (x, p)" "x \<noteq> No" "pos \<le> p + 1" "p \<le> int (length buf)"
      "\<And>v. x = Got v \<Longrightarrow> pos \<le> p \<and> p < int (length buf)"
    using property_returns [OF assms(1,2) Suc.prems(1,2,3) assms(7)] by blast
  show ?case
  proof (cases x)
    case (Got v)
    then have p: "pos \<le> p" "p < int (length buf)" using x(5) by simp_all
    then have i: "input buf p = Some (buf ! nat p, p + 1)" using assms(2) Suc.prems(1) by (intro input_here) auto
    show ?thesis
    proof (cases "buf ! nat p = 0x2c")
      case True
      then have "\<exists>x q. object_loop n value buf (p + 1) (vs @ [v]) = Some (x, q) \<and> x \<noteq> No \<and> p + 1 \<le> q + 1 \<and> q \<le> int (length buf)"
        using p i Suc.prems last_read [of buf p "0x2c"] by (intro Suc.IH) auto
      then show ?thesis using x(1) Got p i True by auto
    qed (use x(1) Got p i in auto)
  qed (use x in auto)
qed simp

text \<open>
  After the loops, the alternatives: \<open>returns\<close> for arrays and objects that start before the end, in a text
  that does not end with an opening bracket.
\<close>

lemma array_returns:
  assumes "value_returns buf (pos + 1) value" "0 \<le> pos" "pos < int (length buf)" "int (length buf) - pos \<le> int n" "last buf \<noteq> 0x5b"
  shows "returns buf pos (json_parse_array n value buf pos)"
proof (cases "buf ! nat pos = 0x5b")
  case True
  have "\<exists>x p. array_loop n value buf (pos + 1) [] = Some (x, p) \<and> x \<noteq> No \<and> pos + 1 \<le> p + 1 \<and> p \<le> int (length buf)"
    using assms True last_read [of buf pos "0x5b"] by (intro array_loop_returns [of _ "pos + 1"]) (auto simp: input_here)
  then show ?thesis using assms True by (auto simp: returns_def json_parse_array_def input_here)
qed (use assms in \<open>simp add: returns_def json_parse_array_def input_here unput_def\<close>)

lemma object_returns:
  assumes "value_returns buf (pos + 1) value" "0 \<le> pos" "pos < int (length buf)" "int (length buf) - pos \<le> int n"
  shows "returns buf pos (json_parse_object n value buf pos)"
proof (cases "buf ! nat pos = 0x7b")
  case True
  have "\<exists>x p. object_loop n value buf (pos + 1) [] = Some (x, p) \<and> x \<noteq> No \<and> pos + 1 \<le> p + 1 \<and> p \<le> int (length buf)"
    using assms True last_read [of buf pos "0x7b"] by (intro object_loop_returns [of _ "pos + 1"]) (auto simp: input_here)
  then show ?thesis using assms True by (auto simp: returns_def json_parse_object_def input_here)
qed (use assms in \<open>simp add: returns_def json_parse_object_def input_here unput_def\<close>)

lemma value_out_returns:
  assumes "returns buf pos r" "0 \<le> pos" "pos < int (length buf)"
  shows "\<exists>x p. do { (r, pos) \<leftarrow> r; value_out buf r pos } = Some (x, p) \<and> x \<noteq> No \<and> pos \<le> p \<and> p < int (length buf)"
proof -
  obtain y q where y: "r = Some (y, q)" "pos \<le> q" "q \<le> int (length buf)" "y = No \<longrightarrow> q = pos"
    using assms(1) by (auto simp: returns_def)
  obtain p where "json_skip_whitespace buf q = Some p" "min q (int (length buf) - 1) \<le> p" "p < int (length buf)"
    using skip_stops [of q buf] y assms by force
  then show ?thesis using y assms(2,3) by (auto simp: value_out_def)
qed

lemma value_at_end:
  assumes "last buf = 0x2c \<or> last buf = 0x3a" "buf \<noteq> []"
  shows "json_parse_value (Suc n) buf (int (length buf)) = Some (Bad, int (length buf) - 1)"
proof -
  let ?e = "int (length buf) - 1"
  have e: "0 \<le> ?e" "?e < int (length buf)" "nat ?e = length buf - 1" using assms(2) by (simp_all add: Suc_le_eq nat_diff_distrib)
  have s: "json_skip_whitespace buf (int (length buf)) = Some ?e"
    by (subst json_skip_whitespace.simps) (simp add: input_end unput_def)
  have i: "input buf ?e = Some (last buf, ?e + 1)" using e assms(2) by (simp add: input_here last_conv_nth)
  have "take_while isdigit 19 buf ?e [] = Some (last buf, ?e + 1, [])"
    using assms(1) by (subst take_while.simps) (auto simp: i isdigit_def)
  then have "json_parse_number buf ?e = Some (No, ?e)" by (simp add: json_parse_number_def unput_def)
  moreover have "json_parse_string buf ?e = Some (No, ?e)" "json_parse_keyword buf ?e = Some (No, ?e)"
      "json_parse_array n v buf ?e = Some (No, ?e)" "json_parse_object n v buf ?e = Some (No, ?e)" for v
    using assms(1) i
    by (auto simp: json_parse_string_def json_parse_keyword_def json_parse_array_def json_parse_object_def unput_def)
  ultimately show ?thesis by (simp add: s alternatives_def orelse_def parse_as_def map_parse_def value_out_def)
qed

lemma json_value_returns:
  assumes "buf \<noteq> []" "last buf \<noteq> 0x5b"
  shows "0 \<le> lo \<Longrightarrow> lo \<le> int (length buf) \<Longrightarrow> int (length buf) - lo < int n \<Longrightarrow> value_returns buf lo (json_parse_value n)"
proof (induction n arbitrary: lo)
  case (Suc n)
  have "\<exists>x p. json_parse_value (Suc n) buf pos = Some (x, p) \<and> x \<noteq> No \<and> pos \<le> p \<and> p < int (length buf)"
    if pos: "lo \<le> pos" "pos < int (length buf)" for pos
  proof -
    obtain p0 where p0: "json_skip_whitespace buf pos = Some p0" "pos \<le> p0" "p0 < int (length buf)"
      using skip_stops [of pos buf] pos Suc.prems assms(1) by auto
    then have 0: "0 \<le> p0" using pos Suc.prems by auto
    have v: "value_returns buf (p0 + 1) (json_parse_value n)"
      using pos p0 Suc.prems by (intro Suc.IH) auto
    have n: "int (length buf) - p0 \<le> int n" using pos p0 Suc.prems by auto
    have "returns buf p0 (alternatives n (json_parse_value n) buf p0)"
      unfolding alternatives_def
      by (intro returns_orelse returns_as object_returns [OF v 0 p0(3) n] array_returns [OF v 0 p0(3) n assms(2)]
          string_returns [OF 0 p0(3)] number_returns [OF 0 p0(3)] keyword_returns [OF 0 p0(3)])
    from value_out_returns [OF this 0 p0(3)] show ?thesis using p0 by auto
  qed
  then show ?case
    using value_at_end [OF _ assms(1), of n] unfolding value_returns_def by blast
qed simp

section \<open>Reading what has been written\<close>

text \<open>
  The documents the reader is made for: keywords, numbers of up to 19 digits, strings of up to 127 characters
  without escapes, arrays and objects with at least one member, and white space between all of these.
\<close>

definition spaces :: "u8 list \<Rightarrow> bool" where
  "spaces w \<longleftrightarrow> list_all isspace w"

definition unescaped :: "u8 list \<Rightarrow> bool" where
  "unescaped s \<longleftrightarrow> length s \<le> 127 \<and> 0 \<notin> set s \<and> 0x22 \<notin> set s"

inductive bare :: "u8 list \<Rightarrow> json \<Rightarrow> bool"
  and jelems :: "u8 list \<Rightarrow> json list \<Rightarrow> bool"
  and jmembers :: "u8 list \<Rightarrow> (u8 list \<times> json) list \<Rightarrow> bool"
where
  bare_true: "bare kw_true JTrue"
| bare_false: "bare kw_false JFalse"
| bare_null: "bare kw_null JNull"
| bare_number: "d \<noteq> [] \<Longrightarrow> list_all isdigit d \<Longrightarrow> length d \<le> 19 \<Longrightarrow> bare d (JNumber (strtod d))"
| bare_string: "unescaped s \<Longrightarrow> bare (0x22 # s @ [0x22]) (JString s)"
| bare_array: "jelems es vs \<Longrightarrow> bare (0x5b # es @ [0x5d]) (JArray vs)"
| bare_object: "jmembers ms kvs \<Longrightarrow> bare (0x7b # ms @ [0x7d]) (JObject kvs)"
| elem_last: "spaces w \<Longrightarrow> bare t v \<Longrightarrow> spaces w' \<Longrightarrow> jelems (w @ t @ w') [v]"
| elem_more: "spaces w \<Longrightarrow> bare t v \<Longrightarrow> spaces w' \<Longrightarrow> jelems es vs \<Longrightarrow> jelems (w @ t @ w' @ 0x2c # es) (v # vs)"
| member_last: "spaces u \<Longrightarrow> unescaped k \<Longrightarrow> spaces u' \<Longrightarrow> spaces w \<Longrightarrow> bare t v \<Longrightarrow> spaces w' \<Longrightarrow>
    jmembers (u @ (0x22 # k @ [0x22]) @ u' @ 0x3a # w @ t @ w') [(k, v)]"
| member_more: "spaces u \<Longrightarrow> unescaped k \<Longrightarrow> spaces u' \<Longrightarrow> spaces w \<Longrightarrow> bare t v \<Longrightarrow> spaces w' \<Longrightarrow> jmembers ms kvs \<Longrightarrow>
    jmembers (u @ (0x22 # k @ [0x22]) @ u' @ 0x3a # w @ t @ w' @ 0x2c # ms) ((k, v) # kvs)"

text \<open>The reading loops on a buffer that is split at the position.\<close>

lemma input_split: "input (pre @ c # post) (int (length pre)) = Some (c, int (length pre) + 1)"
  by (simp add: input_def)

lemma input_split_end: "input pre (int (length pre)) = Some (0, int (length pre))"
  by (simp add: input_def)

lemma skip_split:
  assumes "spaces w" "c = 0 \<or> \<not> isspace c"
  shows "json_skip_whitespace (pre @ w @ c # post) (int (length pre)) = Some (int (length (pre @ w)))"
  using assms(1)
proof (induction w arbitrary: pre)
  case Nil
  then show ?case using assms(2) by (subst json_skip_whitespace.simps) (auto simp: input_split unput_def)
next
  case (Cons a w)
  then have "json_skip_whitespace ((pre @ [a]) @ w @ c # post) (int (length (pre @ [a]))) = Some (int (length ((pre @ [a]) @ w)))"
    by (intro Cons.IH) (simp add: spaces_def)
  moreover have "a \<noteq> 0" "isspace a" using Cons.prems by (auto simp: spaces_def isspace_def)
  ultimately show ?case by (subst json_skip_whitespace.simps) (simp add: input_split add.commute)
qed

lemma take_while_split:
  assumes "list_all P s" "0 \<notin> set s" "length b + length s \<le> room"
    and "c = 0 \<or> \<not> P c \<or> length b + length s = room"
  shows "take_while P room (pre @ s @ c # post) (int (length pre)) b = Some (c, int (length (pre @ s)) + 1, b @ s)"
  using assms
proof (induction s arbitrary: pre b)
  case Nil
  then show ?case by (subst take_while.simps) (auto simp: input_split)
next
  case (Cons a s)
  have "take_while P room ((pre @ [a]) @ s @ c # post) (int (length (pre @ [a]))) (b @ [a]) =
      Some (c, int (length ((pre @ [a]) @ s)) + 1, (b @ [a]) @ s)"
    using Cons.prems by (intro Cons.IH) auto
  then show ?case using Cons.prems by (subst take_while.simps) (simp add: input_split add.commute)
qed

lemma take_while_split_end:
  assumes "list_all P s" "0 \<notin> set s" "length b + length s \<le> room"
  shows "take_while P room (pre @ s) (int (length pre)) b = Some (0, int (length (pre @ s)), b @ s)"
  using assms
proof (induction s arbitrary: pre b)
  case Nil
  then show ?case by (subst take_while.simps) (auto simp: input_split_end)
next
  case (Cons a s)
  have "take_while P room ((pre @ [a]) @ s) (int (length (pre @ [a]))) (b @ [a]) =
      Some (0, int (length ((pre @ [a]) @ s)), (b @ [a]) @ s)"
    using Cons.prems by (intro Cons.IH) auto
  then show ?case using Cons.prems by (subst take_while.simps) (simp add: input_split add.commute)
qed

lemma match_split:
  "match_loop (pre @ c # m @ post) (c # m) c (int (length pre) + 1) =
     Some ([], int (length pre) + 1 + int (length m) + (if post = [] then 0 else 1))"
proof (induction m arbitrary: c pre)
  case Nil
  show ?case
  proof (cases post)
    case Nil
    then show ?thesis using input_split_end [of "pre @ [c]"] by (simp add: add.commute)
  next
    case (Cons d post')
    then show ?thesis using input_split [of "pre @ [c]" d post'] by (simp add: add.commute)
  qed
next
  case (Cons d m)
  have "input (pre @ c # d # m @ post) (int (length pre) + 1) = Some (d, int (length pre) + 1 + 1)"
    using input_split [of "pre @ [c]" d "m @ post"] by (simp add: add.commute)
  then show ?case using Cons.IH [of "pre @ [c]" d] by (simp add: add.commute add.left_commute)
qed

text \<open>The alternative that the first character chooses.\<close>

lemmas alternative_defs = alternatives_def orelse_def parse_as_def map_parse_def json_parse_object_def
  json_parse_array_def json_parse_string_def input_split unput_def

lemma alternatives_plain:
  "c \<noteq> 0x7b \<Longrightarrow> c \<noteq> 0x5b \<Longrightarrow> c \<noteq> 0x22 \<Longrightarrow>
   alternatives n v (pre @ c # post) (int (length pre)) =
     orelse (parse_as JNumber json_parse_number (pre @ c # post) (int (length pre)))
       (json_parse_keyword (pre @ c # post))"
  by (simp add: alternative_defs)

lemma alternatives_array:
  "array_loop n v (pre @ 0x5b # post) (int (length pre) + 1) [] = Some (Got x, p) \<Longrightarrow>
   alternatives n v (pre @ 0x5b # post) (int (length pre)) = Some (Got x, p)"
  by (simp add: alternative_defs)

lemma alternatives_object:
  "object_loop n v (pre @ 0x7b # post) (int (length pre) + 1) [] = Some (Got x, p) \<Longrightarrow>
   alternatives n v (pre @ 0x7b # post) (int (length pre)) = Some (Got x, p)"
  by (simp add: alternative_defs)

lemma string_split:
  assumes "unescaped s"
  shows "json_parse_string (pre @ 0x22 # s @ 0x22 # post) (int (length pre)) = Some (Got s, int (length pre) + int (length s) + 2)"
proof -
  have "list_all (\<lambda>ch. ch \<noteq> 0x22) s" "0 \<notin> set s" "length s \<le> 127" using assms by (auto simp: unescaped_def list_all_iff)
  then have "take_while (\<lambda>ch. ch \<noteq> 0x22) 127 (pre @ 0x22 # s @ 0x22 # post) (int (length pre) + 1) [] =
      Some (0x22, int (length pre) + int (length s) + 2, s)"
    using take_while_split [of "\<lambda>ch. ch \<noteq> 0x22" s "[]" 127 "0x22" "pre @ [0x22]" post] by (simp add: add.commute)
  then show ?thesis by (simp add: json_parse_string_def input_split)
qed

lemma alternatives_string:
  "unescaped s \<Longrightarrow> alternatives n v (pre @ 0x22 # s @ 0x22 # post) (int (length pre)) =
     Some (Got (JString s), int (length pre) + int (length s) + 2)"
  using string_split [of s pre post]
  by (simp add: alternatives_def orelse_def parse_as_def map_parse_def json_parse_object_def json_parse_array_def
      input_split unput_def)

text \<open>
  The position behind a text; a number or keyword at the very end of the input is left one character earlier.
\<close>

definition behind :: "u8 list \<Rightarrow> u8 list \<Rightarrow> u8 list \<Rightarrow> int \<Rightarrow> bool" where
  "behind pre t post p \<longleftrightarrow> p = int (length (pre @ t)) \<or> post = [] \<and> p = int (length (pre @ t)) - 1"

definition delimited :: "u8 list \<Rightarrow> bool" where
  "delimited post \<longleftrightarrow> post = [] \<or> isspace (hd post) \<or> hd post \<in> {0x2c, 0x5d, 0x7d}"

lemma number_split:
  assumes d: "d \<noteq> []" "list_all isdigit d" "length d \<le> 19" and "delimited post"
  shows "\<exists>p. alternatives n v (pre @ d @ post) (int (length pre)) = Some (Got (JNumber (strtod d)), p) \<and> behind pre d post p"
proof -
  obtain c d' where cd: "d = c # d'" using d(1) by (cases d) auto
  then have c: "c \<noteq> 0x7b" "c \<noteq> 0x5b" "c \<noteq> 0x22" using d(2) by (auto simp: isdigit_def)
  have z: "0 \<notin> set d" using d(2) by (auto simp: list_all_iff isdigit_def)
  have "\<exists>p. json_parse_number (pre @ d @ post) (int (length pre)) = Some (Got (strtod d), p) \<and> behind pre d post p"
  proof (cases post)
    case Nil
    then show ?thesis
      using take_while_split_end [of isdigit d "[]" 19 pre] d z
      by (simp add: json_parse_number_def unput_def behind_def)
  next
    case (Cons a post')
    then have "\<not> isdigit a" using assms(4) by (auto simp: delimited_def isdigit_def isspace_def word_le_nat_alt)
    then show ?thesis
      using take_while_split [of isdigit d "[]" 19 a pre post'] d z Cons
      by (simp add: json_parse_number_def unput_def behind_def)
  qed
  then show ?thesis
    using alternatives_plain [OF c, of n v pre "d' @ post"] cd by (auto simp: orelse_def parse_as_def map_parse_def)
qed

lemma keyword_split:
  assumes "(t, v) \<in> {(kw_true, JTrue), (kw_false, JFalse), (kw_null, JNull)}"
  shows "\<exists>p. alternatives n val (pre @ t @ post) (int (length pre)) = Some (Got v, p) \<and> behind pre t post p"
proof -
  obtain c m where cm: "t = c # m" using assms by auto
  then have c: "c \<noteq> 0x7b" "c \<noteq> 0x5b" "c \<noteq> 0x22" "\<not> isdigit c" using assms by (auto simp: isdigit_def)
  then have "take_while isdigit 19 (pre @ c # m @ post) (int (length pre)) [] = Some (c, int (length pre) + 1, [])"
    by (subst take_while.simps) (simp add: input_split)
  then have num: "json_parse_number (pre @ c # m @ post) (int (length pre)) = Some (No, int (length pre))"
    by (simp add: json_parse_number_def unput_def)
  have "json_parse_keyword (pre @ c # m @ post) (int (length pre)) =
      do { (m, p) \<leftarrow> match_loop (pre @ c # m @ post) t c (int (length pre) + 1); Some (if m = [] then Got v else Bad, unput p) }"
    using assms cm by (auto simp: json_parse_keyword_def input_split)
  also have "\<dots> = Some (Got v, int (length pre) + int (length m) + (if post = [] then 0 else 1))"
    using match_split [of pre c m post] cm by (simp add: unput_def)
  finally show ?thesis
    using alternatives_plain [OF c(1-3), of n val pre "m @ post"] num cm
    by (auto simp: orelse_def parse_as_def map_parse_def behind_def)
qed

lemma bare_first: "bare t v \<Longrightarrow> \<exists>c t'. t = c # t' \<and> c \<noteq> 0 \<and> \<not> isspace c"
  by (erule bare.cases) (auto simp: isspace_def isdigit_def neq_Nil_conv word_le_nat_alt)

lemma delimited_spaces: "spaces w \<Longrightarrow> delimited (w @ c # post) = (if w = [] then delimited (c # post) else True)"
  by (cases w) (auto simp: delimited_def spaces_def)

lemma value_split:
  assumes w: "spaces w" "bare t v" "spaces w'" and post: "post = [] \<or> hd post \<in> {0x2c, 0x5d, 0x7d}"
    and alt: "\<exists>p. alternatives n (json_parse_value n) ((pre @ w) @ t @ w' @ post) (int (length (pre @ w))) = Some (Got v, p) \<and>
      behind (pre @ w) t (w' @ post) p"
  shows "\<exists>q. json_parse_value (Suc n) (pre @ w @ t @ w' @ post) (int (length pre)) = Some (Got v, q) \<and>
    (post \<noteq> [] \<longrightarrow> q = int (length (pre @ w @ t @ w')))"
proof -
  let ?buf = "pre @ w @ t @ w' @ post"
  obtain c t' where t: "t = c # t'" "c \<noteq> 0" "\<not> isspace c" using bare_first [OF w(2)] by blast
  obtain p where p: "alternatives n (json_parse_value n) ?buf (int (length pre) + int (length w)) = Some (Got v, p)"
      "behind (pre @ w) t (w' @ post) p"
    using alt by auto
  have s: "json_skip_whitespace ?buf (int (length pre)) = Some (int (length pre) + int (length w))"
    using skip_split [OF w(1), of c pre "t' @ w' @ post"] t by simp
  show ?thesis
  proof (cases post)
    case Nil
    have "0 \<le> p" "p \<le> int (length ?buf)" "?buf \<noteq> []" using p(2) t by (auto simp: behind_def)
    then obtain q where "json_skip_whitespace ?buf p = Some q" using skip_stops [of p ?buf] by auto
    then show ?thesis using s p Nil by (simp add: value_out_def)
  next
    case (Cons d post')
    then have "p = int (length (pre @ w @ t))" "\<not> isspace d" using p(2) post by (auto simp: behind_def isspace_def)
    moreover from this have "json_skip_whitespace ((pre @ w @ t) @ w' @ d # post') (int (length (pre @ w @ t))) =
        Some (int (length ((pre @ w @ t) @ w')))"
      using w(3) by (intro skip_split) auto
    ultimately show ?thesis using s p Cons by (simp add: value_out_def)
  qed
qed

lemma isspace_tokens: "\<not> isspace 0x22" "\<not> isspace 0x3a"
  by (simp_all add: isspace_def)

lemma property_split:
  assumes "spaces u" "unescaped k" "spaces u'"
    and "json_parse_value n (pre @ u @ (0x22 # k @ [0x22]) @ u' @ 0x3a # rest)
      (int (length (pre @ u @ (0x22 # k @ [0x22]) @ u' @ [0x3a]))) = Some (Got v, q)"
  shows "json_parse_property (json_parse_value n) (pre @ u @ (0x22 # k @ [0x22]) @ u' @ 0x3a # rest) (int (length pre)) = Some (Got (k, v), q)"
proof -
  let ?buf = "pre @ u @ 0x22 # k @ 0x22 # u' @ 0x3a # rest"
  have "json_skip_whitespace ?buf (int (length pre)) = Some (int (length pre) + int (length u))"
    using skip_split [OF assms(1), of "0x22" pre "k @ 0x22 # u' @ 0x3a # rest"] by (simp add: isspace_tokens)
  moreover have "json_parse_string ?buf (int (length pre) + int (length u)) =
      Some (Got k, int (length pre) + int (length u) + int (length k) + 2)"
    using string_split [OF assms(2), of "pre @ u" "u' @ 0x3a # rest"] by simp
  moreover have "json_skip_whitespace ?buf (int (length pre) + int (length u) + int (length k) + 2) =
      Some (int (length (pre @ u @ 0x22 # k @ 0x22 # u')))"
    using skip_split [OF assms(3), of "0x3a" "pre @ u @ 0x22 # k @ [0x22]" rest] by (simp add: isspace_tokens algebra_simps)
  moreover have "input ?buf (int (length (pre @ u @ 0x22 # k @ 0x22 # u'))) = Some (0x3a, int (length (pre @ u @ 0x22 # k @ 0x22 # u')) + 1)"
    using input_split [of "pre @ u @ 0x22 # k @ 0x22 # u'" "0x3a" rest] by simp
  ultimately show ?thesis
    using assms(4) by (simp add: json_parse_property_def algebra_simps)
qed

text \<open>One round of the loops of arrays and objects, at the last member and at any other.\<close>

lemma array_round:
  assumes "json_parse_value n (pre @ e @ c # post) (int (length pre)) = Some (Got v, int (length (pre @ e)))"
  shows "c = 0x5d \<Longrightarrow> array_loop (Suc k) (json_parse_value n) (pre @ e @ c # post) (int (length pre)) acc =
      Some (Got (JArray (acc @ [v])), int (length (pre @ e)) + 1)"
    and "c = 0x2c \<Longrightarrow> array_loop (Suc k) (json_parse_value n) (pre @ e @ c # post) (int (length pre)) acc =
      array_loop k (json_parse_value n) (pre @ e @ c # post) (int (length (pre @ e)) + 1) (acc @ [v])"
  using assms input_split [of "pre @ e" c post] by simp_all

lemma object_round:
  assumes "json_parse_property (json_parse_value n) (pre @ e @ c # post) (int (length pre)) = Some (Got v, int (length (pre @ e)))"
  shows "c = 0x7d \<Longrightarrow> object_loop (Suc k) (json_parse_value n) (pre @ e @ c # post) (int (length pre)) acc =
      Some (Got (JObject (acc @ [v])), int (length (pre @ e)) + 1)"
    and "c = 0x2c \<Longrightarrow> object_loop (Suc k) (json_parse_value n) (pre @ e @ c # post) (int (length pre)) acc =
      object_loop k (json_parse_value n) (pre @ e @ c # post) (int (length (pre @ e)) + 1) (acc @ [v])"
  using assms input_split [of "pre @ e" c post] by simp_all

definition reads_bare :: "u8 list \<Rightarrow> json \<Rightarrow> bool" where
  "reads_bare t v \<longleftrightarrow>
     (\<forall>n pre post. delimited post \<longrightarrow> length t + length post \<le> n \<longrightarrow>
        (\<exists>p. alternatives n (json_parse_value n) (pre @ t @ post) (int (length pre)) = Some (Got v, p) \<and> behind pre t post p))"

definition reads_elems :: "u8 list \<Rightarrow> json list \<Rightarrow> bool" where
  "reads_elems es vs \<longleftrightarrow>
     (\<forall>n k pre post acc. length es + 1 \<le> k \<longrightarrow> length es + 1 + length post < n \<longrightarrow>
        array_loop k (json_parse_value n) (pre @ es @ 0x5d # post) (int (length pre)) acc =
          Some (Got (JArray (acc @ vs)), int (length (pre @ es)) + 1))"

definition reads_members :: "u8 list \<Rightarrow> (u8 list \<times> json) list \<Rightarrow> bool" where
  "reads_members ms kvs \<longleftrightarrow>
     (\<forall>n k pre post acc. length ms + 1 \<le> k \<longrightarrow> length ms + 1 + length post < n \<longrightarrow>
        object_loop k (json_parse_value n) (pre @ ms @ 0x7d # post) (int (length pre)) acc =
          Some (Got (JObject (acc @ kvs)), int (length (pre @ ms)) + 1))"

lemma reads_bareD:
  "reads_bare t v \<Longrightarrow> delimited post \<Longrightarrow> length t + length post \<le> n \<Longrightarrow>
   \<exists>p. alternatives n (json_parse_value n) (pre @ t @ post) (int (length pre)) = Some (Got v, p) \<and> behind pre t post p"
  unfolding reads_bare_def by blast

lemma reads_elemsD:
  "reads_elems es vs \<Longrightarrow> length es + 1 \<le> k \<Longrightarrow> length es + 1 + length post < n \<Longrightarrow>
   array_loop k (json_parse_value n) (pre @ es @ 0x5d # post) (int (length pre)) acc =
     Some (Got (JArray (acc @ vs)), int (length (pre @ es)) + 1)"
  unfolding reads_elems_def by blast

lemma reads_membersD:
  "reads_members ms kvs \<Longrightarrow> length ms + 1 \<le> k \<Longrightarrow> length ms + 1 + length post < n \<Longrightarrow>
   object_loop k (json_parse_value n) (pre @ ms @ 0x7d # post) (int (length pre)) acc =
     Some (Got (JObject (acc @ kvs)), int (length (pre @ ms)) + 1)"
  unfolding reads_members_def by blast

text \<open>A value inside an array or object, followed by \<open>c\<close>.\<close>

lemma inner_value:
  assumes "reads_bare t v" "bare t v" "spaces w" "spaces w'" "c \<in> {0x2c, 0x5d, 0x7d}"
    and "length t + length w' + 1 + length post < n"
  shows "json_parse_value n (pre @ (w @ t @ w') @ c # post) (int (length pre)) = Some (Got v, int (length (pre @ w @ t @ w')))"
proof -
  obtain m where n: "n = Suc m" using assms(6) by (cases n) auto
  have "delimited (w' @ c # post)" using assms(4,5) by (simp add: delimited_spaces) (auto simp: delimited_def)
  then have "\<exists>p. alternatives m (json_parse_value m) ((pre @ w) @ t @ w' @ c # post) (int (length (pre @ w))) = Some (Got v, p) \<and>
      behind (pre @ w) t (w' @ c # post) p"
    using assms(6) n by (intro reads_bareD assms(1)) auto
  from value_split [OF assms(3,2,4) _ this] show ?thesis using assms(5) n by auto
qed

lemma reads_elem_last:
  assumes "reads_bare t v" "bare t v" "spaces w" "spaces w'"
  shows "reads_elems (w @ t @ w') [v]"
  unfolding reads_elems_def
proof (intro allI impI)
  fix n k :: nat and pre post :: "u8 list" and acc
  assume k: "length (w @ t @ w') + 1 \<le> k" and n: "length (w @ t @ w') + 1 + length post < n"
  obtain k' where "k = Suc k'" using k by (cases k) auto
  then show "array_loop k (json_parse_value n) (pre @ (w @ t @ w') @ 0x5d # post) (int (length pre)) acc =
      Some (Got (JArray (acc @ [v])), int (length (pre @ w @ t @ w')) + 1)"
    using array_round(1) [OF inner_value [OF assms, of "0x5d" post n pre] refl] n by simp
qed

lemma reads_elem_more:
  assumes "reads_bare t v" "bare t v" "spaces w" "spaces w'" and es: "reads_elems es vs"
  shows "reads_elems (w @ t @ w' @ 0x2c # es) (v # vs)"
  unfolding reads_elems_def
proof (intro allI impI)
  fix n k :: nat and pre post :: "u8 list" and acc
  assume k: "length (w @ t @ w' @ 0x2c # es) + 1 \<le> k" and n: "length (w @ t @ w' @ 0x2c # es) + 1 + length post < n"
  obtain k' where k': "k = Suc k'" using k by (cases k) auto
  have "array_loop k' (json_parse_value n) ((pre @ w @ t @ w' @ [0x2c]) @ es @ 0x5d # post)
      (int (length (pre @ w @ t @ w' @ [0x2c]))) (acc @ [v]) =
      Some (Got (JArray ((acc @ [v]) @ vs)), int (length ((pre @ w @ t @ w' @ [0x2c]) @ es)) + 1)"
    using k k' n by (intro reads_elemsD es) auto
  then show "array_loop k (json_parse_value n) (pre @ (w @ t @ w' @ 0x2c # es) @ 0x5d # post) (int (length pre)) acc =
      Some (Got (JArray (acc @ v # vs)), int (length (pre @ w @ t @ w' @ 0x2c # es)) + 1)"
    using array_round(2) [OF inner_value [OF assms(1-4), of "0x2c" "es @ 0x5d # post" n pre] refl, of k'] n k'
    by (simp add: add_ac)
qed

text \<open>The text of a member up to its value.\<close>

lemma inner_property:
  assumes "reads_bare t v" "bare t v" "spaces w" "spaces w'" "spaces u" "unescaped k" "spaces u'" "c \<in> {0x2c, 0x5d, 0x7d}"
    and "length t + length w' + 1 + length post < n"
  shows "json_parse_property (json_parse_value n) (pre @ (u @ (0x22 # k @ [0x22]) @ u' @ 0x3a # w @ t @ w') @ c # post) (int (length pre)) =
    Some (Got (k, v), int (length (pre @ u @ (0x22 # k @ [0x22]) @ u' @ 0x3a # w @ t @ w')))"
proof -
  let ?p = "pre @ u @ (0x22 # k @ [0x22]) @ u' @ [0x3a]"
  have "json_parse_value n (?p @ (w @ t @ w') @ c # post) (int (length ?p)) = Some (Got v, int (length (?p @ w @ t @ w')))"
    using assms(8,9) by (intro inner_value assms)
  then show ?thesis
    using property_split [OF assms(5-7), of n pre "(w @ t @ w') @ c # post"] by simp
qed

lemma reads_member_last:
  assumes "reads_bare t v" "bare t v" "spaces w" "spaces w'" "spaces u" "unescaped key" "spaces u'"
  shows "reads_members (u @ (0x22 # key @ [0x22]) @ u' @ 0x3a # w @ t @ w') [(key, v)]"
  unfolding reads_members_def
proof (intro allI impI)
  let ?m = "u @ (0x22 # key @ [0x22]) @ u' @ 0x3a # w @ t @ w'"
  fix n k :: nat and pre post :: "u8 list" and acc
  assume k: "length ?m + 1 \<le> k" and n: "length ?m + 1 + length post < n"
  obtain k' where "k = Suc k'" using k by (cases k) auto
  then show "object_loop k (json_parse_value n) (pre @ ?m @ 0x7d # post) (int (length pre)) acc =
      Some (Got (JObject (acc @ [(key, v)])), int (length (pre @ ?m)) + 1)"
    using object_round(1) [OF inner_property [OF assms, of "0x7d" post n pre] refl] n by simp
qed

lemma reads_member_more:
  assumes "reads_bare t v" "bare t v" "spaces w" "spaces w'" "spaces u" "unescaped key" "spaces u'" and ms: "reads_members ms kvs"
  shows "reads_members (u @ (0x22 # key @ [0x22]) @ u' @ 0x3a # w @ t @ w' @ 0x2c # ms) ((key, v) # kvs)"
  unfolding reads_members_def
proof (intro allI impI)
  let ?m = "u @ (0x22 # key @ [0x22]) @ u' @ 0x3a # w @ t @ w'"
  fix n k :: nat and pre post :: "u8 list" and acc
  assume k: "length (u @ (0x22 # key @ [0x22]) @ u' @ 0x3a # w @ t @ w' @ 0x2c # ms) + 1 \<le> k"
    and n: "length (u @ (0x22 # key @ [0x22]) @ u' @ 0x3a # w @ t @ w' @ 0x2c # ms) + 1 + length post < n"
  obtain k' where k': "k = Suc k'" using k by (cases k) auto
  have "object_loop k' (json_parse_value n) ((pre @ ?m @ [0x2c]) @ ms @ 0x7d # post)
      (int (length (pre @ ?m @ [0x2c]))) (acc @ [(key, v)]) =
      Some (Got (JObject ((acc @ [(key, v)]) @ kvs)), int (length ((pre @ ?m @ [0x2c]) @ ms)) + 1)"
    using k k' n by (intro reads_membersD ms) auto
  then show "object_loop k (json_parse_value n)
      (pre @ (u @ (0x22 # key @ [0x22]) @ u' @ 0x3a # w @ t @ w' @ 0x2c # ms) @ 0x7d # post) (int (length pre)) acc =
      Some (Got (JObject (acc @ (key, v) # kvs)), int (length (pre @ u @ (0x22 # key @ [0x22]) @ u' @ 0x3a # w @ t @ w' @ 0x2c # ms)) + 1)"
    using object_round(2) [OF inner_property [OF assms(1-7), of "0x2c" "ms @ 0x7d # post" n pre] refl, of k'] n k'
    by (simp add: add_ac)
qed

lemma reads_array: "reads_elems es vs \<Longrightarrow> reads_bare (0x5b # es @ [0x5d]) (JArray vs)"
  unfolding reads_bare_def
proof (intro allI impI)
  fix n :: nat and pre post :: "u8 list"
  assume es: "reads_elems es vs" and n: "length (0x5b # es @ [0x5d]) + length post \<le> n"
  have "array_loop n (json_parse_value n) ((pre @ [0x5b]) @ es @ 0x5d # post) (int (length (pre @ [0x5b]))) [] =
      Some (Got (JArray ([] @ vs)), int (length ((pre @ [0x5b]) @ es)) + 1)"
    using n by (intro reads_elemsD es) auto
  then show "\<exists>p. alternatives n (json_parse_value n) (pre @ (0x5b # es @ [0x5d]) @ post) (int (length pre)) = Some (Got (JArray vs), p) \<and>
      behind pre (0x5b # es @ [0x5d]) post p"
    using alternatives_array [of n "json_parse_value n" pre "es @ 0x5d # post" "JArray vs"] by (simp add: behind_def add_ac)
qed

lemma reads_object: "reads_members ms kvs \<Longrightarrow> reads_bare (0x7b # ms @ [0x7d]) (JObject kvs)"
  unfolding reads_bare_def
proof (intro allI impI)
  fix n :: nat and pre post :: "u8 list"
  assume ms: "reads_members ms kvs" and n: "length (0x7b # ms @ [0x7d]) + length post \<le> n"
  have "object_loop n (json_parse_value n) ((pre @ [0x7b]) @ ms @ 0x7d # post) (int (length (pre @ [0x7b]))) [] =
      Some (Got (JObject ([] @ kvs)), int (length ((pre @ [0x7b]) @ ms)) + 1)"
    using n by (intro reads_membersD ms) auto
  then show "\<exists>p. alternatives n (json_parse_value n) (pre @ (0x7b # ms @ [0x7d]) @ post) (int (length pre)) = Some (Got (JObject kvs), p) \<and>
      behind pre (0x7b # ms @ [0x7d]) post p"
    using alternatives_object [of n "json_parse_value n" pre "ms @ 0x7d # post" "JObject kvs"] by (simp add: behind_def add_ac)
qed

lemma reads_keyword: "(t, v) \<in> {(kw_true, JTrue), (kw_false, JFalse), (kw_null, JNull)} \<Longrightarrow> reads_bare t v"
  unfolding reads_bare_def by (intro allI impI keyword_split)

lemma reads_number: "d \<noteq> [] \<Longrightarrow> list_all isdigit d \<Longrightarrow> length d \<le> 19 \<Longrightarrow> reads_bare d (JNumber (strtod d))"
  unfolding reads_bare_def by (intro allI impI number_split)

lemma reads_string:
  assumes "unescaped s"
  shows "reads_bare (0x22 # s @ [0x22]) (JString s)"
  unfolding reads_bare_def
proof (intro allI impI)
  fix n :: nat and pre post :: "u8 list"
  show "\<exists>p. alternatives n (json_parse_value n) (pre @ (0x22 # s @ [0x22]) @ post) (int (length pre)) = Some (Got (JString s), p) \<and>
      behind pre (0x22 # s @ [0x22]) post p"
    using alternatives_string [OF assms, of n "json_parse_value n" pre post] by (simp add: behind_def)
qed

lemmas reads_intros = reads_keyword reads_number reads_string reads_array reads_object
  reads_elem_last reads_elem_more reads_member_last reads_member_more

lemma reads_all:
  "bare t v \<Longrightarrow> reads_bare t v"
  "jelems es vs \<Longrightarrow> reads_elems es vs"
  "jmembers ms kvs \<Longrightarrow> reads_members ms kvs"
  by (induction rule: bare_jelems_jmembers.inducts) (rule reads_intros; simp)+

lemma floorlog_bound: "n < 2 ^ k \<Longrightarrow> floorlog 2 n \<le> k"
  by (rule floorlog_leI) simp_all

lemma strtod_exact: "digits_value d < 2 ^ 53 \<Longrightarrow> strtod d = digits_value d"
  using floorlog_bound [of "digits_value d" 53] by (simp add: strtod_def to_double_def Let_def)

lemma json_reads:
  assumes "bare t v" "spaces w" "spaces w'" "length (w @ t @ w') < fuel"
  shows "json_parse_file fuel (Some (w @ t @ w')) = Some (Some v)"
proof -
  obtain n where n: "fuel = Suc n" using assms(4) by (cases fuel) auto
  have "delimited w'" using assms(3) by (cases w') (auto simp: delimited_def spaces_def)
  then have "\<exists>p. alternatives n (json_parse_value n) (w @ t @ w') (int (length w)) = Some (Got v, p) \<and> behind w t w' p"
    using reads_all(1) [OF assms(1)] assms(4) n by (intro reads_bareD) auto
  then have "\<exists>q. json_parse_value fuel (w @ t @ w') 0 = Some (Got v, q)"
    using value_split [OF assms(2,1,3), of "[]" n "[]"] n by (simp add: behind_def)
  then show ?thesis by (auto simp: json_parse_file_def json_root_def)
qed

text \<open>
  C38. Every document the reader is made for, however deep and with any white space, is read back
  as the tree it was written from; as many levels of calls as it has characters are enough. Numbers below
  \<open>2 ^ 53\<close> are exact.
\<close>

theorem json_roundtrip:
  assumes "bare t v" "spaces w" "spaces w'" "length (w @ t @ w') < fuel"
  shows "json_parse_file fuel (Some (w @ t @ w')) = Some (Some v) \<and>
    (\<forall>d. digits_value d < 2 ^ 53 \<longrightarrow> strtod d = digits_value d)"
  using json_reads [OF assms] strtod_exact by simp

text \<open>The document \<open>{"a": [1, true]}\<close>.\<close>

theorem json_roundtrip_witness:
  "json_parse_file 20 (Some [0x7b, 0x22, 0x61, 0x22, 0x3a, 0x20, 0x5b, 0x31, 0x2c, 0x20, 0x74, 0x72, 0x75, 0x65, 0x5d, 0x7d, 0x0a]) =
   Some (Some (JObject [([0x61], JArray [JNumber 1, JTrue])]))"
proof -
  have sp: "spaces []" "spaces [0x20]" "spaces [0x0a]" by (simp_all add: spaces_def isspace_def)
  have "strtod [0x31] = 1" by code_simp
  then have "bare [0x31] (JNumber 1)" using bare_number [of "[0x31]"] by (simp add: isdigit_def)
  from elem_more [OF sp(1) this sp(1) elem_last [OF sp(2) bare_true sp(1)]]
  have "bare ([0x5b, 0x31, 0x2c, 0x20, 0x74, 0x72, 0x75, 0x65] @ [0x5d]) (JArray [JNumber 1, JTrue])"
    using bare_array [of "[0x31, 0x2c, 0x20, 0x74, 0x72, 0x75, 0x65]"] by simp
  from member_last [OF sp(1) _ sp(1) sp(2) this sp(1), of "[0x61]"]
  have "bare [0x7b, 0x22, 0x61, 0x22, 0x3a, 0x20, 0x5b, 0x31, 0x2c, 0x20, 0x74, 0x72, 0x75, 0x65, 0x5d, 0x7d]
      (JObject [([0x61], JArray [JNumber 1, JTrue])])"
    using bare_object [of "[0x22, 0x61, 0x22, 0x3a, 0x20, 0x5b, 0x31, 0x2c, 0x20, 0x74, 0x72, 0x75, 0x65, 0x5d]"] by (simp add: unescaped_def)
  from json_roundtrip [OF this sp(1) sp(3), of 20] show ?thesis by simp
qed

text \<open>
  C39. On every other input too the reader ends without leaving its buffer, as long as the input is
  not empty and does not end with an opening bracket. On the empty file it reads before the buffer, and on a
  single bracket it recurses without end, because \<open>unput\<close> at the end of the input returns to the bracket.
\<close>

theorem json_terminates:
  "(buf \<noteq> [] \<and> last buf \<noteq> 0x5b \<and> length buf < fuel \<longrightarrow> (\<exists>r. json_parse_file fuel (Some buf) = Some r)) \<and>
   json_parse_file fuel (Some []) = None \<and> json_parse_file fuel (Some [0x5b]) = None"
proof (intro conjI impI)
  assume b: "buf \<noteq> [] \<and> last buf \<noteq> 0x5b \<and> length buf < fuel"
  then have "value_returns buf 0 (json_parse_value fuel)" by (intro json_value_returns) auto
  then obtain x p where "json_parse_value fuel buf 0 = Some (x, p)"
    using b unfolding value_returns_def by (metis length_greater_0_conv of_nat_0_less_iff order_refl)
  then show "\<exists>r. json_parse_file fuel (Some buf) = Some r" by (simp add: json_parse_file_def json_root_def)
next
  have "json_skip_whitespace [] 0 = Some (-1)"
    by (subst json_skip_whitespace.simps) (simp add: input_def unput_def)
  moreover have "json_parse_object n v [] (-1) = None" for n v by (simp add: json_parse_object_def input_def)
  ultimately have "json_parse_value fuel [] 0 = None"
    by (cases fuel) (simp_all add: alternatives_def orelse_def)
  then show "json_parse_file fuel (Some []) = None" by (simp add: json_parse_file_def json_root_def)
next
  have s: "json_skip_whitespace [0x5b] 0 = Some 0" "json_skip_whitespace [0x5b] 1 = Some 0"
    by (subst json_skip_whitespace.simps, simp add: input_def unput_def isspace_def)+
  have o: "json_parse_object n v [0x5b] 0 = Some (No, 0)" for n v
    by (simp add: json_parse_object_def input_def unput_def)
  have a: "json_parse_array n v [0x5b] 0 = array_loop n v [0x5b] 1 []" for n v
    by (simp add: json_parse_array_def input_def)
  have v: "json_parse_value k [0x5b] p = None" if "p = 0 \<or> p = 1" for k p
    using that
  proof (induction k arbitrary: p)
    case (Suc k)
    then have "array_loop k (json_parse_value k) [0x5b] 1 [] = None" by (cases k) auto
    then show ?case using Suc.prems s o a by (auto simp: alternatives_def orelse_def)
  qed simp
  show "json_parse_file fuel (Some [0x5b]) = None" using v [of 0 fuel] by (simp add: json_parse_file_def json_root_def)
qed

theorem json_terminates_witness: "\<exists>r. json_parse_file 3 (Some [0x7b, 0x22]) = Some r"
  using json_terminates [of "[0x7b, 0x22]" 3] by simp

text \<open>Two documents that are accepted although they are not JSON: \<open>trux\<close> and \<open>[[1]\<close>.\<close>

lemma json_sloppy:
  "json_parse 9 [0x74, 0x72, 0x75, 0x78] = Some (Some JTrue)"
  "json_parse 9 [0x5b, 0x5b, 0x31, 0x5d] = Some (Some (JArray [JArray [JNumber 1]]))"
  by code_simp+

end
