(* ===== verification/Assoc.thy ===== *)
theory Assoc
  imports Interfaces
begin

text \<open>
  The associative array of the domain mapper, \<open>pd-mapper/assoc.c\<close>: open addressing with linear probing
  that grows at 80% and never deletes. Keys are C strings without their terminator; \<open>char\<close> is unsigned
  on the target. \<open>keys[i]\<close> and \<open>values[i]\<close> are one slot, as a value is only read where its key is set.

  \<open>None\<close> stands for a failed assertion or a probe that never ends.
\<close>

section \<open>Operations\<close>

definition assoc_hash_step :: "u64 \<Rightarrow> u8 \<Rightarrow> u64" where
  "assoc_hash_step hash v =
     (let hash = push_bit 4 hash + ucast v;
          g = hash AND 0xF0000000;
          hash = (if g \<noteq> 0 then hash XOR drop_bit 24 g else hash) in
      hash AND NOT g)"

definition assoc_hash :: "u8 list \<Rightarrow> u64" where
  "assoc_hash s = foldl assoc_hash_step 0 s"

record 'v assoc =
  a_size :: nat
  a_fill :: nat
  a_slots :: "(u8 list \<times> 'v) option list"

definition assoc_init :: "nat \<Rightarrow> 'v assoc" where
  "assoc_init n = \<lparr>a_size = n, a_fill = 0, a_slots = replicate n None\<rparr>"

text \<open>The first slot from the hash on that is free or holds the key.\<close>

definition here :: "'v assoc \<Rightarrow> u8 list \<Rightarrow> nat \<Rightarrow> bool" where
  "here a key i \<longleftrightarrow> (case a_slots a ! i of None \<Rightarrow> True | Some (k, _) \<Rightarrow> k = key)"

definition assoc_slot :: "'v assoc \<Rightarrow> u8 list \<Rightarrow> nat option" where
  "assoc_slot a key = probe_first (a_size a) (here a key) (a_size a) (unat (assoc_hash key) mod a_size a)"

definition assoc_get :: "'v assoc \<Rightarrow> u8 list \<Rightarrow> 'v option option" where
  "assoc_get a key = map_option (\<lambda>i. map_option snd (a_slots a ! i)) (assoc_slot a key)"

definition assoc_put :: "'v assoc \<Rightarrow> u8 list \<Rightarrow> 'v \<Rightarrow> 'v assoc option" where
  "assoc_put a key val =
     do {
       i \<leftarrow> assoc_slot a key;
       Some (case a_slots a ! i of
               Some _ \<Rightarrow> a\<lparr>a_slots := (a_slots a)[i := Some (key, val)]\<rparr>
             | None \<Rightarrow> a\<lparr>a_slots := (a_slots a)[i := Some (key, val)], a_fill := a_fill a + 1\<rparr>)
     }"

primrec refill :: "('v assoc \<Rightarrow> u8 list \<Rightarrow> 'v \<Rightarrow> 'v assoc option) \<Rightarrow> 'v assoc \<Rightarrow> (u8 list \<times> 'v) option list \<Rightarrow> 'v assoc option" where
  "refill upd a [] = Some a"
| "refill upd a (s # ss) =
     (case s of
        None \<Rightarrow> refill upd a ss
      | Some (k, v) \<Rightarrow> do { a \<leftarrow> upd a k v; refill upd a ss })"

text \<open>The table that is grown is filled by recursive calls; one level is enough (\<open>assoc_set_Some\<close>).\<close>

primrec assoc_set_fuel :: "nat \<Rightarrow> 'v assoc \<Rightarrow> u8 list \<Rightarrow> 'v \<Rightarrow> 'v assoc option" where
  "assoc_set_fuel 0 a key val = None"
| "assoc_set_fuel (Suc n) a key val =
     (if \<not> a_fill a < a_size a then None
      else do {
        a \<leftarrow> (if 5 * a_fill a > 4 * a_size a
               then refill (assoc_set_fuel n) (assoc_init (a_size a * 5 div 4)) (a_slots a)
               else Some a);
        assoc_put a key val
      })"

definition assoc_set :: "'v assoc \<Rightarrow> u8 list \<Rightarrow> 'v \<Rightarrow> 'v assoc option" where
  "assoc_set = assoc_set_fuel 2"

function next_used :: "'v assoc \<Rightarrow> nat \<Rightarrow> nat" where
  "next_used a it = (if it < a_size a \<and> a_slots a ! it = None then next_used a (it + 1) else it)"
  by pat_completeness auto
termination by (relation "measure (\<lambda>(a, it). a_size a - it)") auto

declare next_used.simps [simp del]

definition assoc_next :: "'v assoc \<Rightarrow> nat \<Rightarrow> ((u8 list \<times> 'v) \<times> nat) option" where
  "assoc_next a it =
     (let it = next_used a it in
      if it = a_size a then None
      else if it < a_size a then map_option (\<lambda>s. (s, it + 1)) (a_slots a ! it)
      else None)"

text \<open>The loop of \<open>assoc_foreach\<close>, with fuel; the pairs it visits.\<close>

primrec foreach_fuel :: "nat \<Rightarrow> 'v assoc \<Rightarrow> nat \<Rightarrow> (u8 list \<times> 'v) list option" where
  "foreach_fuel 0 a it = None"
| "foreach_fuel (Suc n) a it =
     (case assoc_next a it of
        None \<Rightarrow> Some []
      | Some (s, it) \<Rightarrow> map_option ((#) s) (foreach_fuel n a it))"

definition assoc_foreach :: "'v assoc \<Rightarrow> (u8 list \<times> 'v) list option" where
  "assoc_foreach a = foreach_fuel (a_size a + 1) a 0"

section \<open>Invariant\<close>

abbreviation home :: "u8 list \<Rightarrow> nat" where
  "home key \<equiv> unat (assoc_hash key)"

definition used :: "'v assoc \<Rightarrow> nat set" where
  "used a = {i. i < a_size a \<and> a_slots a ! i \<noteq> None}"

definition probed :: "'v assoc \<Rightarrow> bool" where
  "probed a \<longleftrightarrow>
     (\<forall>i<a_size a. \<forall>k v. a_slots a ! i = Some (k, v) \<longrightarrow>
        (\<forall>d < probe_dist (a_size a) (home k) i. \<not> here a k ((home k + d) mod a_size a)))"

definition assoc_wf :: "'v assoc \<Rightarrow> bool" where
  "assoc_wf a \<longleftrightarrow> 0 < a_size a \<and> length (a_slots a) = a_size a \<and> a_fill a = card (used a) \<and> a_fill a < a_size a \<and> probed a"

definition assoc_inv :: "'v assoc \<Rightarrow> bool" where
  "assoc_inv a \<longleftrightarrow> assoc_wf a \<and> 6 \<le> a_size a"

definition contents :: "'v assoc \<Rightarrow> u8 list \<Rightarrow> 'v option" where
  "contents a key = Option.bind (assoc_get a key) id"

lemma finite_used [simp]: "finite (used a)"
  by (simp add: used_def)

lemma free_slot:
  assumes "assoc_wf a"
  shows "\<exists>i<a_size a. a_slots a ! i = None"
proof (rule ccontr)
  assume "\<not> ?thesis"
  then have "used a = {..<a_size a}" by (auto simp: used_def)
  then have "card (used a) = a_size a" by simp
  then show False using assms unfolding assoc_wf_def by linarith
qed

text \<open>The slot of a key in a well-formed table: the only one that holds it, or a free one.\<close>

lemma slot_Some:
  assumes "assoc_slot a key = Some i" "0 < a_size a"
  shows "i < a_size a" "here a key i" "\<forall>d < probe_dist (a_size a) (home key) i. \<not> here a key ((home key + d) mod a_size a)"
proof -
  obtain d where d: "d < a_size a" "i = (home key + d) mod a_size a" "here a key i" "\<forall>e<d. \<not> here a key ((home key + e) mod a_size a)"
    using probe_first_Some assms(1) unfolding assoc_slot_def by blast
  then show "i < a_size a" "here a key i" using assms(2) by auto
  have "probe_dist (a_size a) (home key) i = d" using probe_dist_of [OF d(1)] d(2) by simp
  then show "\<forall>d < probe_dist (a_size a) (home key) i. \<not> here a key ((home key + d) mod a_size a)" using d(4) by simp
qed

lemma slot_exists:
  assumes "assoc_wf a"
  obtains i where "assoc_slot a key = Some i"
proof (cases "assoc_slot a key")
  case None
  obtain i where i: "i < a_size a" "a_slots a ! i = None" using free_slot [OF assms] by blast
  then have "\<not> here a key i" using None probe_first_all_None unfolding assoc_slot_def by blast
  then show ?thesis using i by (simp add: here_def)
qed (use that in auto)

lemma slot_unique:
  assumes "assoc_wf a" "i < a_size a" "a_slots a ! i = Some (key, v)"
  shows "assoc_slot a key = Some i"
proof -
  let ?d = "probe_dist (a_size a) (home key) i"
  have N: "0 < a_size a" using assms(1) by (simp add: assoc_wf_def)
  have hit: "(home key + ?d) mod a_size a = i" using assms(2) by (rule probe_dist_hits)
  have "probe_first (a_size a) (here a key) (a_size a) (home key mod a_size a) = Some ((home key + ?d) mod a_size a)"
  proof (rule probe_first_least)
    show "here a key ((home key + ?d) mod a_size a)" using hit assms(3) by (simp add: here_def)
    show "\<forall>e < ?d. \<not> here a key ((home key + e) mod a_size a)" using assms by (auto simp: assoc_wf_def probed_def)
  qed (use N in simp)
  then show ?thesis using hit by (simp add: assoc_slot_def)
qed

lemma contents_iff:
  assumes "assoc_wf a"
  shows "contents a key = Some v \<longleftrightarrow> (\<exists>i<a_size a. a_slots a ! i = Some (key, v))"
proof
  assume c: "contents a key = Some v"
  obtain i where i: "assoc_slot a key = Some i" using slot_exists [OF assms] .
  have "0 < a_size a" using assms by (simp add: assoc_wf_def)
  from slot_Some(1,2) [OF i this] have "i < a_size a" "here a key i" .
  moreover have "map_option snd (a_slots a ! i) = Some v" using c i by (simp add: contents_def assoc_get_def)
  ultimately show "\<exists>i<a_size a. a_slots a ! i = Some (key, v)" by (auto simp: here_def)
next
  assume "\<exists>i<a_size a. a_slots a ! i = Some (key, v)"
  then show "contents a key = Some v" using slot_unique [OF assms] by (auto simp: contents_def assoc_get_def)
qed

lemma assoc_init_wf: "0 < n \<Longrightarrow> assoc_wf (assoc_init n)"
  by (simp add: assoc_wf_def assoc_init_def used_def probed_def)

lemma assoc_init_empty:
  assumes "0 < n"
  shows "contents (assoc_init n :: 'v assoc) = Map.empty"
proof (rule ext)
  fix k
  let ?a = "assoc_init n :: 'v assoc"
  have "contents ?a k \<noteq> Some v" for v
    using contents_iff [OF assoc_init_wf [OF assms], of k v] by (auto simp: assoc_init_def)
  then show "contents ?a k = None" by (cases "contents ?a k") auto
qed

text \<open>Putting a key where there is room.\<close>

lemma assoc_put_wf:
  assumes wf: "assoc_wf a" and room: "a_fill a + 1 < a_size a"
  obtains a' where "assoc_put a key val = Some a'" "assoc_wf a'" "contents a' = (contents a)(key \<mapsto> val)"
    "a_size a' = a_size a" "a_fill a' = a_fill a + (if contents a key = None then 1 else 0)"
proof -
  obtain i where i: "assoc_slot a key = Some i" using slot_exists [OF wf] .
  have N: "0 < a_size a" "length (a_slots a) = a_size a" using wf by (simp_all add: assoc_wf_def)
  note s = slot_Some [OF i N(1)]
  let ?slots = "(a_slots a)[i := Some (key, val)]"
  define a' where "a' = a\<lparr>a_slots := ?slots, a_fill := a_fill a + (if a_slots a ! i = None then 1 else 0)\<rparr>"
  have a': "assoc_put a key val = Some a'" "a_slots a' = ?slots" "a_size a' = a_size a"
      "a_fill a' = a_fill a + (if a_slots a ! i = None then 1 else 0)"
    using i by (cases "a_slots a ! i") (simp_all add: assoc_put_def a'_def)
  have free: "contents a key = None \<longleftrightarrow> a_slots a ! i = None"
    using i by (simp add: contents_def assoc_get_def)
  have used: "used a' = insert i (used a)"
    using a' s(1) N(2) by (auto simp: used_def nth_list_update)
  have "probed a'"
    unfolding probed_def
  proof (intro allI impI)
    fix j k v d
    assume j: "j < a_size a'" "a_slots a' ! j = Some (k, v)" and d: "d < probe_dist (a_size a') (home k) j"
    let ?e = "(home k + d) mod a_size a"
    have "\<not> here a k ?e \<and> (?e = i \<longrightarrow> k \<noteq> key)"
    proof (cases "j = i")
      case True
      then have "k = key" using j a' s(1) N(2) by simp
      moreover have "\<not> here a key ?e" using s(3) d True a' calculation by simp
      ultimately show ?thesis using s(2) by auto
    next
      case False
      then have "\<not> here a k ?e" using wf j d a' by (auto simp: assoc_wf_def probed_def)
      then show ?thesis using s(2) by (auto simp: here_def split: option.splits)
    qed
    moreover have "here a' k ?e = (if ?e = i then key = k else here a k ?e)"
      using a'(2) N s(1) by (simp add: here_def nth_list_update)
    ultimately show "\<not> here a' k ((home k + d) mod a_size a')" using a'(3) by auto
  qed
  moreover have "a_fill a' = card (used a')"
    using a' used wf s(1) by (auto simp: assoc_wf_def used_def insert_absorb)
  moreover have "a_fill a' < a_size a'" using a'(3,4) room by simp
  ultimately have wf': "assoc_wf a'" using wf a' by (simp add: assoc_wf_def)
  have "contents a' k = Some v \<longleftrightarrow> ((contents a)(key \<mapsto> val)) k = Some v" for k v
    unfolding contents_iff [OF wf'] fun_upd_apply
  proof (cases "k = key")
    case True
    have "j = i" if "j < a_size a" "a_slots a ! j = Some (key, w)" for j w
      using slot_unique [OF wf that] i by simp
    then show "(\<exists>j<a_size a'. a_slots a' ! j = Some (k, v)) = ((if k = key then Some val else contents a k) = Some v)"
      using True a' s(1) N(2) by (auto simp: nth_list_update)
  next
    case False
    have "a_slots a ! i \<noteq> Some (k, v)" using False s(2) by (auto simp: here_def)
    then have "a_slots a' ! j = Some (k, v) \<longleftrightarrow> a_slots a ! j = Some (k, v)" if "j < a_size a" for j
      using False a'(2) N(2) that by (cases "j = i") auto
    then show "(\<exists>j<a_size a'. a_slots a' ! j = Some (k, v)) = ((if k = key then Some val else contents a k) = Some v)"
      using False a'(3) contents_iff [OF wf, of k v] by auto
  qed
  then have "contents a' = (contents a)(key \<mapsto> val)" by (metis (no_types) ext option.exhaust)
  then show thesis using that a' wf' free by auto
qed

text \<open>
  Refilling a larger table: it never grows itself, and ends with the contents of the slots.
\<close>

fun entries :: "(u8 list \<times> 'v) option list \<Rightarrow> (u8 list \<times> 'v) list" where
  "entries [] = []"
| "entries (None # ss) = entries ss"
| "entries (Some s # ss) = s # entries ss"

lemma set_entries: "set (entries ss) = {s. Some s \<in> set ss}"
  by (induction ss rule: entries.induct) auto

lemma length_entries: "length (entries ss) = card {i. i < length ss \<and> ss ! i \<noteq> None}"
proof (induction ss rule: rev_induct)
  case (snoc s ss)
  have "entries (ss @ [s]) = entries ss @ (case s of None \<Rightarrow> [] | Some x \<Rightarrow> [x])"
    by (induction ss rule: entries.induct) (auto split: option.splits)
  moreover have "{i. i < length (ss @ [s]) \<and> (ss @ [s]) ! i \<noteq> None} =
      {i. i < length ss \<and> ss ! i \<noteq> None} \<union> (if s = None then {} else {length ss})"
    by (auto simp: nth_append less_Suc_eq)
  ultimately show ?case using snoc by (auto simp: card_insert_if split: option.splits)
qed simp

lemma refill_wf:
  assumes "assoc_wf a" "a_fill a + length (entries ss) < a_size a"
    "5 * (a_fill a + length (entries ss)) \<le> 4 * a_size a + 5"
  shows "\<exists>a'. refill (assoc_set_fuel (Suc n)) a ss = Some a' \<and> assoc_wf a' \<and> a_size a' = a_size a \<and>
    a_fill a' \<le> a_fill a + length (entries ss) \<and> contents a' = contents a ++ map_of (rev (entries ss))"
  using assms
proof (induction ss arbitrary: a rule: entries.induct)
  case (3 s ss)
  obtain k v where s: "s = (k, v)" by fastforce
  have room: "a_fill a + 1 + length (entries ss) < a_size a" "5 * (a_fill a + 1 + length (entries ss)) \<le> 4 * a_size a + 5"
    using 3 by simp_all
  have "a_fill a + 1 < a_size a" using room by linarith
  with 3(2) obtain a' where a': "assoc_put a k v = Some a'" "assoc_wf a'" "contents a' = (contents a)(k \<mapsto> v)"
      "a_size a' = a_size a" "a_fill a' = a_fill a + (if contents a k = None then 1 else 0)"
    by (rule assoc_put_wf)
  have "a_fill a < a_size a" "\<not> 4 * a_size a < 5 * a_fill a" using room by simp_all
  then have set: "assoc_set_fuel (Suc n) a k v = Some a'" using a'(1) by simp
  have le: "a_fill a' \<le> a_fill a + 1" using a'(5) by simp
  then have "a_fill a' + length (entries ss) < a_size a'" "5 * (a_fill a' + length (entries ss)) \<le> 4 * a_size a' + 5"
    using room a'(4) by (simp_all add: distrib_left)
  from 3(1) [OF a'(2) this] obtain a'' where "refill (assoc_set_fuel (Suc n)) a' ss = Some a''" "assoc_wf a''" "a_size a'' = a_size a'"
      "a_fill a'' \<le> a_fill a' + length (entries ss)" "contents a'' = contents a' ++ map_of (rev (entries ss))"
    by blast
  then show ?case using s set a' le by (auto simp: map_add_upd_left simp del: assoc_set_fuel.simps)
qed simp_all

text \<open>The entries of a well-formed table are its contents, each key once.\<close>

lemma entries_iff:
  assumes "assoc_wf a"
  shows "(k, v) \<in> set (entries (a_slots a)) \<longleftrightarrow> contents a k = Some v"
  using assms unfolding contents_iff [OF assms] by (auto simp: set_entries in_set_conv_nth assoc_wf_def)

lemma distinct_entries:
  "(\<And>i j k v w. i < length ss \<Longrightarrow> j < length ss \<Longrightarrow> ss ! i = Some (k, v) \<Longrightarrow> ss ! j = Some (k, w) \<Longrightarrow> i = j) \<Longrightarrow>
   distinct (map fst (entries ss))"
proof (induction ss rule: entries.induct)
  case (2 ss)
  then show ?case using 2(2) [of "Suc _" "Suc _"] by simp
next
  case (3 s ss)
  have "fst s \<notin> fst ` set (entries ss)"
  proof
    assume "fst s \<in> fst ` set (entries ss)"
    then obtain w where "Some (fst s, w) \<in> set ss" by (auto simp: set_entries)
    then obtain j where "j < length ss" "ss ! j = Some (fst s, w)" by (auto simp: in_set_conv_nth)
    then show False using 3(2) [of 0 "Suc j" "fst s" "snd s" w] by simp
  qed
  moreover have "distinct (map fst (entries ss))" using 3(2) [of "Suc _" "Suc _"] by (intro 3(1)) simp
  ultimately show ?case by simp
qed simp

lemma assoc_entries_distinct:
  assumes "assoc_wf a"
  shows "distinct (map fst (entries (a_slots a)))"
proof (rule distinct_entries)
  fix i j k v w
  assume "i < length (a_slots a)" "j < length (a_slots a)" "a_slots a ! i = Some (k, v)" "a_slots a ! j = Some (k, w)"
  then show "i = j" using slot_unique [OF assms, of i k v] slot_unique [OF assms, of j k w] assms by (simp add: assoc_wf_def)
qed

lemma map_of_entries:
  assumes "assoc_wf a"
  shows "map_of (rev (entries (a_slots a))) = contents a"
proof (rule ext)
  fix k
  show "map_of (rev (entries (a_slots a))) k = contents a k"
  proof (cases "contents a k")
    case None
    then have "k \<notin> fst ` set (rev (entries (a_slots a)))" using entries_iff [OF assms] by force
    then have "map_of (rev (entries (a_slots a))) k = None" unfolding map_of_eq_None_iff .
    then show ?thesis using None by simp
  next
    case (Some v)
    then have "(k, v) \<in> set (rev (entries (a_slots a)))" using entries_iff [OF assms] by simp
    then show ?thesis using Some assoc_entries_distinct [OF assms] by (simp add: map_of_eq_Some_iff rev_map [symmetric])
  qed
qed

lemma assoc_set_Some:
  assumes "assoc_inv a"
  obtains a' where "assoc_set a key val = Some a'" "assoc_inv a'" "contents a' = (contents a)(key \<mapsto> val)"
proof -
  have a: "assoc_wf a" "6 \<le> a_size a" "a_fill a < a_size a" using assms by (auto simp: assoc_inv_def assoc_wf_def)
  have fill: "length (entries (a_slots a)) = a_fill a"
    using a(1) by (simp add: length_entries assoc_wf_def used_def)
  define b where "b = (if 5 * a_fill a > 4 * a_size a
      then refill (assoc_set_fuel (Suc 0)) (assoc_init (a_size a * 5 div 4)) (a_slots a) else Some a)"
  obtain t where t: "b = Some t" "assoc_wf t" "a_size a \<le> a_size t" "a_fill t + 1 < a_size t" "contents t = contents a"
  proof (cases "5 * a_fill a > 4 * a_size a")
    case True
    let ?n = "a_size a * 5 div 4"
    have n: "a_size a < ?n" "5 * a_size a \<le> 4 * ?n + 3" using a(2) by linarith+
    then have "assoc_wf (assoc_init ?n)" "a_fill (assoc_init ?n) + length (entries (a_slots a)) < a_size (assoc_init ?n)"
        "5 * (a_fill (assoc_init ?n) + length (entries (a_slots a))) \<le> 4 * a_size (assoc_init ?n) + 5"
      using fill a(3) by (auto simp: assoc_init_wf) (auto simp: assoc_init_def)
    from refill_wf [OF this, of 0] obtain t where "b = Some t" "assoc_wf t" "a_size t = ?n" "a_fill t \<le> a_fill a" "contents t = contents a"
      using True fill map_of_entries [OF a(1)] n by (auto simp: b_def assoc_init_empty) (auto simp: assoc_init_def)
    then show thesis using that n a(3) by simp
  next
    case False
    then show thesis using that [of a] a by (simp add: b_def)
  qed
  obtain a' where "assoc_put t key val = Some a'" "assoc_wf a'" "contents a' = (contents t)(key \<mapsto> val)" "a_size a' = a_size t"
    using assoc_put_wf [OF t(2,4)] by metis
  moreover have "assoc_set a key val = do { t \<leftarrow> b; assoc_put t key val }"
    using a(3) by (simp add: assoc_set_def numeral_2_eq_2 b_def)
  ultimately show thesis using that t a(2) by (simp add: assoc_inv_def)
qed

interpretation aset: keyed_store "\<lambda>_ :: unit. True" assoc_inv "assoc_init 20" contents "\<lambda>_. assoc_set"
proof
  show "assoc_inv (assoc_init 20 :: 'v assoc)" by (simp add: assoc_inv_def assoc_init_wf) (simp add: assoc_init_def)
  show "contents (assoc_init 20 :: 'v assoc) = Map.empty" by (simp add: assoc_init_empty)
  fix m m' :: "'v assoc" and k v
  assume "assoc_inv m" "assoc_set m k v = Some m'"
  moreover from this(1) obtain a' where "assoc_set m k v = Some a'" "assoc_inv a'" "contents a' = (contents m)(k \<mapsto> v)"
    by (rule assoc_set_Some)
  ultimately show "assoc_inv m'" "contents m' = (contents m)(k \<mapsto> v)" by simp_all
qed

section \<open>Iteration\<close>

lemma next_used_props:
  assumes "it \<le> a_size a" "length (a_slots a) = a_size a"
  shows "it \<le> next_used a it \<and> next_used a it \<le> a_size a \<and>
    (next_used a it < a_size a \<longrightarrow> a_slots a ! next_used a it \<noteq> None) \<and>
    entries (drop (next_used a it) (a_slots a)) = entries (drop it (a_slots a))"
  using assms
proof (induction a it rule: next_used.induct)
  case (1 a it)
  show ?case
  proof (cases "it < a_size a \<and> a_slots a ! it = None")
    case True
    then have "next_used a it = next_used a (it + 1)" by (subst next_used.simps) simp
    moreover have "drop it (a_slots a) = None # drop (it + 1) (a_slots a)"
      using True 1(3) Cons_nth_drop_Suc [of it "a_slots a"] by simp
    ultimately show ?thesis using 1(1) [OF True] True 1(3) by auto
  next
    case False
    then have "next_used a it = it" by (subst next_used.simps) auto
    then show ?thesis using False 1(2) by auto
  qed
qed

lemma foreach_entries:
  assumes "length (a_slots a) = a_size a"
  shows "it \<le> a_size a \<Longrightarrow> a_size a - it < n \<Longrightarrow> foreach_fuel n a it = Some (entries (drop it (a_slots a)))"
proof (induction n arbitrary: it)
  case (Suc n)
  note p = next_used_props [OF Suc.prems(1) assms]
  show ?case
  proof (cases "next_used a it = a_size a")
    case True
    then show ?thesis using p assms by (simp add: assoc_next_def)
  next
    case False
    then obtain s where s: "a_slots a ! next_used a it = Some s" "next_used a it < a_size a" using p by auto
    then have "drop (next_used a it) (a_slots a) = Some s # drop (next_used a it + 1) (a_slots a)"
      using assms Cons_nth_drop_Suc [of "next_used a it" "a_slots a"] by simp
    then have e: "entries (drop it (a_slots a)) = s # entries (drop (next_used a it + 1) (a_slots a))" using p by simp
    have "assoc_next a it = Some (s, next_used a it + 1)" using s False by (simp add: assoc_next_def)
    moreover have "foreach_fuel n a (next_used a it + 1) = Some (entries (drop (next_used a it + 1) (a_slots a)))"
      using s p Suc.prems by (intro Suc.IH) auto
    ultimately show ?thesis using e by simp
  qed
qed simp

lemma foreach_all: "assoc_wf a \<Longrightarrow> assoc_foreach a = Some (entries (a_slots a))"
  using foreach_entries [of a 0 "a_size a + 1"] by (simp add: assoc_foreach_def assoc_wf_def)

text \<open>
  C40. Storing under a key always succeeds in a table of at least six slots, growing it when it
  is four fifths full; afterwards every lookup ends and gives the stored value for the key and the old one for
  every other key, and the loop over the table visits exactly the stored pairs, each once.
\<close>

theorem assoc_contract:
  assumes "assoc_inv a"
  shows "\<exists>a' xs. assoc_set a key val = Some a' \<and> assoc_inv a' \<and>
    (\<forall>k. assoc_get a' k = (if k = key then Some (Some val) else assoc_get a k)) \<and>
    assoc_foreach a' = Some xs \<and> distinct (map fst xs) \<and> (\<forall>k v. (k, v) \<in> set xs \<longleftrightarrow> assoc_get a' k = Some (Some v))"
proof -
  obtain a' where a': "assoc_set a key val = Some a'" "assoc_inv a'" "contents a' = (contents a)(key \<mapsto> val)"
    using assms by (rule assoc_set_Some)
  have get: "assoc_get b k = Some (contents b k)" if inv: "assoc_inv b" for b :: "'a assoc" and k
  proof -
    obtain i where "assoc_slot b k = Some i" using slot_exists [of b k] inv by (auto simp: assoc_inv_def)
    then show ?thesis by (simp add: contents_def assoc_get_def)
  qed
  have wf: "assoc_wf a'" using a'(2) by (simp add: assoc_inv_def)
  show ?thesis
    using a' get [OF assms] get [OF a'(2)] foreach_all [OF wf] assoc_entries_distinct [OF wf] entries_iff [OF wf] by auto
qed

theorem assoc_contract_witness:
  "\<exists>a'. assoc_set (assoc_init 20) [0x61] (7 :: nat) = Some a' \<and> assoc_get a' [0x61] = Some (Some 7)"
  using assoc_contract [OF aset.invar_new, of "[0x61]" 7] by auto

text \<open>
  A table of five slots does not have this property: it fills up without growing, and the next lookup of a new
  key never ends.
\<close>

lemma assoc_small_full:
  "\<exists>a. fold (\<lambda>k a. Option.bind a (\<lambda>a. assoc_set a k ())) [[0x61], [0x62], [0x63], [0x64], [0x65]] (Some (assoc_init 5)) = Some a \<and>
     assoc_get a [0x66] = None"
proof -
  let ?a = "fold (\<lambda>k a. Option.bind a (\<lambda>a. assoc_set a k ())) [[0x61], [0x62], [0x63], [0x64], [0x65]] (Some (assoc_init 5))"
  have "?a \<noteq> None \<and> assoc_get (the ?a) [0x66] = None" by code_simp
  then show ?thesis by (cases ?a) simp_all
qed

end
