(* ===== verification/PdMapper.thy ===== *)
theory PdMapper
  imports Messages Json Assoc
begin

text \<open>
  The protection domain mapper, \<open>pd-mapper/pd-mapper.c\<close>: it collects the domain descriptions that lie
  beside the firmware of the remote processors, loads them into one table, and answers the queries for the
  domains of a service.

  \<open>None\<close> as the result of an operation stands for a crash or a parser that does not return. Allocations
  are taken to succeed.
\<close>

section \<open>Domain descriptions\<close>

record pd_map =
  pm_service :: "u8 list"
  pm_domain :: "u8 list"
  pm_instance :: int

text \<open>
  The loop over the services of a description. A service without provider or name ends it; what has been
  added stays. The second component tells whether the loop has ended well.
\<close>

primrec service_loop :: "u8 list \<Rightarrow> nat \<Rightarrow> json list \<Rightarrow> pd_map list \<times> bool" where
  "service_loop domain number [] = ([], True)"
| "service_loop domain number (it # its) =
     (case (json_get_string (Some it) (ascii ''provider''), json_get_string (Some it) (ascii ''service'')) of
        (Some provider, Some service) \<Rightarrow>
          let (ms, fine) = service_loop domain number its in
          (\<lparr>pm_service = provider @ slash # service, pm_domain = domain, pm_instance = int number\<rparr> # ms, fine)
      | _ \<Rightarrow> ([], False))"

text \<open>
  The part of \<open>pd_load_map\<close> behind the parser: the return value and the table, which is a null pointer until
  the first allocation. The conversion of a number beyond \<open>int\<close> is undefined.
\<close>

definition pd_read :: "json \<Rightarrow> pd_map list option \<Rightarrow> (int \<times> pd_map list option) option" where
  "pd_read doc maps =
     (let sr_domain = json_get_child doc (ascii ''sr_domain'');
          soc = json_get_string sr_domain (ascii ''soc'');
          domain = json_get_string sr_domain (ascii ''domain'');
          subdomain = json_get_string sr_domain (ascii ''subdomain'') in
      case json_get_number sr_domain (ascii ''qmi_instance_id'') of
        None \<Rightarrow> Some (-1, maps)
      | Some number \<Rightarrow>
          (case (soc, domain, subdomain) of
             (Some soc, Some domain, Some subdomain) \<Rightarrow>
               let sr_service = json_get_child doc (ascii ''sr_service'') in
               if json_count_children sr_service < 0 then Some (json_count_children sr_service, maps)
               else
                 (case sr_service of
                    Some (JArray its) \<Rightarrow>
                      if its \<noteq> [] \<and> number \<ge> 2 ^ 31 then None
                      else
                        let old = (case maps of None \<Rightarrow> [] | Some ms \<Rightarrow> ms);
                            (new, fine) = service_loop (soc @ slash # domain @ slash # subdomain) number its in
                        Some (if fine then 0 else -1, Some (old @ new))
                  | _ \<Rightarrow> None)
           | _ \<Rightarrow> Some (-1, maps)))"

definition pd_load_map :: "nat \<Rightarrow> u8 list option \<Rightarrow> pd_map list option \<Rightarrow> (int \<times> pd_map list option) option" where
  "pd_load_map fuel file maps =
     (case json_parse_file fuel file of
        None \<Rightarrow> None
      | Some None \<Rightarrow> Some (-1, maps)
      | Some (Some doc) \<Rightarrow> pd_read doc maps)"

section \<open>Finding the descriptions\<close>

text \<open>
  The file system: the entries of the class of remote processors, if it can be opened, what the firmware
  attribute of an entry holds (the outer option is that of opening, the inner that of reading), the entries
  of a directory, and the contents of a file.
\<close>

record pd_fs =
  fs_class :: "u8 list list option"
  fs_attr :: "u8 list \<Rightarrow> u8 list option option"
  fs_dir :: "u8 list \<Rightarrow> u8 list list option"
  fs_file :: "u8 list \<Rightarrow> u8 list option"

definition is_jsn :: "u8 list \<Rightarrow> u8 list \<Rightarrow> bool" where
  "is_jsn firmware_value d_name \<longleftrightarrow>
     \<not> dots d_name \<and> 5 \<le> length d_name \<and> drop (length d_name - 4) d_name = ascii ''.jsn'' \<and>
     length FIRMWARE_BASE + length firmware_value + 1 + length d_name + 1 \<le> PATH_MAX"

text \<open>
  The paths one remote processor contributes. The length of a failed read is unsigned and indexes far
  outside the buffer, an attribute that fills the buffer is terminated behind it, and a directory that cannot
  be opened is followed as a null pointer.
\<close>

definition entry_jsons :: "pd_fs \<Rightarrow> u8 list \<Rightarrow> u8 list list option" where
  "entry_jsons fs d_name =
     (if dots d_name \<or> length d_name + 10 > 32 then Some []
      else
        (case fs_attr fs d_name of
           None \<Rightarrow> Some []
         | Some None \<Rightarrow> None
         | Some (Some val) \<Rightarrow>
             if length val \<ge> PATH_MAX then None
             else
               let firmware_value = takeWhile (\<lambda>b. b \<noteq> 0) val in
               if length FIRMWARE_BASE + length firmware_value + 1 > PATH_MAX then Some []
               else
                 let path = FIRMWARE_BASE @ dirname firmware_value in
                 map_option (\<lambda>names. map (\<lambda>n. path @ slash # n) (filter (is_jsn firmware_value) names))
                   (fs_dir fs path)))"

primrec entries_jsons :: "pd_fs \<Rightarrow> u8 list list \<Rightarrow> u8 list list option" where
  "entries_jsons fs [] = Some []"
| "entries_jsons fs (d # ds) = do { ps \<leftarrow> entry_jsons fs d; qs \<leftarrow> entries_jsons fs ds; Some (ps @ qs) }"

definition found_jsons :: "pd_fs \<Rightarrow> u8 list list option" where
  "found_jsons fs = (case fs_class fs of None \<Rightarrow> Some [] | Some ds \<Rightarrow> entries_jsons fs ds)"

primrec set_all :: "u8 list list \<Rightarrow> unit assoc \<Rightarrow> unit assoc option" where
  "set_all [] a = Some a"
| "set_all (p # ps) a = do { a \<leftarrow> assoc_set a p (); set_all ps a }"

definition pd_enumerate_jsons :: "pd_fs \<Rightarrow> unit assoc \<Rightarrow> unit assoc option" where
  "pd_enumerate_jsons fs json_set = do { ps \<leftarrow> found_jsons fs; set_all ps json_set }"

primrec load_loop :: "nat \<Rightarrow> pd_fs \<Rightarrow> u8 list list \<Rightarrow> pd_map list option \<Rightarrow> (int \<times> pd_map list option) option" where
  "load_loop fuel fs [] maps = Some (0, maps)"
| "load_loop fuel fs (jsn # js) maps =
     do {
       (ret, maps) \<leftarrow> pd_load_map fuel (fs_file fs jsn) maps;
       if ret < 0 then Some (ret, maps) else load_loop fuel fs js maps
     }"

definition pd_load_maps :: "nat \<Rightarrow> pd_fs \<Rightarrow> (int \<times> pd_map list option) option" where
  "pd_load_maps fuel fs =
     do {
       json_set \<leftarrow> pd_enumerate_jsons fs (assoc_init 20);
       xs \<leftarrow> assoc_foreach json_set;
       load_loop fuel fs (map fst xs) None
     }"

section \<open>Queries\<close>

abbreviation (input) SERVREG_LOC_GET_DOMAIN_LIST :: int where "SERVREG_LOC_GET_DOMAIN_LIST \<equiv> 33"
abbreviation (input) SERVREG_LOC_PFR :: int where "SERVREG_LOC_PFR \<equiv> 36"

abbreviation resp_off :: "nat \<Rightarrow> nat" where
  "resp_off \<equiv> offsetof servreg_loc_get_domain_list_resp"

abbreviation entry_off :: "nat \<Rightarrow> nat" where
  "entry_off \<equiv> offsetof servreg_loc_domain_list_entry"

text \<open>The next entry of the list; its index is the length stored so far.\<close>

definition put_entry :: "mem \<Rightarrow> nat \<Rightarrow> pd_map \<Rightarrow> mem" where
  "put_entry resp n m =
     (let e = resp_off 7 + n * sizeof servreg_loc_domain_list_entry;
          resp = wr resp (resp_off 6) (le32 (of_nat (n + 1)));
          resp = wr resp (e + entry_off 1) (pm_domain m @ [0]);
          resp = wr resp (e + entry_off 0) (le32 (of_nat (length (pm_domain m)))) in
      wr resp (e + entry_off 2) (le32 (word_of_int (pm_instance m))))"

primrec domain_loop :: "u8 list \<Rightarrow> pd_map list \<Rightarrow> mem \<Rightarrow> nat \<Rightarrow> mem \<times> nat" where
  "domain_loop name [] resp n = (resp, n)"
| "domain_loop name (m # ms) resp n =
     (if pm_service m = name then domain_loop name ms (put_entry resp n m) (n + 1)
      else domain_loop name ms resp n)"

definition domain_list :: "pd_map list \<Rightarrow> u8 list \<Rightarrow> mem" where
  "domain_list maps name =
     (let resp = wr (\<lambda>_. 0) (resp_off 0) (le16 0);
          resp = wr resp (resp_off 3) [1];
          resp = wr resp (resp_off 4) (le16 1);
          (resp, n) = domain_loop name maps resp 0;
          resp = (if (of_nat n :: u32) \<noteq> 0 then wr resp (resp_off 5) [1] else resp);
          resp = wr resp (resp_off 1) [1] in
      wr resp (resp_off 2) (le16 (of_nat n)))"

record pd_env =
  p_send_rc :: int
  p_txn :: u32
  p_resp_buf :: mem

definition pd_respond :: "pd_env \<Rightarrow> int \<Rightarrow> qrtr_packet \<Rightarrow> u32 \<Rightarrow> mem \<Rightarrow> syscall list option" where
  "pd_respond env sock pkt txn resp =
     (case qmi_encode_message
         \<lparr>pkt_type = 0, pkt_node = 0, pkt_port = 0, pkt_service = 0, pkt_instance = 0, pkt_version = 0,
          pkt_data = p_resp_buf env, pkt_data_len = 256\<rparr>
         QMI_RESPONSE SERVREG_LOC_GET_DOMAIN_LIST (sint txn) (Some (resp, 0))
         (Some servreg_loc_get_domain_list_resp_ei) of
        None \<Rightarrow> None
      | Some (len, resp_buf) \<Rightarrow>
          if len < 0 then Some []
          else Some (snd (qrtr_sendto (p_send_rc env) sock (pkt_node pkt) (pkt_port pkt)
                 (rd (pkt_data resp_buf) 0 (pkt_data_len resp_buf)))))"

definition handle_get_domain_list :: "pd_env \<Rightarrow> int \<Rightarrow> qrtr_packet \<Rightarrow> pd_map list \<Rightarrow> syscall list option" where
  "handle_get_domain_list env sock pkt maps =
     (case qmi_decode_message (Suc (pkt_data_len pkt + tab_size servreg_loc_get_domain_list_req_ei)) (Some (\<lambda>_. 0, 0)) pkt
         QMI_REQUEST SERVREG_LOC_GET_DOMAIN_LIST (Some servreg_loc_get_domain_list_req_ei) of
        Some (ret, txn, Some req) \<Rightarrow>
          let txn = (case txn of None \<Rightarrow> p_txn env | Some t \<Rightarrow> t);
              name_at = offsetof servreg_loc_get_domain_list_req 1 in
          if ret < 0 then pd_respond env sock pkt txn (wr (\<lambda>_. 0) (resp_off 0) (le16 1 @ le16 2))
          else
            let req = wr req (name_at + 255) [0] in
            (case strlen req name_at of
               None \<Rightarrow> None
             | Some n \<Rightarrow> pd_respond env sock pkt txn (domain_list maps (rd req name_at n)))
      | _ \<Rightarrow> None)"

text \<open>
  One round of the main loop behind \<open>qrtr_poll\<close>: the exit code, or the packet structure for the next round,
  and the calls on the socket.
\<close>

definition pd_round ::
    "pd_env \<Rightarrow> int \<Rightarrow> pd_map list \<Rightarrow> int + (mem \<times> nat \<times> sockaddr_qrtr) \<Rightarrow> qrtr_packet \<Rightarrow>
     ((int + qrtr_packet) \<times> syscall list) option" where
  "pd_round env fd maps recv pkt =
     (case recv of
        Inl err \<Rightarrow> Some (Inl (- err), [])
      | Inr (buf, len, sq) \<Rightarrow>
          let (ret, pkt) = qrtr_decode pkt buf len sq in
          if ret < 0 then Some (Inl ret, [])
          else if pkt_type pkt = QRTR_TYPE_DATA then
            (case qmi_decode_header pkt of
               (ret, Some msg_id) \<Rightarrow>
                 if ret < 0 then Some (Inr pkt, [])
                 else if msg_id = word_of_int SERVREG_LOC_GET_DOMAIN_LIST then
                   map_option (Pair (Inr pkt)) (handle_get_domain_list env fd pkt maps)
                 else Some (Inr pkt, [])
             | (ret, None) \<Rightarrow> Some (Inr pkt, []))
          else Some (Inr pkt, []))"

section \<open>The table of all descriptions\<close>

text \<open>What a description says.\<close>

record pd_desc =
  pd_soc :: "u8 list"
  pd_domain :: "u8 list"
  pd_subdomain :: "u8 list"
  pd_number :: nat
  pd_services :: "(u8 list \<times> u8 list) list"

definition describes :: "json \<Rightarrow> pd_desc \<Rightarrow> bool" where
  "describes v d \<longleftrightarrow>
     (\<exists>dom its. json_get_child v (ascii ''sr_domain'') = Some dom \<and>
        json_get_string (Some dom) (ascii ''soc'') = Some (pd_soc d) \<and>
        json_get_string (Some dom) (ascii ''domain'') = Some (pd_domain d) \<and>
        json_get_string (Some dom) (ascii ''subdomain'') = Some (pd_subdomain d) \<and>
        json_get_number (Some dom) (ascii ''qmi_instance_id'') = Some (pd_number d) \<and>
        json_get_child v (ascii ''sr_service'') = Some (JArray its) \<and>
        list_all2 (\<lambda>it (p, s). json_get_string (Some it) (ascii ''provider'') = Some p \<and>
          json_get_string (Some it) (ascii ''service'') = Some s) its (pd_services d)) \<and>
     pd_number d < 2 ^ 31"

definition desc_maps :: "pd_desc \<Rightarrow> pd_map list" where
  "desc_maps d = map (\<lambda>(p, s).
     \<lparr>pm_service = p @ slash # s, pm_domain = pd_soc d @ slash # pd_domain d @ slash # pd_subdomain d,
      pm_instance = int (pd_number d)\<rparr>) (pd_services d)"

definition file_describes :: "nat \<Rightarrow> u8 list option \<Rightarrow> pd_desc \<Rightarrow> bool" where
  "file_describes fuel file d \<longleftrightarrow>
     (\<exists>w t w' v. file = Some (w @ t @ w') \<and> spaces w \<and> bare t v \<and> spaces w' \<and> length (w @ t @ w') < fuel \<and> describes v d)"

lemma service_loop_maps:
  "list_all2 (\<lambda>it (p, s). json_get_string (Some it) (ascii ''provider'') = Some p \<and>
     json_get_string (Some it) (ascii ''service'') = Some s) its ss \<Longrightarrow>
   service_loop domain number its =
     (map (\<lambda>(p, s). \<lparr>pm_service = p @ slash # s, pm_domain = domain, pm_instance = int number\<rparr>) ss, True)"
  by (induction rule: list_all2_induct) (auto split: prod.splits)

lemma pd_load_map_desc:
  assumes "file_describes fuel file d"
  shows "pd_load_map fuel file maps = Some (0, Some ((case maps of None \<Rightarrow> [] | Some ms \<Rightarrow> ms) @ desc_maps d))"
proof -
  obtain w t w' v where v: "file = Some (w @ t @ w')" "spaces w" "bare t v" "spaces w'" "length (w @ t @ w') < fuel" "describes v d"
    using assms by (auto simp: file_describes_def)
  then have "json_parse_file fuel file = Some (Some v)" using json_reads by blast
  moreover have "pd_read v maps = Some (0, Some ((case maps of None \<Rightarrow> [] | Some ms \<Rightarrow> ms) @ desc_maps d))"
    using v(6) unfolding describes_def
    by (elim conjE exE) (simp add: pd_read_def service_loop_maps desc_maps_def json_count_children_def split: option.splits)
  ultimately show ?thesis by (simp add: pd_load_map_def)
qed

lemma load_loop_desc:
  assumes "\<forall>p \<in> set ps. file_describes fuel (fs_file fs p) (desc p)"
  shows "load_loop fuel fs ps maps = Some (0, if ps = [] then maps
    else Some ((case maps of None \<Rightarrow> [] | Some ms \<Rightarrow> ms) @ concat (map (desc_maps \<circ> desc) ps)))"
  using assms by (induction ps arbitrary: maps) (auto simp: pd_load_map_desc)

lemma set_all_store: "set_all ps a = aset.store_all () (map (\<lambda>p. (p, ())) ps) a"
  by (induction ps arbitrary: a) simp_all

lemma set_all_Some: "assoc_inv a \<Longrightarrow> \<exists>a'. set_all ps a = Some a'"
proof (induction ps arbitrary: a)
  case (Cons p ps)
  from Cons.prems obtain a' where "assoc_set a p () = Some a'" "assoc_inv a'" by (rule assoc_set_Some)
  then show ?case using Cons.IH [of a'] by simp
qed simp

lemma set_all_keys:
  obtains a xs where "set_all ps (assoc_init 20) = Some a" "assoc_foreach a = Some xs" "distinct (map fst xs)"
    "set (map fst xs) = set ps"
proof -
  obtain a where a: "set_all ps (assoc_init 20) = Some a" using set_all_Some [OF aset.invar_new] by blast
  then have "aset.store_all () (map (\<lambda>p. (p, ())) ps) (assoc_init 20) = Some a" by (simp add: set_all_store)
  then have inv: "assoc_inv a" and get: "contents a = map_of (rev (map (\<lambda>p. (p, ())) ps))"
    using aset.store_all_spec [OF _ aset.invar_new, of "()" _ a] by (auto simp: aset.get_new)
  then have wf: "assoc_wf a" by (simp add: assoc_inv_def)
  have "contents a k = Some () \<longleftrightarrow> k \<in> set ps" for k
  proof -
    have "contents a k = None \<longleftrightarrow> k \<notin> fst ` set (rev (map (\<lambda>p. (p, ())) ps))" unfolding get by (rule map_of_eq_None_iff)
    also have "\<dots> \<longleftrightarrow> k \<notin> set ps" by (simp add: image_image)
    finally show ?thesis by (cases "contents a k") auto
  qed
  then have "set (map fst (entries (a_slots a))) = set ps"
    using entries_iff [OF wf] by force
  then show thesis
    using that [OF a foreach_all [OF wf] assoc_entries_distinct [OF wf]] by simp
qed


text \<open>
  Two remote processors whose firmware lies in the same directory, with one description there:
  \<open>{"sr_domain":{"soc":"a","domain":"b","subdomain":"c","qmi_instance_id":7},"sr_service":[{"provider":"t","service":"s"}]}\<close>.
\<close>

definition sample_text :: "u8 list" where
  "sample_text =
     ascii ''{'' @ [0x22] @ ascii ''sr_domain'' @ [0x22] @ ascii '':{'' @ [0x22] @ ascii ''soc'' @ [0x22] @ ascii '':'' @ [0x22, 0x61, 0x22] @
     ascii '','' @ [0x22] @ ascii ''domain'' @ [0x22] @ ascii '':'' @ [0x22, 0x62, 0x22] @
     ascii '','' @ [0x22] @ ascii ''subdomain'' @ [0x22] @ ascii '':'' @ [0x22, 0x63, 0x22] @
     ascii '','' @ [0x22] @ ascii ''qmi_instance_id'' @ [0x22] @ ascii '':7},'' @
     [0x22] @ ascii ''sr_service'' @ [0x22] @ ascii '':[{'' @ [0x22] @ ascii ''provider'' @ [0x22] @ ascii '':'' @ [0x22, 0x74, 0x22] @
     ascii '','' @ [0x22] @ ascii ''service'' @ [0x22] @ ascii '':'' @ [0x22, 0x73, 0x22] @ ascii ''}]}''"

definition sample_doc :: json where
  "sample_doc = JObject
     [(ascii ''sr_domain'', JObject [(ascii ''soc'', JString [0x61]), (ascii ''domain'', JString [0x62]),
        (ascii ''subdomain'', JString [0x63]), (ascii ''qmi_instance_id'', JNumber 7)]),
      (ascii ''sr_service'', JArray [JObject [(ascii ''provider'', JString [0x74]), (ascii ''service'', JString [0x73])]])]"

definition sample_desc :: pd_desc where
  "sample_desc = \<lparr>pd_soc = [0x61], pd_domain = [0x62], pd_subdomain = [0x63], pd_number = 7, pd_services = [([0x74], [0x73])]\<rparr>"

definition sample_fs :: pd_fs where
  "sample_fs = \<lparr>fs_class = Some [ascii ''.'', ascii ''remoteproc0'', ascii ''remoteproc1''],
     fs_attr = (\<lambda>d. Some (Some (ascii ''qcom/adsp.mbn''))),
     fs_dir = (\<lambda>d. if d = ascii ''/vendor/firmware/qcom'' then Some [ascii ''..'', ascii ''adsp.mbn'', ascii ''adsp.jsn''] else None),
     fs_file = (\<lambda>p. Some sample_text)\<rparr>"

lemma sample_describes: "describes sample_doc sample_desc"
  by (simp add: describes_def sample_doc_def sample_desc_def json_get_child_def json_get_string_def json_get_number_def ascii_def)

lemma sample_member: "unescaped k \<Longrightarrow> bare t v \<Longrightarrow> jmembers (0x22 # k @ 0x22 # 0x3a # t) [(k, v)]"
  "unescaped k \<Longrightarrow> bare t v \<Longrightarrow> jmembers ms kvs \<Longrightarrow> jmembers (0x22 # k @ 0x22 # 0x3a # t @ 0x2c # ms) ((k, v) # kvs)"
  using member_last [of "[]" k "[]" "[]" t v "[]"] member_more [of "[]" k "[]" "[]" t v "[]" ms kvs] by (simp_all add: spaces_def)

lemma sample_bare: "bare sample_text sample_doc"
proof -
  note m = sample_member(1) sample_member(2)
  have keys: "unescaped (ascii ''sr_domain'')" "unescaped (ascii ''soc'')" "unescaped (ascii ''domain'')" "unescaped (ascii ''subdomain'')"
      "unescaped (ascii ''qmi_instance_id'')" "unescaped (ascii ''sr_service'')" "unescaped (ascii ''provider'')" "unescaped (ascii ''service'')"
    by (simp_all add: unescaped_def ascii_def)
  have str: "bare [0x22, c, 0x22] (JString [c])" if "c \<noteq> 0" "c \<noteq> 0x22" for c
    using bare_string [of "[c]"] that by (simp add: unescaped_def)
  have "strtod [0x37] = 7" by code_simp
  then have num: "bare [0x37] (JNumber 7)" using bare_number [of "[0x37]"] by (simp add: isdigit_def)
  note d = m(2) [OF keys(2) str [of "0x61"] m(2) [OF keys(3) str [of "0x62"] m(2) [OF keys(4) str [of "0x63"] m(1) [OF keys(5) num]]]]
  note p = m(2) [OF keys(7) str [of "0x74"] m(1) [OF keys(8) str [of "0x73"]]]
  note s = bare_array [OF elem_last [of "[]", OF _ bare_object [OF p], of "[]"]]
  from bare_object [OF m(2) [OF keys(1) bare_object [OF d] m(1) [OF keys(6) s]]]
  show ?thesis by (simp add: sample_text_def sample_doc_def ascii_def spaces_def)
qed


section \<open>Answers\<close>

lemma resp_offsets:
  "resp_off 0 = 0" "resp_off (Suc 0) = 4" "resp_off 2 = 6" "resp_off 3 = 8" "resp_off 4 = 10" "resp_off 5 = 12" "resp_off 6 = 16"
  "resp_off 7 = 20" "entry_off 0 = 0" "entry_off (Suc 0) = 4" "entry_off 2 = 260" "sizeof servreg_loc_domain_list_entry = 272"
  "sizeof servreg_loc_get_domain_list_resp = 69380" "offsetof servreg_loc_get_domain_list_req (Suc 0) = 4"
  by (simp_all add: servreg_structs layout_simps numeral_2_eq_2 [symmetric])

text \<open>The entry at an index of the list: the length of the domain name, the name with its NUL, the instance.\<close>

definition entry_at :: "mem \<Rightarrow> nat \<Rightarrow> pd_map \<Rightarrow> bool" where
  "entry_at resp i m \<longleftrightarrow>
     holds resp (20 + i * 272) (le32 (of_nat (length (pm_domain m)))) \<and>
     holds resp (24 + i * 272) (pm_domain m @ [0]) \<and>
     holds resp (280 + i * 272) (le32 (word_of_int (pm_instance m)))"

lemma entry_at_cong:
  "entry_at resp i m \<Longrightarrow> length (pm_domain m) < 256 \<Longrightarrow> (\<And>a. 20 + i * 272 \<le> a \<Longrightarrow> a < 284 + i * 272 \<Longrightarrow> resp' a = resp a) \<Longrightarrow>
   entry_at resp' i m"
  unfolding entry_at_def holds_def by simp

lemma put_entry_at:
  assumes "length (pm_domain m) < 256"
  shows "entry_at (put_entry resp n m) n m"
    and "get32 (put_entry resp n m) 16 = of_nat (n + 1)"
    and "a < 16 \<or> 20 \<le> a \<and> a < 20 + n * 272 \<or> 292 + n * 272 \<le> a \<Longrightarrow> put_entry resp n m a = resp a"
proof -
  let ?e = "20 + n * 272"
  let ?r = "wr resp 16 (le32 (of_nat (n + 1)))"
  let ?s = "wr (wr ?r (?e + 4) (pm_domain m @ [0])) ?e (le32 (of_nat (length (pm_domain m))))"
  have p: "put_entry resp n m = wr ?s (?e + 260) (le32 (word_of_int (pm_instance m)))"
    by (simp add: put_entry_def Let_def resp_offsets)
  show "entry_at (put_entry resp n m) n m"
  proof -
    have "holds (wr ?r (?e + 4) (pm_domain m @ [0])) (?e + 4) (pm_domain m @ [0])" by (rule holds_wr)
    then have "holds ?s (?e + 4) (pm_domain m @ [0])" by (rule holds_wr_other) simp
    then have "holds (put_entry resp n m) (?e + 4) (pm_domain m @ [0])" unfolding p by (rule holds_wr_other) (use assms in simp)
    moreover have "holds ?s ?e (le32 (of_nat (length (pm_domain m))))" by (rule holds_wr)
    then have "holds (put_entry resp n m) ?e (le32 (of_nat (length (pm_domain m))))" unfolding p by (rule holds_wr_other) simp
    moreover have "holds (put_entry resp n m) (?e + 260) (le32 (word_of_int (pm_instance m)))" unfolding p by (rule holds_wr)
    ultimately show ?thesis by (simp add: entry_at_def add.commute del: holds_append)
  qed
  have "holds ?r 16 (le32 (of_nat (n + 1)))" by (rule holds_wr)
  then have "holds (wr ?r (?e + 4) (pm_domain m @ [0])) 16 (le32 (of_nat (n + 1)))" by (rule holds_wr_other) simp
  then have "holds ?s 16 (le32 (of_nat (n + 1)))" by (rule holds_wr_other) simp
  then have "holds (put_entry resp n m) 16 (le32 (of_nat (n + 1)))" unfolding p by (rule holds_wr_other) simp
  then show "get32 (put_entry resp n m) 16 = of_nat (n + 1)" by (rule get32_le32)
  show "put_entry resp n m a = resp a" if "a < 16 \<or> 20 \<le> a \<and> a < 20 + n * 272 \<or> 292 + n * 272 \<le> a"
  proof -
    have "put_entry resp n m a = ?s a" unfolding p by (rule wr_outside) (use that in auto)
    also have "\<dots> = wr ?r (?e + 4) (pm_domain m @ [0]) a" by (rule wr_outside) (use that in auto)
    also have "\<dots> = ?r a" by (rule wr_outside) (use assms that in auto)
    also have "\<dots> = resp a" by (rule wr_outside) (use that in auto)
    finally show ?thesis .
  qed
qed

text \<open>The loop stores the matching domains in order and writes nothing else.\<close>

lemma domain_loop_spec:
  assumes "domain_loop name maps resp n = (resp', n')" "get32 resp 16 = of_nat n"
    and "ms = filter (\<lambda>m. pm_service m = name) maps" "list_all (\<lambda>m. length (pm_domain m) < 256) ms"
  shows "n' = n + length ms \<and> get32 resp' 16 = of_nat n' \<and> (\<forall>i<length ms. entry_at resp' (n + i) (ms ! i)) \<and>
    (\<forall>a. a < 16 \<or> 20 \<le> a \<and> a < 20 + n * 272 \<or> 20 + n' * 272 \<le> a \<longrightarrow> resp' a = resp a)"
  using assms
proof (induction maps arbitrary: resp n ms)
  case (Cons m maps)
  show ?case
  proof (cases "pm_service m = name")
    case True
    let ?ms = "filter (\<lambda>m. pm_service m = name) maps"
    have ms: "ms = m # ?ms" "length (pm_domain m) < 256" "list_all (\<lambda>m. length (pm_domain m) < 256) ?ms"
      using Cons.prems(3,4) True by simp_all
    note put = put_entry_at [OF ms(2), where resp = resp and n = n]
    have loop: "domain_loop name maps (put_entry resp n m) (n + 1) = (resp', n')" using Cons.prems(1) True by simp
    note all = Cons.IH [OF loop put(2) refl ms(3)]
    note IH = all [THEN conjunct1] all [THEN conjunct2, THEN conjunct1]
      all [THEN conjunct2, THEN conjunct2, THEN conjunct1, rule_format]
      all [THEN conjunct2, THEN conjunct2, THEN conjunct2, rule_format]
    have "entry_at resp' n m"
      using put(1) ms(2) by (rule entry_at_cong) (rule IH(4), simp)
    then have "entry_at resp' (n + i) (ms ! i)" if "i < length ms" for i
      using that ms(1) IH(3) [of "i - 1"] by (cases i) simp_all
    moreover have "resp' a = resp a" if "a < 16 \<or> 20 \<le> a \<and> a < 20 + n * 272 \<or> 20 + n' * 272 \<le> a" for a
    proof -
      have "resp' a = put_entry resp n m a" using that IH(1) by (intro IH(4)) auto
      also have "\<dots> = resp a" using that IH(1) by (intro put(3)) auto
      finally show ?thesis .
    qed
    ultimately show ?thesis using IH(1,2) ms(1) by simp
  next
    case False
    have loop: "domain_loop name maps resp n = (resp', n')" using Cons.prems(1) False by simp
    have "ms = filter (\<lambda>m. pm_service m = name) maps" using Cons.prems(3) False by simp
    from Cons.IH [OF loop Cons.prems(2) this Cons.prems(4)] show ?thesis .
  qed
qed simp

lemma domain_list_spec:
  fixes maps name
  defines "ms \<equiv> filter (\<lambda>m. pm_service m = name) maps" and "M \<equiv> domain_list maps name"
  assumes "list_all (\<lambda>m. length (pm_domain m) < 256) ms" "length ms < 2 ^ 32"
  shows "get16 M 0 = 0" "get16 M 2 = 0" "M 4 = 1" "get16 M 6 = of_nat (length ms)" "M 12 = (if ms = [] then 0 else 1)"
    "get32 M 16 = of_nat (length ms)" "i < length ms \<Longrightarrow> entry_at M i (ms ! i)" "20 + length ms * 272 \<le> a \<Longrightarrow> M a = 0"
proof -
  let ?b = "wr (wr (wr (\<lambda>_. 0) 0 (le16 0)) 8 [1]) 10 (le16 1)"
  obtain resp n where loop: "domain_loop name maps ?b 0 = (resp, n)" by fastforce
  have base: "?b a = (if a = 8 \<or> a = 10 then 1 else 0)" for a
    by (simp add: wr_def le16_def) (auto simp: less_Suc_eq numeral_2_eq_2)
  have "get32 ?b 16 = of_nat 0" by (simp add: get32_def base)
  from domain_loop_spec [OF loop this ms_def [THEN meta_eq_to_obj_eq] assms(3)]
  have n: "n = length ms" "get32 resp 16 = of_nat n" "\<And>i. i < length ms \<Longrightarrow> entry_at resp i (ms ! i)"
      "\<And>a. a < 16 \<or> 20 + n * 272 \<le> a \<Longrightarrow> resp a = ?b a" by auto
  have "unat (of_nat n :: u32) = n" using n(1) assms(4) by (intro unat_of_nat_small) simp
  then have nz: "(of_nat n :: u32) = 0 \<longleftrightarrow> ms = []" using n(1) by (auto simp: word_unat_eq_iff)
  let ?c = "if ms \<noteq> [] then wr resp 12 [1] else resp"
  have M: "M = wr (wr ?c 4 [1]) 6 (le16 (of_nat n))"
    unfolding M_def domain_list_def Let_def resp_offsets One_nat_def using loop nz by (simp add: Let_def)
  have same: "M a = resp a" if "a < 4 \<or> a = 5 \<or> 16 \<le> a" for a
    unfolding M using that by (auto simp: wr_def)
  show "get16 M 0 = 0" "get16 M 2 = 0" by (simp_all add: get16_def same n(4) base)
  show "M 4 = 1" unfolding M by (simp add: wr_def)
  have "holds M 6 (le16 (of_nat n))" unfolding M by (rule holds_wr)
  then show "get16 M 6 = of_nat (length ms)" using n(1) by (simp add: get16_le16)
  show "M 12 = (if ms = [] then 0 else 1)" unfolding M by (simp add: wr_def n(4) base)
  show "get32 M 16 = of_nat (length ms)" using n(1,2) by (simp add: get32_def same)
  show "entry_at M i (ms ! i)" if i: "i < length ms"
    using n(3) [OF i] by (rule entry_at_cong) (use assms(3) i in \<open>auto simp: list_all_length same\<close>)
  show "M a = 0" if "20 + length ms * 272 \<le> a"
    using that same [of a] n(1,4) by (simp add: base)
qed

text \<open>The name of the queried service always ends, because the handler terminates it.\<close>

lemma name_terminates:
  obtains n where "n \<le> 255" "strlen (wr req 259 [0]) 4 = Some n"
proof -
  let ?r = "wr req 259 [0]"
  have z: "?r (4 + 255) = 0" by (simp add: wr_def)
  define n where "n = (LEAST n. ?r (4 + n) = 0)"
  have "?r (4 + n) = 0" unfolding n_def by (rule LeastI [of "\<lambda>n. ?r (4 + n) = 0", OF z])
  moreover have "n \<le> 255" unfolding n_def by (rule Least_le [of "\<lambda>n. ?r (4 + n) = 0", OF z])
  moreover have "\<forall>i<n. ?r (4 + i) \<noteq> 0" unfolding n_def using not_less_Least by blast
  ultimately show thesis using that by (simp add: strlen_iff)
qed


definition sample_query :: qrtr_packet where
  "sample_query = \<lparr>pkt_type = 1, pkt_node = 5, pkt_port = 9, pkt_service = 0, pkt_instance = 0, pkt_version = 0,
     pkt_data = wr (\<lambda>_. 0) 0 (qmi_header_bytes \<lparr>qh_type = 0, qh_txn_id = 7, qh_msg_id = 33, qh_msg_len = 6\<rparr> @
       [1, 3, 0, 0x74, 0x2f, 0x73]), pkt_data_len = 13\<rparr>"

definition sample_map :: pd_map where
  "sample_map = \<lparr>pm_service = [0x74, 0x2f, 0x73], pm_domain = [0x61, 0x2f, 0x62, 0x2f, 0x63], pm_instance = 7\<rparr>"

lemma sample_query_decode:
  "\<exists>req. qmi_decode_message (Suc (pkt_data_len sample_query + tab_size servreg_loc_get_domain_list_req_ei)) (Some (\<lambda>_. 0, 0))
     sample_query QMI_REQUEST SERVREG_LOC_GET_DOMAIN_LIST (Some servreg_loc_get_domain_list_req_ei) = Some (6, Some 7, Some req) \<and>
     map req [4, 5, 6, 7] = [0x74, 0x2f, 0x73, 0]"
proof -
  have "case qmi_decode_message (Suc (pkt_data_len sample_query + tab_size servreg_loc_get_domain_list_req_ei)) (Some (\<lambda>_. 0, 0))
      sample_query QMI_REQUEST SERVREG_LOC_GET_DOMAIN_LIST (Some servreg_loc_get_domain_list_req_ei) of
    Some (ret, Some txn, Some req) \<Rightarrow> ret = 6 \<and> txn = 7 \<and> map req [4, 5, 6, 7] = [0x74, 0x2f, 0x73, 0] | _ \<Rightarrow> False"
    by code_simp
  then show ?thesis by (auto split: option.splits prod.splits)
qed

definition sample_env :: pd_env where
  "sample_env = \<lparr>p_send_rc = 0, p_txn = 0, p_resp_buf = (\<lambda>_. 0)\<rparr>"


end
