(* ===== verification/Bridge.thy ===== *)
theory Bridge
  imports Interfaces
begin

text \<open>
  The bridge between the Arduino router and the debugger of the microcontroller,
  \<open>imola-gpio/imola-bridge.c\<close>: the MessagePack-RPC parser on the receive buffer, the response encoder, the
  pin actions, and the main loop with its resynchronisation on corrupt input.

  The parser works on the memory of the buffer; the loops keep the valid bytes of the buffer as a list,
  \<open>junk\<close> is what the buffer holds beyond them. What the program does is a list of events.
\<close>

section \<open>Parser\<close>

record rpc =
  r_msg_id :: u32
  r_method :: "u8 list"
  r_pin :: "u8 list"
  r_val :: int

text \<open>
  A parser gives \<open>Inl\<close> of the return value, 0 for incomplete input and -1 for a protocol error, or the
  new position and what it has read. The output parameters of a failed call are dead: the caller clears
  them before each call.
\<close>

definition parse_msg_id :: "mem \<Rightarrow> nat \<Rightarrow> nat \<Rightarrow> int + (nat \<times> u32)" where
  "parse_msg_id buf len pos =
     (if buf pos \<le> 0x7f then Inr (pos + 1, ucast (buf pos))
      else if buf pos = 0xcc then
        (if len < pos + 2 then Inl 0 else Inr (pos + 2, ucast (buf (pos + 1))))
      else if buf pos = 0xcd then
        (if len < pos + 3 then Inl 0
         else Inr (pos + 3, push_bit 8 (ucast (buf (pos + 1))) OR ucast (buf (pos + 2))))
      else if buf pos = 0xce then
        (if len < pos + 5 then Inl 0
         else Inr (pos + 5, push_bit 24 (ucast (buf (pos + 1))) OR push_bit 16 (ucast (buf (pos + 2))) OR
                push_bit 8 (ucast (buf (pos + 3))) OR ucast (buf (pos + 4))))
      else Inl (-1))"

text \<open>The method and the pin name are decoded alike, into a buffer of \<open>maxlen\<close> bytes with terminator.\<close>

definition parse_fixstr :: "mem \<Rightarrow> nat \<Rightarrow> nat \<Rightarrow> nat \<Rightarrow> int + (nat \<times> u8 list)" where
  "parse_fixstr buf len pos maxlen =
     (if len < pos + 1 then Inl 0
      else if buf pos AND 0xe0 \<noteq> 0xa0 then Inl (-1)
      else
        let n = unat (buf pos AND 0x1f) in
        if len < pos + 1 + n then Inl 0
        else Inr (pos + 1 + n, rd buf (pos + 1) (if n < maxlen - 1 then n else maxlen - 1)))"

definition parse_val :: "mem \<Rightarrow> nat \<Rightarrow> nat \<Rightarrow> int + (nat \<times> int)" where
  "parse_val buf len pos =
     (if len < pos + 1 then Inl 0
      else
        let v = buf pos in
        if v = 0xc3 \<or> v = 0x01 then Inr (pos + 1, 1)
        else if v = 0xc2 \<or> v = 0x00 then Inr (pos + 1, 0)
        else if v = 0xcc then
          (if len < pos + 2 then Inl 0 else Inr (pos + 2, if buf (pos + 1) \<noteq> 0 then 1 else 0))
        else Inr (pos + 1, 0))"

definition parse_params :: "mem \<Rightarrow> nat \<Rightarrow> nat \<Rightarrow> nat \<Rightarrow> int + (nat \<times> u8 list \<times> int)" where
  "parse_params buf len pos pin_max =
     (if len < pos + 1 then Inl 0
      else if buf pos AND 0xf0 \<noteq> 0x90 then Inl (-1)
      else
        let param_count = unat (buf pos AND 0x0f) in
        (case (if param_count \<ge> 1 then parse_fixstr buf len (pos + 1) pin_max else Inr (pos + 1, [])) of
           Inl r \<Rightarrow> Inl r
         | Inr (pos, pin) \<Rightarrow>
             (case (if param_count \<ge> 2 then parse_val buf len pos else Inr (pos, 0)) of
                Inl r \<Rightarrow> Inl r
              | Inr (pos, val) \<Rightarrow> Inr (pos, pin, val))))"

definition parse_rpc_request :: "mem \<Rightarrow> nat \<Rightarrow> nat \<Rightarrow> nat \<Rightarrow> int + (nat \<times> rpc)" where
  "parse_rpc_request buf len method_max pin_max =
     (if len < 4 then Inl 0
      else if buf 0 \<noteq> 0x94 then Inl (-1)
      else if buf 1 \<noteq> 0 then Inl (-1)
      else
        (case parse_msg_id buf len 2 of
           Inl r \<Rightarrow> Inl r
         | Inr (pos, msg_id) \<Rightarrow>
             (case parse_fixstr buf len pos method_max of
                Inl r \<Rightarrow> Inl r
              | Inr (pos, meth) \<Rightarrow>
                  (case parse_params buf len pos pin_max of
                     Inl r \<Rightarrow> Inl r
                   | Inr (pos, pin, val) \<Rightarrow>
                       Inr (pos, \<lparr>r_msg_id = msg_id, r_method = meth, r_pin = pin, r_val = val\<rparr>)))))"

section \<open>Actions and responses\<close>

definition c_str :: "u8 list \<Rightarrow> string" where
  "c_str bs = map (\<lambda>b. char_of (unat b)) (takeWhile (\<lambda>b. b \<noteq> 0) bs)"

text \<open>The commands sent to the debugger; pins of the second kind are active low.\<close>

definition execute_pin_action :: "string \<Rightarrow> int \<Rightarrow> string list" where
  "execute_pin_action pin val =
     (if pin = ''D13'' then
        if val \<noteq> 0 then [''mww 0x42020418 0x00002000'', ''mww 0x42021c18 0x10000000'']
        else [''mww 0x42020418 0x20000000'', ''mww 0x42021c18 0x00001000'']
      else if pin = ''LED3_R'' then [''mww 0x42021c18 0x'' @ (if val = 0 then ''04000000'' else ''00000400'')]
      else if pin = ''LED3_G'' then [''mww 0x42021c18 0x'' @ (if val = 0 then ''08000000'' else ''00000800'')]
      else if pin = ''LED3_B'' then [''mww 0x42021c18 0x'' @ (if val = 0 then ''10000000'' else ''00001000'')]
      else if pin = ''LED4_R'' then [''mww 0x42021c18 0x'' @ (if val = 0 then ''20000000'' else ''00002000'')]
      else if pin = ''LED4_G'' then [''mww 0x42021c18 0x'' @ (if val = 0 then ''40000000'' else ''00004000'')]
      else if pin = ''LED4_B'' then [''mww 0x42021c18 0x'' @ (if val = 0 then ''80000000'' else ''00008000'')]
      else [])"

definition init_stm32_hw :: "string list" where
  "init_stm32_hw =
     [''mww 0x46020c8c 0x000001ff'', ''mww 0x42020400 0x04000000'', ''mww 0x42021c00 0x55500000'',
      ''mww 0x42021c18 0x0000fc00'', ''mww 0x42020418 0x20000000'']"

definition rpc_response :: "u32 \<Rightarrow> u8 list" where
  "rpc_response msg_id =
     [0x94, 0x01] @
     (if msg_id \<le> 0x7f then [ucast msg_id]
      else if msg_id \<le> 0xff then [0xcc, ucast msg_id]
      else if msg_id \<le> 0xffff then [0xcd, ucast (drop_bit 8 msg_id), ucast (msg_id AND 0xff)]
      else [0xce, ucast (drop_bit 24 msg_id), ucast (drop_bit 16 msg_id AND 0xff),
            ucast (drop_bit 8 msg_id AND 0xff), ucast (msg_id AND 0xff)]) @
     [0xc0, 0xc3]"

section \<open>Main loop\<close>

datatype event = Openocd string | Respond "u8 list"

text \<open>The search for the next start of a request.\<close>

function resync :: "mem \<Rightarrow> nat \<Rightarrow> nat \<Rightarrow> nat" where
  "resync buf buf_pos skip =
     (if skip + 1 < buf_pos \<and> \<not> (buf skip = 0x94 \<and> buf (skip + 1) = 0) then resync buf buf_pos (skip + 1)
      else skip)"
  by pat_completeness auto
termination by (relation "measure (\<lambda>(_, buf_pos, skip). buf_pos - skip)") auto

declare resync.simps [simp del]

lemma resync_ge: "skip \<le> resync buf n skip"
proof (induction buf n skip rule: resync.induct)
  case (1 buf n skip)
  show ?case
    by (subst resync.simps) (use 1 in auto)
qed

lemma parse_fixstr_pos: "parse_fixstr buf len pos maxlen = Inr (p, x) \<Longrightarrow> pos < p \<and> p \<le> len"
  by (auto simp: parse_fixstr_def Let_def split: if_splits)

lemma parse_val_pos: "parse_val buf len pos = Inr (p, x) \<Longrightarrow> pos < p \<and> p \<le> len"
  by (auto simp: parse_val_def Let_def split: if_splits)

lemma parse_msg_id_pos: "parse_msg_id buf len pos = Inr (p, x) \<Longrightarrow> pos < len \<Longrightarrow> pos < p \<and> p \<le> len"
  by (auto simp: parse_msg_id_def split: if_splits)

lemma parse_params_pos: "parse_params buf len pos maxlen = Inr (p, x) \<Longrightarrow> pos < p \<and> p \<le> len"
  by (auto simp: parse_params_def Let_def dest!: parse_fixstr_pos parse_val_pos split: if_splits sum.splits)

lemma parse_pos: "parse_rpc_request buf len mm pm = Inr (p, q) \<Longrightarrow> 0 < p \<and> p \<le> len"
  by (auto simp: parse_rpc_request_def dest!: parse_fixstr_pos parse_params_pos parse_msg_id_pos
      split: if_splits sum.splits prod.splits)

text \<open>
  All messages in the buffer: the events, the bytes that are left, and whether every response could be
  written. \<open>ok\<close> says which of the writes succeed, \<open>n\<close> counts them.
\<close>

function drain :: "mem \<Rightarrow> (nat \<Rightarrow> bool) \<Rightarrow> nat \<Rightarrow> u8 list \<Rightarrow> event list \<times> u8 list \<times> bool" where
  "drain junk ok n xs =
     (if xs = [] then ([], [], True)
      else
        let buf = wr junk 0 xs in
        (case parse_rpc_request buf (length xs) 32 32 of
           Inl r \<Rightarrow>
             if r = 0 then ([], xs, True)
             else drain junk ok n (drop (resync buf (length xs) 1) xs)
         | Inr (consumed, q) \<Rightarrow>
             let acts = (if c_str (r_method q) = ''set_pin_by_name''
                         then map Openocd (execute_pin_action (c_str (r_pin q)) (r_val q)) else []);
                 here = acts @ [Respond (rpc_response (r_msg_id q))] in
             if \<not> ok n then (here, xs, False)
             else
               let (ev, rest, fine) = drain junk ok (n + 1) (drop consumed xs) in (here @ ev, rest, fine)))"
  by pat_completeness auto
termination
proof (relation "measure (\<lambda>(_, _, _, xs). length xs)", goal_cases)
  case (2 junk ok n xs buf r)
  then show ?case using resync_ge [of 1 buf "length xs"] by simp
next
  case (3 junk ok n xs buf z consumed q)
  then show ?case using parse_pos [of buf "length xs" 32 32 consumed q] by simp
qed simp

declare drain.simps [simp del]

definition responses :: "event list \<Rightarrow> nat" where
  "responses ev = length (filter (\<lambda>e. case e of Respond _ \<Rightarrow> True | _ \<Rightarrow> False) ev)"

text \<open>
  The outer loop, with fuel for its rounds. \<open>reads\<close> is what the router has sent, in the pieces in
  which it arrives; a read takes at most the room left in the buffer of 4096 bytes, the empty piece or the
  end of the list is the end of the connection.
\<close>

abbreviation (input) bufsize :: nat where "bufsize \<equiv> 4096"

primrec bridge_run :: "nat \<Rightarrow> mem \<Rightarrow> (nat \<Rightarrow> bool) \<Rightarrow> nat \<Rightarrow> u8 list \<Rightarrow> u8 list list \<Rightarrow> event list option" where
  "bridge_run 0 junk ok n xs reads = None"
| "bridge_run (Suc k) junk ok n xs reads =
     (let room = bufsize - length xs;
          round = (\<lambda>xs reads.
            let (ev, rest, fine) = drain junk ok n xs in
            if \<not> fine then Some ev
            else map_option ((@) ev) (bridge_run k junk ok (n + responses ev) rest reads)) in
      if room > 0 then
        (case reads of
           [] \<Rightarrow> Some []
         | c # cs \<Rightarrow>
             if c = [] then Some []
             else round (xs @ take room c) (if length c \<le> room then cs else drop room c # cs))
      else round xs reads)"

text \<open>
  Before the loop the program registers its method, and throws away whatever the first read brings.
\<close>

definition reg_pkt :: "u8 list" where
  "reg_pkt = [0x94, 0x00, 0x01, 0xaa] @ ascii ''$/register'' @ [0x91, 0xaf] @ ascii ''set_pin_by_name''"

definition bridge_main :: "nat \<Rightarrow> mem \<Rightarrow> (nat \<Rightarrow> bool) \<Rightarrow> u8 list list \<Rightarrow> event list option" where
  "bridge_main fuel junk ok reads =
     (if \<not> ok 0 then Some [Respond reg_pkt]
      else
        (case reads of
           [] \<Rightarrow> Some [Respond reg_pkt]
         | c # cs \<Rightarrow>
             if c = [] then Some [Respond reg_pkt]
             else map_option ((#) (Respond reg_pkt))
               (bridge_run fuel junk ok 1 [] (if length c \<le> bufsize then cs else drop bufsize c # cs))))"

section \<open>The connection to the debugger\<close>

text \<open>
  The system calls on the debugger's socket, on a world \<open>'w\<close>: each gives its result. What is received is
  dropped, so the receive calls and the delays are left out. No command is longer than the buffer of 256
  bytes of \<open>send_openocd\<close>.
\<close>

record 'w ocd_sys =
  ocd_socket :: "'w \<Rightarrow> int \<times> 'w"
  ocd_connect :: "int \<Rightarrow> 'w \<Rightarrow> int \<times> 'w"
  ocd_write :: "int \<Rightarrow> string \<Rightarrow> 'w \<Rightarrow> int \<times> 'w"
  ocd_close :: "int \<Rightarrow> 'w \<Rightarrow> 'w"

definition connect_openocd :: "'w ocd_sys \<Rightarrow> 'w \<Rightarrow> int \<times> 'w" where
  "connect_openocd s w =
     (let (fd, w) = ocd_socket s w in
      if fd < 0 then (-1, w)
      else
        let (r, w) = ocd_connect s fd w in
        if r < 0 then (-1, ocd_close s fd w) else (fd, w))"

definition send_openocd :: "'w ocd_sys \<Rightarrow> string \<Rightarrow> int \<times> 'w \<Rightarrow> int \<times> 'w" where
  "send_openocd s cmd = (\<lambda>(fd, w).
     let (fd, w) = (if fd < 0 then connect_openocd s w else (fd, w)) in
     if fd < 0 then (fd, w)
     else
       let line = cmd @ [CHR 0x0A]; (n, w) = ocd_write s fd line w in
       if n < 0 then
         let w = ocd_close s fd w; (fd, w) = connect_openocd s w in
         if fd \<ge> 0 then (fd, snd (ocd_write s fd line w)) else (fd, w)
       else (fd, w))"

definition commands :: "'w ocd_sys \<Rightarrow> event list \<Rightarrow> int \<times> 'w \<Rightarrow> int \<times> 'w" where
  "commands s = fold (\<lambda>e. case e of Openocd cmd \<Rightarrow> send_openocd s cmd | Respond _ \<Rightarrow> id)"

text \<open>
  However the connection breaks, the bridge holds at most one socket to the debugger, the one in
  \<open>g_openocd_fd\<close>. \<open>opened\<close> tells the descriptors that are open.
\<close>

definition ocd_ok :: "'w ocd_sys \<Rightarrow> ('w \<Rightarrow> int set) \<Rightarrow> bool" where
  "ocd_ok s opened \<longleftrightarrow>
     (\<forall>w fd w'. ocd_socket s w = (fd, w') \<longrightarrow> opened w' = (if fd < 0 then opened w else insert fd (opened w)) \<and>
        (0 \<le> fd \<longrightarrow> fd \<notin> opened w)) \<and>
     (\<forall>fd w. opened (snd (ocd_connect s fd w)) = opened w) \<and>
     (\<forall>fd l w. opened (snd (ocd_write s fd l w)) = opened w) \<and>
     (\<forall>fd w. opened (ocd_close s fd w) = opened w - {fd})"

definition held :: "int \<Rightarrow> int set" where
  "held fd = (if fd < 0 then {} else {fd})"

lemma ocd_okD:
  assumes "ocd_ok s opened"
  shows "ocd_socket s w = (fd, w') \<Longrightarrow> opened w' = opened w \<union> held fd"
    and "ocd_socket s w = (fd, w') \<Longrightarrow> held fd \<inter> opened w = {}"
    and "ocd_connect s fd w = (r, w') \<Longrightarrow> opened w' = opened w"
    and "ocd_write s fd l w = (n, w') \<Longrightarrow> opened w' = opened w"
    and "opened (ocd_close s fd w) = opened w - {fd}"
proof -
  note ok = assms [unfolded ocd_ok_def]
  show "ocd_socket s w = (fd, w') \<Longrightarrow> opened w' = opened w \<union> held fd"
    "ocd_socket s w = (fd, w') \<Longrightarrow> held fd \<inter> opened w = {}"
    using conjunct1 [OF ok, rule_format, of w fd w'] by (auto simp: held_def split: if_splits)
  show "ocd_connect s fd w = (r, w') \<Longrightarrow> opened w' = opened w"
    using conjunct1 [OF conjunct2 [OF ok], rule_format, of fd w] by simp
  show "ocd_write s fd l w = (n, w') \<Longrightarrow> opened w' = opened w"
    using conjunct1 [OF conjunct2 [OF conjunct2 [OF ok]], rule_format, of fd l w] by simp
  show "opened (ocd_close s fd w) = opened w - {fd}"
    using conjunct2 [OF conjunct2 [OF conjunct2 [OF ok]], rule_format, of fd w] by simp
qed

lemma connect_openocd_held:
  assumes ok: "ocd_ok s opened" and "connect_openocd s w = (fd, w')"
  shows "opened w' = opened w \<union> held fd \<and> held fd \<inter> opened w = {}"
proof -
  obtain f w1 where f: "ocd_socket s w = (f, w1)" by fastforce
  obtain r w2 where r: "ocd_connect s f w1 = (r, w2)" by fastforce
  note o = ocd_okD(1,2) [OF ok f] ocd_okD(3) [OF ok r] ocd_okD(5) [OF ok, of f w2]
  consider (none) "f < 0" | (refused) "0 \<le> f" "r < 0" | (fine) "0 \<le> f" "0 \<le> r" by linarith
  then show ?thesis
  proof cases
    case refused
    then have "fd = -1" "w' = ocd_close s f w2" using assms(2) f r by (simp_all add: connect_openocd_def)
    then show ?thesis using refused o by (auto simp: held_def)
  qed (use assms(2) f r o in \<open>simp_all add: connect_openocd_def held_def\<close>)
qed

lemma send_openocd_held:
  assumes ok: "ocd_ok s opened" and send: "send_openocd s cmd (fd, w) = (fd', w')"
    and held: "opened w = A \<union> held fd" "held fd \<inter> A = {}"
  shows "opened w' = A \<union> held fd' \<and> held fd' \<inter> A = {}"
proof -
  obtain f w1 where f: "(if fd < 0 then connect_openocd s w else (fd, w)) = (f, w1)" by fastforce
  have o1: "opened w1 = A \<union> held f" "held f \<inter> A = {}"
    using f held connect_openocd_held [OF ok, of w f w1] by (auto simp: held_def split: if_splits)
  obtain n w2 where n: "ocd_write s f (cmd @ [CHR 0x0A]) w1 = (n, w2)" by fastforce
  obtain g w3 where g: "connect_openocd s (ocd_close s f w2) = (g, w3)" by fastforce
  obtain m w4 where m: "ocd_write s g (cmd @ [CHR 0x0A]) w3 = (m, w4)" by fastforce
  have "opened (ocd_close s f w2) = A" if "0 \<le> f"
    using ocd_okD(4) [OF ok n] ocd_okD(5) [OF ok, of f w2] o1 that by (auto simp: held_def)
  then have o3: "opened w3 = A \<union> held g \<and> held g \<inter> A = {}" if "0 \<le> f"
    using connect_openocd_held [OF ok g] that by simp
  consider (none) "f < 0" | (fine) "0 \<le> f" "0 \<le> n" | (lost) "0 \<le> f" "n < 0" "g < 0" | (again) "0 \<le> f" "n < 0" "0 \<le> g"
    by linarith
  then show ?thesis
  proof cases
    case none
    then show ?thesis using send f o1 by (simp add: send_openocd_def)
  next
    case fine
    then show ?thesis using send f n o1 ocd_okD(4) [OF ok n] by (simp add: send_openocd_def)
  next
    case lost
    then show ?thesis using send f n g o3 by (simp add: send_openocd_def)
  next
    case again
    then show ?thesis using send f n g m o3 ocd_okD(4) [OF ok m] by (simp add: send_openocd_def)
  qed
qed

lemma commands_held:
  assumes ok: "ocd_ok s opened"
  shows "commands s ev (fd, w) = (fd', w') \<Longrightarrow> opened w = A \<union> held fd \<Longrightarrow> held fd \<inter> A = {} \<Longrightarrow>
    opened w' = A \<union> held fd' \<and> held fd' \<inter> A = {}"
proof (induction ev arbitrary: fd w)
  case (Cons e ev)
  obtain f w1 where f: "(case e of Openocd cmd \<Rightarrow> send_openocd s cmd | Respond _ \<Rightarrow> id) (fd, w) = (f, w1)" by fastforce
  then have "opened w1 = A \<union> held f \<and> held f \<inter> A = {}"
    using send_openocd_held [OF ok _ Cons.prems(2,3)] Cons.prems by (cases e) auto
  then show ?case using Cons.IH [of f w1] Cons.prems(1) f by (simp add: commands_def)
qed (simp add: commands_def)

section \<open>What the parser looks at\<close>

definition agree :: "mem \<Rightarrow> mem \<Rightarrow> nat \<Rightarrow> bool" where
  "agree buf buf' len \<longleftrightarrow> (\<forall>a<len. buf a = buf' a)"

text \<open>
  With more input a parser gives the same result, unless it had asked for more.
\<close>

definition extends :: "nat \<Rightarrow> nat \<Rightarrow> int + 'a \<Rightarrow> int + 'a \<Rightarrow> bool" where
  "extends len len' r r' \<longleftrightarrow> r' = r \<or> len < len' \<and> r = Inl 0"

lemma extends_refl [simp]: "extends len len' r r"
  by (simp add: extends_def)

lemma extends_more: "len < len' \<Longrightarrow> extends len len' (Inl 0) r"
  by (simp add: extends_def)

lemma agreeD: "agree buf buf' len \<Longrightarrow> a < len \<Longrightarrow> buf' a = buf a"
  by (simp add: agree_def)

lemma agree_rd: "agree buf buf' len \<Longrightarrow> p + n \<le> len \<Longrightarrow> rd buf' p n = rd buf p n"
  by (auto simp: agree_def rd_def)

lemma parse_msg_id_extends:
  assumes "agree buf buf' len" "len \<le> len'" "pos < len"
  shows "extends len len' (parse_msg_id buf len pos) (parse_msg_id buf' len' pos)"
proof (cases "parse_msg_id buf len pos = Inl 0 \<and> len < len'")
  case False
  then show ?thesis
    using assms by (auto simp: parse_msg_id_def agreeD split: if_splits)
qed (simp add: extends_more)

lemma parse_fixstr_extends:
  assumes "agree buf buf' len" "len \<le> len'"
  shows "extends len len' (parse_fixstr buf len pos m) (parse_fixstr buf' len' pos m)"
proof (cases "parse_fixstr buf len pos m = Inl 0 \<and> len < len'")
  case False
  then show ?thesis
    using assms by (auto simp: parse_fixstr_def Let_def agreeD agree_rd split: if_splits)
qed (simp add: extends_more)

lemma parse_val_extends:
  assumes "agree buf buf' len" "len \<le> len'"
  shows "extends len len' (parse_val buf len pos) (parse_val buf' len' pos)"
proof (cases "parse_val buf len pos = Inl 0 \<and> len < len'")
  case False
  then show ?thesis
    using assms by (auto simp: parse_val_def Let_def agreeD split: if_splits)
qed (simp add: extends_more)

lemma extends_bind:
  assumes "extends len len' r r'" "\<And>p x. r = Inr (p, x) \<Longrightarrow> extends len len' (f p x) (f' p x)"
  shows "extends len len' (case r of Inl c \<Rightarrow> Inl c | Inr (p, x) \<Rightarrow> f p x)
    (case r' of Inl c \<Rightarrow> Inl c | Inr (p, x) \<Rightarrow> f' p x)"
  using assms by (auto simp: extends_def split: sum.splits)

lemma parse_params_extends:
  assumes "agree buf buf' len" "len \<le> len'"
  shows "extends len len' (parse_params buf len pos m) (parse_params buf' len' pos m)"
proof (cases "pos < len")
  case True
  then have "buf' pos = buf pos" "\<not> len < pos + 1" "\<not> len' < pos + 1" using assms by (auto simp: agreeD)
  then show ?thesis
    unfolding parse_params_def Let_def
    by (auto intro!: extends_bind parse_fixstr_extends parse_val_extends assms)
next
  case False
  then show ?thesis
    using assms by (cases "len < len'") (auto simp: parse_params_def extends_more)
qed

lemma parse_extends:
  assumes "agree buf buf' len" "len \<le> len'"
  shows "extends len len' (parse_rpc_request buf len mm pm) (parse_rpc_request buf' len' mm pm)"
proof (cases "len < 4")
  case True
  then show ?thesis
    using assms by (cases "len < len'") (auto simp: parse_rpc_request_def extends_more)
next
  case False
  then have "buf' 0 = buf 0" "buf' 1 = buf 1" "\<not> len' < 4" using assms by (auto simp: agreeD)
  with False show ?thesis
    unfolding parse_rpc_request_def
    by (auto intro!: extends_bind parse_msg_id_extends parse_fixstr_extends parse_params_extends assms)
qed

section \<open>How much the parser waits for\<close>

abbreviation (input) longest :: nat where "longest \<equiv> 74"

lemma and_mask_le: "unat (w AND 0x1f :: u8) \<le> 31"
proof -
  have "w AND 0x1f \<le> (0x1f :: u8)" by (rule word_and_le1)
  then show ?thesis by (simp add: word_le_nat_alt)
qed

lemma parse_fixstr_waits:
  "parse_fixstr buf len pos m = Inl 0 \<Longrightarrow> len < pos + 32"
  "parse_fixstr buf len pos m = Inr (p, x) \<Longrightarrow> p \<le> pos + 32"
  using and_mask_le [of "buf pos"] by (auto simp: parse_fixstr_def Let_def split: if_splits)

lemma parse_val_waits:
  "parse_val buf len pos = Inl 0 \<Longrightarrow> len < pos + 2"
  by (auto simp: parse_val_def Let_def split: if_splits)

lemma parse_params_waits: "parse_params buf len pos m = Inl 0 \<Longrightarrow> len < pos + 35"
  by (auto simp: parse_params_def Let_def dest: parse_fixstr_waits parse_val_waits split: if_splits sum.splits)
    (fastforce dest: parse_fixstr_waits parse_val_waits)+

lemma parse_msg_id_waits:
  "parse_msg_id buf len pos = Inl 0 \<Longrightarrow> len < pos + 5"
  "parse_msg_id buf len pos = Inr (p, x) \<Longrightarrow> p \<le> pos + 5"
  by (auto simp: parse_msg_id_def split: if_splits)

lemma parse_waits:
  assumes "parse_rpc_request buf len mm pm = Inl 0"
  shows "len < longest"
proof (cases "parse_msg_id buf len 2")
  case (Inl r)
  then show ?thesis
    using assms parse_msg_id_waits(1) [of buf len 2] by (auto simp: parse_rpc_request_def split: if_splits)
next
  case (Inr q)
  obtain p x where q: "q = (p, x)" by fastforce
  have p: "p \<le> 7" using parse_msg_id_waits(2) [of buf len 2 p x] Inr q by simp
  show ?thesis
  proof (cases "parse_fixstr buf len p mm")
    case (Inl r)
    then show ?thesis
      using assms Inr q p parse_fixstr_waits(1) [of buf len p mm] by (auto simp: parse_rpc_request_def split: if_splits)
  next
    case m: (Inr u)
    obtain p' y where u: "u = (p', y)" by fastforce
    have "p' \<le> p + 32" using parse_fixstr_waits(2) [of buf len p mm p' y] m u by simp
    then show ?thesis
      using assms Inr q m u p parse_params_waits [of buf len p' pm]
      by (auto simp: parse_rpc_request_def split: if_splits sum.splits)
  qed
qed

lemma parse_error_code: "parse_rpc_request buf len mm pm = Inl r \<Longrightarrow> r = 0 \<or> r = -1"
  by (auto simp: parse_rpc_request_def parse_msg_id_def parse_fixstr_def parse_params_def parse_val_def Let_def
      split: if_splits sum.splits)

text \<open>
  C35. The parser looks at no byte beyond the received ones, consumes at least one and at most
  all of them, asks for more only while there are fewer than 74, and never changes its mind: a
  request or a protocol error that it finds stays when more bytes have arrived.
\<close>

theorem bridge_parse:
  assumes "agree buf buf' len"
  shows "parse_rpc_request buf' len mm pm = parse_rpc_request buf len mm pm \<and>
    (case parse_rpc_request buf len mm pm of
       Inl r \<Rightarrow> r = 0 \<and> len < longest \<or>
         r = -1 \<and> (\<forall>len' \<ge> len. parse_rpc_request buf' len' mm pm = Inl (-1))
     | Inr (consumed, q) \<Rightarrow> 0 < consumed \<and> consumed \<le> len \<and>
         (\<forall>len' \<ge> len. parse_rpc_request buf' len' mm pm = Inr (consumed, q)))"
proof -
  have "extends len len' (parse_rpc_request buf len mm pm) (parse_rpc_request buf' len' mm pm)" if "len \<le> len'" for len'
    using parse_extends [OF assms that] .
  note ext = this this [OF order_refl]
  show ?thesis
    using ext parse_waits [of buf len mm pm] parse_error_code [of buf len mm pm] parse_pos [of buf len mm pm]
    by (auto simp: extends_def split: sum.splits)
qed

definition sample_rpc :: "u8 list" where
  "sample_rpc = [0x94, 0x00, 0x05, 0xa1, 0x61, 0x92, 0xa1, 0x62, 0xc3]"

theorem bridge_parse_witness:
  "parse_rpc_request (wr (\<lambda>_. 7) 0 sample_rpc) 9 32 32 =
     Inr (9, \<lparr>r_msg_id = 5, r_method = [0x61], r_pin = [0x62], r_val = 1\<rparr>)"
proof -
  have "parse_rpc_request (wr (\<lambda>_. 0) 0 sample_rpc) 9 32 32 =
      Inr (9, \<lparr>r_msg_id = 5, r_method = [0x61], r_pin = [0x62], r_val = 1\<rparr>)"
    by (simp add: parse_rpc_request_def parse_msg_id_def parse_fixstr_def parse_params_def parse_val_def wr_def
        sample_rpc_def Let_def rd_def)
  moreover have "agree (wr (\<lambda>_. 0) 0 sample_rpc) (wr (\<lambda>_. 7) 0 sample_rpc) 9"
    by (simp add: agree_def wr_def sample_rpc_def)
  ultimately show ?thesis using bridge_parse by fastforce
qed

section \<open>Independence of the reads\<close>

definition parsed :: "mem \<Rightarrow> u8 list \<Rightarrow> int + (nat \<times> rpc)" where
  "parsed junk xs = parse_rpc_request (wr junk 0 xs) (length xs) 32 32"

definition skipped :: "mem \<Rightarrow> u8 list \<Rightarrow> nat \<Rightarrow> nat" where
  "skipped junk xs k = resync (wr junk 0 xs) (length xs) k"

definition handled :: "rpc \<Rightarrow> event list" where
  "handled q =
     (if c_str (r_method q) = ''set_pin_by_name''
      then map Openocd (execute_pin_action (c_str (r_pin q)) (r_val q)) else []) @
     [Respond (rpc_response (r_msg_id q))]"

text \<open>The events and the remaining bytes when every write succeeds.\<close>

abbreviation drained :: "mem \<Rightarrow> nat \<Rightarrow> u8 list \<Rightarrow> event list \<times> u8 list \<times> bool" where
  "drained junk \<equiv> drain junk (\<lambda>_. True)"

lemma drained_unfold:
  "drained junk n xs =
     (case parsed junk xs of
        Inl r \<Rightarrow> if r = 0 then ([], xs, True) else drained junk n (drop (skipped junk xs 1) xs)
      | Inr (k, q) \<Rightarrow>
          let (ev, rest, fine) = drained junk (n + 1) (drop k xs) in (handled q @ ev, rest, fine))"
proof (cases "xs = []")
  case True
  then show ?thesis by (simp add: drain.simps parsed_def parse_rpc_request_def)
next
  case False
  then show ?thesis
    by (subst drain.simps) (simp add: Let_def parsed_def skipped_def handled_def split: sum.splits prod.splits)
qed

lemma wr_nth: "a < length xs \<Longrightarrow> wr junk 0 xs a = xs ! a"
  by (simp add: wr_def)

lemma parsed_append: "parsed junk xs \<noteq> Inl 0 \<Longrightarrow> parsed junk (xs @ ys) = parsed junk xs"
  using parse_extends [of "wr junk 0 xs" "wr junk 0 (xs @ ys)" "length xs" "length (xs @ ys)" 32 32]
  by (auto simp: parsed_def extends_def agree_def wr_nth nth_append)

lemma parsed_pos: "parsed junk xs = Inr (k, q) \<Longrightarrow> 0 < k \<and> k \<le> length xs"
  by (auto simp: parsed_def dest: parse_pos)

lemma parsed_short: "length xs < 4 \<Longrightarrow> parsed junk xs = Inl 0"
  by (simp add: parsed_def parse_rpc_request_def)

lemma parsed_error: "4 \<le> length xs \<Longrightarrow> xs ! 0 \<noteq> 0x94 \<or> xs ! 1 \<noteq> 0 \<Longrightarrow> parsed junk xs = Inl (-1)"
proof -
  assume xs: "4 \<le> length xs" "xs ! 0 \<noteq> 0x94 \<or> xs ! 1 \<noteq> 0"
  then have "wr junk 0 xs 0 = xs ! 0" "wr junk 0 xs 1 = xs ! 1" by (intro wr_nth; linarith)+
  then show ?thesis using xs by (auto simp: parsed_def parse_rpc_request_def)
qed

lemma skipped_simp:
  "skipped junk xs k =
     (if k + 1 < length xs \<and> \<not> (xs ! k = 0x94 \<and> xs ! (k + 1) = 0) then skipped junk xs (k + 1) else k)"
  unfolding skipped_def by (subst resync.simps) (auto simp: wr_nth)

lemma skipped_ge: "k \<le> skipped junk xs k"
  by (simp add: skipped_def resync_ge)

lemma skipped_less: "k < length xs \<Longrightarrow> skipped junk xs k < length xs"
proof (induction "length xs - k" arbitrary: k rule: less_induct)
  case less
  then show ?case by (subst skipped_simp) auto
qed

text \<open>Appending bytes behind, and in front of, the bytes that are searched.\<close>

lemma skipped_append:
  "skipped junk (xs @ ys) k = (if skipped junk xs k + 1 < length xs then skipped junk xs k
     else skipped junk (xs @ ys) (max k (length xs - 1)))"
proof (induction "length xs - k" arbitrary: k rule: less_induct)
  case less
  show ?case
  proof (cases "k + 1 < length xs \<and> \<not> (xs ! k = 0x94 \<and> xs ! (k + 1) = 0)")
    case True
    then have "skipped junk xs k = skipped junk xs (k + 1)" "skipped junk (xs @ ys) k = skipped junk (xs @ ys) (k + 1)"
      by (subst skipped_simp, simp add: nth_append)+
    moreover have "k + 1 \<le> length xs - 1" "k \<le> length xs - 1" "length xs - (k + 1) < length xs - k"
      using True by linarith+
    ultimately show ?thesis using less [of "k + 1"] by (simp add: max_absorb2)
  next
    case False
    then have k: "skipped junk xs k = k" by (subst skipped_simp) auto
    show ?thesis
    proof (cases "k + 1 < length xs")
      case True
      then have "skipped junk (xs @ ys) k = k" using False by (subst skipped_simp) (simp add: nth_append)
      then show ?thesis using True k by simp
    next
      case nk: False
      then have "max k (length xs - 1) = k" by simp
      then show ?thesis using k nk by simp
    qed
  qed
qed

lemma skipped_front: "skipped junk (as @ zs) (length as + k) = length as + skipped junk zs k"
proof (induction "length zs - k" arbitrary: k rule: less_induct)
  case less
  show ?case
  proof (cases "k + 1 < length zs \<and> \<not> (zs ! k = 0x94 \<and> zs ! (k + 1) = 0)")
    case True
    then have "skipped junk zs k = skipped junk zs (k + 1)"
      "skipped junk (as @ zs) (length as + k) = skipped junk (as @ zs) (length as + (k + 1))"
      by (subst skipped_simp, simp add: nth_append)+
    moreover have "length zs - (k + 1) < length zs - k" using True by linarith
    ultimately show ?thesis using less [of "k + 1"] by simp
  next
    case False
    then have "skipped junk zs k = k" "skipped junk (as @ zs) (length as + k) = length as + k"
      by (subst skipped_simp, auto simp: nth_append)+
    then show ?thesis by simp
  qed
qed

text \<open>Seeking to the next start of a request loses nothing.\<close>

lemma drained_seek: "fst (drained junk n zs) = fst (drained junk n (drop (skipped junk zs 0) zs))"
proof (cases "1 < length zs \<and> \<not> (zs ! 0 = 0x94 \<and> zs ! 1 = 0)")
  case True
  then have k: "skipped junk zs 0 = skipped junk zs 1" by (subst skipped_simp) simp
  show ?thesis
  proof (cases "length zs < 4")
    case True
    then have "parsed junk zs = Inl 0" "parsed junk (drop (skipped junk zs 0) zs) = Inl 0"
      by (simp_all add: parsed_short)
    then show ?thesis by (subst (1 2) drained_unfold) simp
  next
    case False
    then have "parsed junk zs = Inl (-1)" using True by (intro parsed_error) auto
    then show ?thesis by (subst drained_unfold) (simp add: k)
  qed
next
  case False
  then have "skipped junk zs 0 = 0" by (subst skipped_simp) auto
  then show ?thesis by simp
qed

lemma drained_count: "drained junk n xs = drained junk m xs"
proof (induction "length xs" arbitrary: n m xs rule: less_induct)
  case less
  show ?case
  proof (cases "parsed junk xs")
    case (Inl r)
    have "drained junk n (drop (skipped junk xs 1) xs) = drained junk m (drop (skipped junk xs 1) xs)" if "xs \<noteq> []"
      using less [of "drop (skipped junk xs 1) xs"] skipped_ge [of 1 junk xs] that by simp
    then show ?thesis using Inl by (subst (1 2) drained_unfold) (cases "xs = []"; simp add: parsed_short)
  next
    case (Inr kq)
    obtain k q where kq: "kq = (k, q)" by fastforce
    then have "drained junk (n + 1) (drop k xs) = drained junk (m + 1) (drop k xs)"
      using parsed_pos [of junk xs k q] Inr by (intro less) (simp, linarith)
    then show ?thesis using Inr kq by (subst (1 2) drained_unfold) simp
  qed
qed

lemma drained_append:
  "drained junk n xs = (ev, rest, fine) \<Longrightarrow>
     fst (drained junk n (xs @ ys)) = ev @ fst (drained junk n (rest @ ys))"
proof (induction "length xs" arbitrary: n xs ev rest fine rule: less_induct)
  case less
  show ?case
  proof (cases "parsed junk xs")
    case (Inr kq)
    obtain k q where kq: "kq = (k, q)" by fastforce
    then have k: "0 < k" "k \<le> length xs" using parsed_pos [of junk xs k q] Inr by simp_all
    obtain ev' rest' fine' where d: "drained junk (n + 1) (drop k xs) = (ev', rest', fine')" using prod_cases3 by blast
    have "parsed junk (xs @ ys) = Inr (k, q)" using parsed_append [of junk xs ys] Inr kq by simp
    moreover have "ev = handled q @ ev'" "rest = rest'"
      using less.prems d Inr kq by (subst (asm) drained_unfold, simp)+
    moreover have "fst (drained junk (n + 1) (drop k xs @ ys)) = ev' @ fst (drained junk (n + 1) (rest' @ ys))"
      using less(1) [OF _ d] k by simp
    ultimately show ?thesis
      using k drained_count [of junk n "rest @ ys" "n + 1"]
      by (subst drained_unfold) (simp add: Let_def split: prod.splits, metis fst_conv)
  next
    case (Inl r)
    show ?thesis
    proof (cases "r = 0")
      case True
      then have "ev = []" "rest = xs" using less.prems Inl by (subst (asm) drained_unfold, simp)+
      then show ?thesis by simp
    next
      case False
      have len: "4 \<le> length xs" using Inl False parsed_short [of xs junk] by (cases "length xs < 4") auto
      let ?k = "skipped junk xs 1" and ?k' = "skipped junk (xs @ ys) 1"
      have d: "drained junk n (drop ?k xs) = (ev, rest, fine)"
        using less.prems Inl False by (subst (asm) drained_unfold) simp
      have d': "drained junk n (xs @ ys) = drained junk n (drop ?k' (xs @ ys))"
        using parsed_append [of junk xs ys] Inl False by (subst drained_unfold) simp
      have ih: "fst (drained junk n (drop ?k xs @ ys)) = ev @ fst (drained junk n (rest @ ys))"
        using less(1) [OF _ d] skipped_ge [of 1 junk xs] len by simp
      show ?thesis
      proof (cases "?k + 1 < length xs")
        case True
        then have "?k' = ?k" by (subst skipped_append) simp
        then show ?thesis using d' ih True by simp
      next
        case end_of: False
        let ?as = "take (length xs - 1) xs" and ?zs = "drop (length xs - 1) xs @ ys"
        have "?k < length xs" using skipped_less [of 1 xs junk] len by simp
        then have k: "?k = length xs - 1" using end_of by simp
        have split: "xs @ ys = ?as @ ?zs" "length ?as = length xs - 1" by simp_all
        have "?k' = skipped junk (xs @ ys) (length xs - 1)"
          using end_of len by (subst skipped_append) (simp add: max_absorb2)
        also have "\<dots> = length ?as + skipped junk ?zs 0"
          using skipped_front [of junk ?as ?zs 0] unfolding split(1) [symmetric] split(2) by simp
        finally have k': "?k' = length ?as + skipped junk ?zs 0" .
        have "drop ?k' (xs @ ys) = drop ?k' (?as @ ?zs)" by (rule arg_cong [OF split(1)])
        also have "\<dots> = drop (skipped junk ?zs 0) ?zs" unfolding k' drop_append by simp
        finally have "fst (drained junk n (xs @ ys)) = fst (drained junk n ?zs)"
          using d' drained_seek [of junk n ?zs] by simp
        then show ?thesis using ih k by simp
      qed
    qed
  qed
qed

lemma drained_rest:
  "drained junk n xs = (ev, rest, fine) \<Longrightarrow> fine \<and> length rest < longest \<and> drained junk n rest = ([], rest, True)"
proof (induction "length xs" arbitrary: n xs ev rest fine rule: less_induct)
  case less
  show ?case
  proof (cases "parsed junk xs")
    case (Inr kq)
    obtain k q where kq: "kq = (k, q)" by fastforce
    obtain ev' rest' fine' where d: "drained junk (n + 1) (drop k xs) = (ev', rest', fine')" using prod_cases3 by blast
    have "fine' \<and> length rest' < longest \<and> drained junk (n + 1) rest' = ([], rest', True)"
    proof -
      have "length (drop k xs) < length xs" using parsed_pos [of junk xs k q] Inr kq by (simp, linarith)
      then show ?thesis by (rule less(1) [OF _ d])
    qed
    moreover have "rest = rest'" "fine = fine'" using less.prems d Inr kq by (subst (asm) drained_unfold, simp)+
    ultimately show ?thesis using drained_count [of junk n rest "n + 1"] by simp
  next
    case (Inl r)
    show ?thesis
    proof (cases "r = 0")
      case True
      then have "rest = xs" "fine" using less.prems Inl by (subst (asm) drained_unfold, simp)+
      moreover have "length xs < longest" using parse_waits [of "wr junk 0 xs"] Inl True by (simp add: parsed_def)
      ultimately show ?thesis using Inl True by (subst drained_unfold) simp
    next
      case False
      then have d: "drained junk n (drop (skipped junk xs 1) xs) = (ev, rest, fine)"
        using less.prems Inl by (subst (asm) drained_unfold) simp
      moreover have "xs \<noteq> []" using Inl False parsed_short [of xs junk] by auto
      ultimately show ?thesis using less(1) [OF _ d] skipped_ge [of 1 junk xs] by simp
    qed
  qed
qed

lemma bridge_run_drained:
  assumes "[] \<notin> set reads" "length (concat reads) < fuel" "length xs < longest" "drained junk n xs = ([], xs, True)"
  shows "bridge_run fuel junk (\<lambda>_. True) n xs reads = Some (fst (drained junk n (xs @ concat reads)))"
  using assms
proof (induction fuel arbitrary: n xs reads)
  case (Suc fuel)
  show ?case
  proof (cases reads)
    case Nil
    then show ?thesis using Suc.prems(3,4) by simp
  next
    case (Cons c cs)
    let ?room = "bufsize - length xs"
    let ?reads = "if length c \<le> ?room then cs else drop ?room c # cs"
    have c: "c \<noteq> []" "0 < ?room" using Suc.prems(1,3) Cons by auto
    obtain ev rest fine where d: "drained junk n (xs @ take ?room c) = (ev, rest, fine)" using prod_cases3 by blast
    note r = drained_rest [OF d]
    have concat: "take ?room c @ concat ?reads = concat reads" using Cons by simp
    have "[] \<notin> set ?reads" using Suc.prems(1) Cons by auto
    moreover have "length (concat ?reads) < fuel"
    proof -
      have "0 < length (take ?room c)" using c by simp
      moreover have "length (take ?room c) + length (concat ?reads) = length (concat reads)"
        using concat by (metis length_append)
      ultimately show ?thesis using Suc.prems(2) by linarith
    qed
    ultimately have "bridge_run fuel junk (\<lambda>_. True) (n + responses ev) rest ?reads =
        Some (fst (drained junk (n + responses ev) (rest @ concat ?reads)))"
      using r drained_count [of junk "n + responses ev" rest n] by (intro Suc.IH) simp_all
    then have "bridge_run (Suc fuel) junk (\<lambda>_. True) n xs reads = Some (ev @ fst (drained junk n (rest @ concat ?reads)))"
      using c d r Cons drained_count [of junk "n + responses ev" "rest @ concat ?reads" n] by simp
    also have "ev @ fst (drained junk n (rest @ concat ?reads)) = fst (drained junk n ((xs @ take ?room c) @ concat ?reads))"
      using drained_append [OF d] by simp
    also have "(xs @ take ?room c) @ concat ?reads = xs @ concat reads" using concat by simp
    finally show ?thesis .
  qed
qed simp

text \<open>
  C33. The way the router's byte stream is cut into reads makes no difference: for every
  stream, corrupt or not, the bridge ends after as many rounds as there are bytes and has done what one
  pass over the whole stream does. In particular its buffer never fills up.
\<close>

theorem bridge_chunking:
  assumes "[] \<notin> set reads" "length (concat reads) < fuel"
  shows "bridge_run fuel junk (\<lambda>_. True) 0 [] reads = Some (fst (drain junk (\<lambda>_. True) 0 (concat reads)))"
  using bridge_run_drained [OF assms, of "[]" junk 0] by (simp add: drain.simps [of junk _ _ "[]"])

theorem bridge_chunking_witness:
  "bridge_run 10 (\<lambda>_. 0) (\<lambda>_. True) 0 [] [[0x94, 0x00, 0x05], [0xa1, 0x61, 0x92, 0xa1], [0x62, 0xc3]] =
   Some (fst (drain (\<lambda>_. 0) (\<lambda>_. True) 0 sample_rpc))"
  using bridge_chunking [of "[[0x94, 0x00, 0x05], [0xa1, 0x61, 0x92, 0xa1], [0x62, 0xc3]]" 10 "\<lambda>_. 0"]
  by (simp add: sample_rpc_def)

section \<open>Answers\<close>

text \<open>A request as a client encodes it.\<close>

definition id_bytes :: "u32 \<Rightarrow> u8 list" where
  "id_bytes msg_id =
     (if msg_id \<le> 0x7f then [ucast msg_id]
      else if msg_id \<le> 0xff then [0xcc, ucast msg_id]
      else if msg_id \<le> 0xffff then [0xcd, ucast (drop_bit 8 msg_id), ucast (msg_id AND 0xff)]
      else [0xce, ucast (drop_bit 24 msg_id), ucast (drop_bit 16 msg_id AND 0xff),
            ucast (drop_bit 8 msg_id AND 0xff), ucast (msg_id AND 0xff)])"

definition fixstr :: "u8 list \<Rightarrow> u8 list" where
  "fixstr bs = (0xa0 OR of_nat (length bs)) # bs"

definition request_bytes :: "rpc \<Rightarrow> u8 list" where
  "request_bytes q = [0x94, 0x00] @ id_bytes (r_msg_id q) @ fixstr (r_method q) @ [0x92] @ fixstr (r_pin q) @
     [if r_val q = 0 then 0xc2 else 0xc3]"

definition request_ok :: "rpc \<Rightarrow> bool" where
  "request_ok q \<longleftrightarrow> length (r_method q) < 32 \<and> length (r_pin q) < 32 \<and> r_val q \<in> {0, 1}"

lemma rpc_response_id: "rpc_response msg_id = [0x94, 0x01] @ id_bytes msg_id @ [0xc0, 0xc3]"
  by (simp add: rpc_response_def id_bytes_def)

lemma small_bits: "unat (i :: u32) < 2 ^ k \<Longrightarrow> bit i n \<Longrightarrow> n < k"
proof -
  assume i: "unat i < 2 ^ k" "bit i n"
  then have "take_bit k (unat i) = unat i" by (simp add: take_bit_nat_eq_self)
  moreover have "bit (unat i) n" using i(2) by (simp add: bit_unsigned_iff bit_imp_le_length)
  ultimately show "n < k" by (metis bit_take_bit_iff)
qed

lemma mask_8: "(0xff :: u32) = mask 8"
  by (simp add: mask_eq_exp_minus_1)

lemma parse_id_bytes:
  assumes "holds buf pos (id_bytes i)" "pos + length (id_bytes i) \<le> len"
  shows "parse_msg_id buf len pos = Inr (pos + length (id_bytes i), i)"
proof -
  consider (a) "i \<le> 0x7f" | (b) "\<not> i \<le> 0x7f" "i \<le> 0xff" | (c) "\<not> i \<le> 0x7f" "\<not> i \<le> 0xff" "i \<le> 0xffff"
    | (d) "\<not> i \<le> 0x7f" "\<not> i \<le> 0xff" "\<not> i \<le> 0xffff" by blast
  then show ?thesis
  proof cases
    case a
    then have u: "unat i \<le> 127" by (simp add: word_le_nat_alt)
    have b: "ucast (ucast i :: u8) = i"
      by (rule bit_word_eqI) (use small_bits [of i 8] u in \<open>auto simp: bit_simps\<close>)
    have "unat (ucast i :: u8) = unat i" using u by (simp add: unsigned_ucast_eq take_bit_nat_eq_self)
    then have "(ucast i :: u8) \<le> 0x7f" using u by (simp add: word_le_nat_alt)
    then show ?thesis using assms a b by (simp add: parse_msg_id_def id_bytes_def)
  next
    case b
    then have "unat i \<le> 255" by (simp add: word_le_nat_alt)
    then have "ucast (ucast i :: u8) = i"
      by (intro bit_word_eqI) (use small_bits [of i 8] in \<open>auto simp: bit_simps\<close>)
    then show ?thesis using assms b by (simp add: parse_msg_id_def id_bytes_def)
  next
    case c
    then have u: "unat i \<le> 65535" by (simp add: word_le_nat_alt)
    have "push_bit 8 (ucast (ucast (drop_bit 8 i) :: u8)) OR ucast (ucast (i AND 0xff) :: u8) = i"
      unfolding mask_8
      by (rule bit_word_eqI) (use small_bits [of i 16] u in \<open>auto simp: bit_simps less_diff_conv2 not_less\<close>)
    moreover have "buf pos = 0xcd" "buf (pos + 1) = ucast (drop_bit 8 i)" "buf (pos + 2) = ucast (i AND 0xff)"
      using assms(1) c by (simp_all add: id_bytes_def)
    ultimately show ?thesis using assms(2) c by (simp add: parse_msg_id_def id_bytes_def)
  next
    case d
    have "push_bit 24 (ucast (ucast (drop_bit 24 i) :: u8)) OR push_bit 16 (ucast (ucast (drop_bit 16 i AND 0xff) :: u8)) OR
        push_bit 8 (ucast (ucast (drop_bit 8 i AND 0xff) :: u8)) OR ucast (ucast (i AND 0xff) :: u8) = i"
      unfolding mask_8
    proof (rule bit_word_eqI)
      fix n assume n: "n < LENGTH(32)"
      consider "n < 8" | j where "n = 8 + j" "j < 8" | j where "n = 16 + j" "j < 8" | j where "n = 24 + j" "j < 8"
      proof -
        consider "n < 8" | "8 \<le> n \<and> n - 8 < 8" | "16 \<le> n \<and> n - 16 < 8" | "24 \<le> n \<and> n - 24 < 8" using n by fastforce
        then show thesis using that by (metis le_add_diff_inverse)
      qed
      then show "bit (push_bit 24 (ucast (ucast (drop_bit 24 i) :: u8)) OR
          push_bit 16 (ucast (ucast (drop_bit 16 i AND mask 8) :: u8)) OR
          push_bit 8 (ucast (ucast (drop_bit 8 i AND mask 8) :: u8)) OR ucast (ucast (i AND mask 8) :: u8) :: u32) n = bit i n"
        by cases (auto simp: bit_simps)
    qed
    moreover have "buf pos = 0xce" "buf (pos + 1) = ucast (drop_bit 24 i)" "buf (pos + 2) = ucast (drop_bit 16 i AND 0xff)"
        "buf (pos + 3) = ucast (drop_bit 8 i AND 0xff)" "buf (pos + 4) = ucast (i AND 0xff)"
      using assms(1) d by (simp_all add: id_bytes_def numeral_3_eq_3 numeral_Bit0 [of "num.Bit0 num.One"])
    ultimately show ?thesis using assms(2) d by (simp add: parse_msg_id_def id_bytes_def)
  qed
qed

lemma fixstr_tags:
  "list_all (\<lambda>n. (0xa0 OR of_nat n :: u8) AND 0xe0 = 0xa0 \<and> unat ((0xa0 OR of_nat n :: u8) AND 0x1f) = n) [0..<32]"
  by (simp add: upt_rec)

lemma fixstr_tag:
  "n < 32 \<Longrightarrow> (0xa0 OR of_nat n :: u8) AND 0xe0 = 0xa0"
  "n < 32 \<Longrightarrow> unat ((0xa0 OR of_nat n :: u8) AND 0x1f) = n"
  using fixstr_tags by (auto simp: list_all_iff)

lemma parse_fixstr_bytes:
  assumes "holds buf pos (fixstr bs)" "pos + length (fixstr bs) \<le> len" "length bs < 32"
  shows "parse_fixstr buf len pos 32 = Inr (pos + length (fixstr bs), bs)"
proof -
  have "buf pos = 0xa0 OR of_nat (length bs)" "holds buf (pos + 1) bs" using assms(1) by (simp_all add: fixstr_def)
  moreover have "length bs < 31 \<or> length bs = 31" using assms(3) by linarith
  ultimately show ?thesis
    using assms fixstr_tag [OF assms(3)] by (auto simp: parse_fixstr_def fixstr_def Let_def holds_iff_rd)
qed

lemma parse_request_bytes:
  assumes q: "request_ok q" and buf: "holds buf 0 (request_bytes q)" "length (request_bytes q) \<le> len"
  shows "parse_rpc_request buf len 32 32 = Inr (length (request_bytes q), q)"
proof -
  let ?i = "2 + length (id_bytes (r_msg_id q))"
  let ?m = "?i + length (fixstr (r_method q))"
  let ?p = "?m + 1 + length (fixstr (r_pin q))"
  have b: "buf 0 = 0x94" "buf 1 = 0" "holds buf 2 (id_bytes (r_msg_id q))" "holds buf ?i (fixstr (r_method q))"
      "buf ?m = 0x92" "holds buf (?m + 1) (fixstr (r_pin q))" "buf ?p = (if r_val q = 0 then 0xc2 else 0xc3)"
    using buf(1) by (simp_all add: request_bytes_def add.assoc numeral_2_eq_2)
  have len: "?p + 1 \<le> len" "length (request_bytes q) = ?p + 1" using buf(2) by (simp_all add: request_bytes_def)
  have "4 \<le> len" using len by (simp add: fixstr_def)
  moreover have "parse_msg_id buf len 2 = Inr (?i, r_msg_id q)"
    using b(3) len by (intro parse_id_bytes) simp_all
  moreover have "parse_fixstr buf len ?i 32 = Inr (?m, r_method q)"
    using b(4) len q by (intro parse_fixstr_bytes) (simp_all add: request_ok_def)
  moreover have "parse_fixstr buf len (?m + 1) 32 = Inr (?p, r_pin q)"
    using b(6) len q by (intro parse_fixstr_bytes) (simp_all add: request_ok_def)
  moreover have "parse_val buf len ?p = Inr (?p + 1, r_val q)"
    using b(7) len q by (auto simp: parse_val_def request_ok_def)
  ultimately show ?thesis
    using b(1,2,5) len by (simp add: parse_rpc_request_def parse_params_def)
qed

lemma drained_request:
  assumes "request_ok q"
  shows "fst (drained junk n (request_bytes q @ ys)) = handled q @ fst (drained junk n ys)"
proof -
  have "holds (wr junk 0 (request_bytes q @ ys)) 0 (request_bytes q)"
    using holds_wr [of junk 0 "request_bytes q @ ys"] unfolding holds_append by blast
  then have "parsed junk (request_bytes q @ ys) = Inr (length (request_bytes q), q)"
    unfolding parsed_def using assms by (intro parse_request_bytes) simp_all
  then show ?thesis
    using drained_count [of junk n ys "n + 1"]
    by (subst drained_unfold) (simp add: Let_def split: prod.splits)
qed

lemma drained_requests:
  "list_all request_ok qs \<Longrightarrow> fst (drained junk n (concat (map request_bytes qs))) = concat (map handled qs)"
proof (induction qs)
  case Nil
  then show ?case by (simp add: drain.simps)
next
  case (Cons q qs)
  then show ?case using drained_request [of q junk n "concat (map request_bytes qs)"] by simp
qed

lemma skipped_noise: "0x94 \<notin> set g \<Longrightarrow> k < length g \<Longrightarrow> skipped junk g k = length g - 1"
proof (induction "length g - k" arbitrary: k rule: less_induct)
  case less
  then have "g ! k \<noteq> 0x94" by (metis nth_mem)
  then show ?case using less by (subst skipped_simp) auto
qed

lemma drained_noise:
  assumes g: "0x94 \<notin> set g" and zs: "zs = [] \<or> (\<exists>ys. zs = [0x94, 0x00] @ ys)"
  shows "fst (drained junk n (g @ zs)) = fst (drained junk n zs)"
proof (cases "g = []")
  case False
  then have k: "skipped junk g 0 = length g - 1" using skipped_noise [OF g, of 0] by simp
  show ?thesis
  proof (cases "zs = []")
    case True
    have "parsed junk (drop (length g - 1) g) = Inl 0" by (rule parsed_short) simp
    then show ?thesis
      using k True drained_seek [of junk n g] by (simp add: drained_unfold [of junk n "drop _ g"] drain.simps [of junk _ _ "[]"])
  next
    case nonempty: False
    have "g ! (length g - 1) \<noteq> 0x94" using g False by (metis last_conv_nth last_in_set)
    then have "skipped junk (g @ zs) (length g - 1) = skipped junk (g @ zs) (length g + 0)"
      using False nonempty by (subst skipped_simp) (simp add: nth_append)
    also have "\<dots> = length g" using zs nonempty unfolding skipped_front by (subst skipped_simp) auto
    finally have "skipped junk (g @ zs) 0 = length g" using k False skipped_append [of junk g zs 0] by simp
    then show ?thesis using drained_seek [of junk n "g @ zs"] by simp
  qed
qed simp


definition sample_request :: rpc where
  "sample_request = \<lparr>r_msg_id = 300, r_method = [0x73, 0x65], r_pin = [0x44, 0x31, 0x33], r_val = 1\<rparr>"


text \<open>The registration is itself a request the parser understands, with the method name as its parameter.\<close>

lemma reg_pkt_parses:
  "map_sum id (\<lambda>(k, q). (k, r_msg_id q, c_str (r_method q), c_str (r_pin q))) (parsed junk reg_pkt) =
   Inr (31, 1, ''$/register'', ''set_pin_by_name'')"
  by (simp add: parsed_def reg_pkt_def ascii_def parse_rpc_request_def parse_msg_id_def parse_fixstr_def
      parse_params_def Let_def wr_def rd_def c_str_def upt_rec, simp add: char_of_def bit_0)

end
