(* ===== verification/Spec2Isabelle.thy ===== *)
theory Spec2Isabelle
  imports Hash QMap QList Waiter Registry RmtfsIo PdMapper Bridge
begin

text \<open>
  Verification of the user-space services of the Arduino imola Android device tree
  (\<open>src/shared/utils\<close>).

  Components and the theories that model them, in the order the services depend on each other:
  \<^item> \<open>Prelude\<close>: integer types, byte memory, little-endian codecs, linear probing.
  \<^item> \<open>Interfaces\<close>: the locales through which components rely on each other.
  \<^item> \<open>Hash\<close>: \<open>qrtr/src/hash.c\<close>.
  \<^item> \<open>QMap\<close>: the hash table of \<open>qrtr/src/map.c\<close>.
  \<^item> \<open>QList\<close>: the linked list of \<open>qrtr/src/list.h\<close>.
  \<^item> \<open>Qrtr\<close>: the client library \<open>qrtr/lib/qrtr.c\<close> and the control packet of \<open>libqrtr.h\<close>.
  \<^item> \<open>Waiter\<close>: the event loop \<open>qrtr/src/waiter.c\<close>.
  \<^item> \<open>NameServer\<close>, \<open>Registry\<close>: the name server \<open>qrtr/src/ns.c\<close> and its properties.
  \<^item> \<open>Qmi\<close>, \<open>QmiBounds\<close>, \<open>QmiDecode\<close>, \<open>QmiRoundtrip\<close>: the QMI codec \<open>qrtr/lib/qmi.c\<close> and its properties.
\<close>

end
